(* ===== verification/KPrelude.thy ===== *)
theory KPrelude
  imports Main "HOL-Library.Word" "HOL-Library.List_Lexorder"
begin

text \<open>
  Shared material of the KoishiDB development: the byte and machine-integer
  types, the result type in which every operation that can abort or read out
  of bounds returns, the theorem collections the component proofs draw on, and
  generic facts about lists and words.

  \<^item> A \<^verbatim>\<open>char\<close> or \<^verbatim>\<open>uint8_t\<close> is an 8-bit word, \<^verbatim>\<open>uint32_t\<close> a 32-bit word and
    \<^verbatim>\<open>uint64_t\<close> a 64-bit word. Lengths (\<^verbatim>\<open>size_t\<close>) are natural numbers; the
    places where the code narrows them to 32 bits, or lets them wrap, say so.
  \<^item> A failed \<^verbatim>\<open>assert\<close> and a read outside of the initialised memory behind a
    pointer are values of the type \<open>err\<close>.
\<close>

type_synonym byte = "8 word"
type_synonym bytes = "byte list"
type_synonym u32 = "32 word"
type_synonym u64 = "64 word"

named_theorems codec \<open>round trips of the encoders and decoders\<close>
named_theorems res_simps \<open>evaluation of results\<close>

unbundle bit_operations_syntax

section \<open>Results\<close>

text \<open>
  \<open>AssertFail\<close> is a failed \<^verbatim>\<open>assert\<close>, \<open>OutOfBounds\<close> a read or write outside of
  the memory behind a pointer, \<open>NullDeref\<close> the use of a null pointer,
  \<open>SignedOverflow\<close> an operation on \<^verbatim>\<open>int\<close> values that leaves their range, \<open>BadShift\<close> a shift
  by at least the width of its operand, \<open>UninitRead\<close> the use of a variable that was never set,
  \<open>UseAfterFree\<close> the use of an object that was deleted or has gone out of scope, \<open>NoReturn\<close> the end of a function with a
  result that has not returned one, and
  \<open>Diverged\<close> a loop that used up the fuel its model gives it.
\<close>

datatype err = AssertFail | OutOfBounds | NullDeref | SignedOverflow | BadShift | UninitRead | UseAfterFree | NoReturn | Diverged

type_synonym 'a res = "err + 'a"

definition rbind :: "'a res \<Rightarrow> ('a \<Rightarrow> 'b res) \<Rightarrow> 'b res" where
  "rbind m f = (case m of Inl e \<Rightarrow> Inl e | Inr x \<Rightarrow> f x)"

definition assert_that :: "bool \<Rightarrow> unit res" where
  "assert_that P = (if P then Inr () else Inl AssertFail)"

lemma rbind_simps [simp, res_simps]:
  "rbind (Inl e) f = Inl e" "rbind (Inr x) f = f x"
  by (simp_all add: rbind_def)

lemma assert_that_simps [simp, res_simps]:
  "assert_that True = Inr ()" "assert_that False = Inl AssertFail"
  by (simp_all add: assert_that_def)

lemma rbind_eq_Inr [iff]: "rbind m f = Inr y \<longleftrightarrow> (\<exists>x. m = Inr x \<and> f x = Inr y)"
  by (cases m) auto

lemma assert_that_eq_Inr [iff]: "assert_that P = Inr u \<longleftrightarrow> P"
  by (auto simp: assert_that_def)

lemma rbind_cong [fundef_cong]:
  "m = m' \<Longrightarrow> (\<And>x. m' = Inr x \<Longrightarrow> f x = f' x) \<Longrightarrow> rbind m f = rbind m' f'"
  by (cases m') auto

section \<open>Three-way comparison\<close>

text \<open>The value a \<^verbatim>\<open>Compare\<close> method returns for two elements of a linear order.\<close>

definition order_cmp :: "'a::linorder \<Rightarrow> 'a \<Rightarrow> int" where
  "order_cmp x y = (if x < y then -1 else if x = y then 0 else 1)"

lemma order_cmp_simps [simp]:
  "order_cmp x y = -1 \<longleftrightarrow> x < y"
  "order_cmp x y = 0 \<longleftrightarrow> x = y"
  "order_cmp x y = 1 \<longleftrightarrow> y < x"
  "order_cmp x y < 0 \<longleftrightarrow> x < y"
  by (auto simp: order_cmp_def)

section \<open>Lists\<close>

lemma find_append:
  "List.find P (xs @ ys) = (case List.find P xs of None \<Rightarrow> List.find P ys | Some x \<Rightarrow> Some x)"
  by (induction xs) auto

lemma take_length_append [simp]: "n = length xs \<Longrightarrow> take n (xs @ ys) = xs"
  by simp

lemma drop_length_append [simp]: "n = length xs \<Longrightarrow> drop n (xs @ ys) = ys"
  by simp

lemma takeWhile_no_zero [simp]:
  "0 \<notin> set xs \<Longrightarrow> takeWhile (\<lambda>b. b \<noteq> (0::'a::zero)) (xs @ 0 # ys) = xs"
  by (induction xs) auto

lemma length_takeWhile_le_length: "length (takeWhile P xs) \<le> length xs"
  by (rule length_takeWhile_le)

section \<open>Words\<close>

lemma unat_drop_bit_div: "unat (drop_bit n w) = unat w div 2 ^ n"
  for w :: "'a::len word"
  unfolding unat_drop_bit_eq by (simp add: drop_bit_eq_div)

lemma unat_mask_mod: "unat (w AND mask n) = unat w mod 2 ^ n"
  for w :: "'a::len word"
  unfolding take_bit_eq_mask [symmetric] unsigned_take_bit_eq by (simp add: take_bit_eq_mod)

text \<open>\<^verbatim>\<open>size_t\<close> subtraction, which wraps around.\<close>

definition size_sub :: "nat \<Rightarrow> nat \<Rightarrow> nat" where
  "size_sub a b = (a + 2 ^ 64 - b) mod 2 ^ 64"

lemma size_sub_eq [simp]: "b \<le> a \<Longrightarrow> a < 2 ^ 64 \<Longrightarrow> size_sub a b = a - b"
proof -
  assume "b \<le> a" and a: "a < 2 ^ 64"
  then have "size_sub a b = (a - b + 2 ^ 64) mod 2 ^ 64"
    by (simp only: size_sub_def Nat.add_diff_assoc2)
  also have "\<dots> = (a - b) mod 2 ^ 64"
    by (rule mod_add_self2)
  also have "\<dots> = a - b"
    using a by (intro mod_less) linarith
  finally show ?thesis .
qed

section \<open>Comparators\<close>

text \<open>
  The contract of the abstract class \<^verbatim>\<open>Comparator\<close> (\<^verbatim>\<open>util/comparator.h\<close>): on the keys
  it accepts, \<^verbatim>\<open>Compare\<close> returns without error and gives the three-way comparison
  of the keys' ranks in a linear order.
\<close>

locale comparator =
  fixes cmp :: "'k \<Rightarrow> 'k \<Rightarrow> int res"
    and valid :: "'k \<Rightarrow> bool"
    and rank :: "'k \<Rightarrow> 'o::linorder"
  assumes cmp_rank: "valid a \<Longrightarrow> valid b \<Longrightarrow> cmp a b = Inr (order_cmp (rank a) (rank b))"
begin

lemma cmp_antisym: "valid a \<Longrightarrow> valid b \<Longrightarrow> cmp a b = Inr r \<Longrightarrow> cmp b a = Inr (- r)"
  by (auto simp: cmp_rank order_cmp_def)

lemma cmp_trans:
  "valid a \<Longrightarrow> valid b \<Longrightarrow> valid c \<Longrightarrow> cmp a b = Inr (-1) \<Longrightarrow> cmp b c = Inr (-1) \<Longrightarrow> cmp a c = Inr (-1)"
  by (auto simp: cmp_rank)

lemma cmp_total: "valid a \<Longrightarrow> valid b \<Longrightarrow> cmp a b \<in> {Inr (-1), Inr 0, Inr 1}"
  by (auto simp: cmp_rank order_cmp_def)

end

end
