(* ===== verification/Slices.thy ===== *)
theory Slices
  imports KPrelude
begin

text \<open>
  \<^verbatim>\<open>Slice\<close> (\<^verbatim>\<open>type/slice.h\<close>, \<^verbatim>\<open>type/slice.cc\<close>): a pointer and a size. The pointer is
  modelled by the memory it gives access to: \<open>sl_mem\<close> is the sequence of
  initialised bytes from the pointer to the end of its allocation, so that a
  read past it is an error and advancing the pointer drops bytes. A slice over
  a \<^verbatim>\<open>std::string\<close> can also read the string's terminating zero byte.
\<close>

record slice =
  sl_mem :: bytes
  sl_size :: nat

definition slice_ok :: "slice \<Rightarrow> bool" where
  "slice_ok s \<longleftrightarrow> sl_size s \<le> length (sl_mem s) \<and> sl_size s < 2 ^ 64"

definition slice_content :: "slice \<Rightarrow> bytes" where
  "slice_content s = take (sl_size s) (sl_mem s)"

section \<open>Reading memory\<close>

definition read_mem :: "bytes \<Rightarrow> nat \<Rightarrow> bytes res" where
  "read_mem mem n = (if n \<le> length mem then Inr (take n mem) else Inl OutOfBounds)"

text \<open>\<^verbatim>\<open>memcmp\<close> compares bytes as unsigned values; only the sign of its result is specified.\<close>

fun bytes_cmp :: "bytes \<Rightarrow> bytes \<Rightarrow> int" where
  "bytes_cmp (x # xs) (y # ys) = (if x < y then -1 else if y < x then 1 else bytes_cmp xs ys)"
| "bytes_cmp xs ys = 0"

definition memcmp :: "bytes \<Rightarrow> bytes \<Rightarrow> nat \<Rightarrow> int res" where
  "memcmp p q n = rbind (read_mem p n) (\<lambda>a. rbind (read_mem q n) (\<lambda>b. Inr (bytes_cmp a b)))"

text \<open>\<^verbatim>\<open>strlen\<close> reads up to the first zero byte.\<close>

definition strlen :: "bytes \<Rightarrow> nat res" where
  "strlen mem = (if 0 \<in> set mem then Inr (length (takeWhile (\<lambda>b. b \<noteq> 0) mem)) else Inl OutOfBounds)"

text \<open>Writing \<open>ys\<close> over the bytes of a string from position \<open>n\<close> on.\<close>

definition overwrite :: "bytes \<Rightarrow> nat \<Rightarrow> bytes \<Rightarrow> bytes res" where
  "overwrite xs n ys =
     (if n + length ys \<le> length xs then Inr (take n xs @ ys @ drop (n + length ys) xs)
      else Inl OutOfBounds)"

section \<open>Operations\<close>

definition Slice_default :: slice where
  "Slice_default = \<lparr>sl_mem = [0], sl_size = 0\<rparr>"

definition Slice_cstr :: "bytes \<Rightarrow> slice res" where
  "Slice_cstr d = rbind (strlen d) (\<lambda>n. Inr \<lparr>sl_mem = d, sl_size = n\<rparr>)"

definition Slice_buf :: "bytes \<Rightarrow> nat \<Rightarrow> slice" where
  "Slice_buf d n = \<lparr>sl_mem = d, sl_size = n\<rparr>"

text \<open>The memory behind \<^verbatim>\<open>std::string::data()\<close>: the bytes of the string and a zero byte.\<close>

definition string_data :: "bytes \<Rightarrow> bytes" where
  "string_data s = s @ [0]"

definition Slice_string :: "bytes \<Rightarrow> slice" where
  "Slice_string s = \<lparr>sl_mem = string_data s, sl_size = length s\<rparr>"

definition Slice_empty :: "slice \<Rightarrow> bool" where
  "Slice_empty s \<longleftrightarrow> sl_size s = 0"

definition Slice_index :: "slice \<Rightarrow> nat \<Rightarrow> byte res" where
  "Slice_index s n =
     rbind (assert_that (n < sl_size s))
       (\<lambda>_. if n < length (sl_mem s) then Inr (sl_mem s ! n) else Inl OutOfBounds)"

definition Slice_eq :: "slice \<Rightarrow> slice \<Rightarrow> bool res" where
  "Slice_eq s that =
     (if sl_size that \<noteq> sl_size s then Inr False
      else rbind (memcmp (sl_mem s) (sl_mem that) (sl_size s)) (\<lambda>ret. Inr (ret = 0)))"

definition Slice_neq :: "slice \<Rightarrow> slice \<Rightarrow> bool res" where
  "Slice_neq s that = rbind (Slice_eq s that) (\<lambda>b. Inr (\<not> b))"

definition Slice_Compare :: "slice \<Rightarrow> slice \<Rightarrow> int res" where
  "Slice_Compare s that =
     (let min_len = (if sl_size s < sl_size that then sl_size s else sl_size that) in
      rbind (memcmp (sl_mem s) (sl_mem that) min_len) (\<lambda>r.
        if r < 0 then Inr (-1)
        else if r > 0 then Inr 1
        else if sl_size s < sl_size that then Inr (-1)
        else if sl_size s > sl_size that then Inr 1
        else Inr r))"

definition Slice_ToString :: "slice \<Rightarrow> bytes res" where
  "Slice_ToString s = read_mem (sl_mem s) (sl_size s)"

text \<open>
  Moving a pointer past the end of its memory is allowed only up to one past
  the last byte, so an advance beyond \<open>sl_mem\<close> is out of bounds.
\<close>

definition Slice_Advance :: "slice \<Rightarrow> nat \<Rightarrow> slice res" where
  "Slice_Advance s n =
     rbind (assert_that (n \<le> sl_size s)) (\<lambda>_.
       if n \<le> length (sl_mem s)
       then Inr \<lparr>sl_mem = drop n (sl_mem s), sl_size = sl_size s - n\<rparr>
       else Inl OutOfBounds)"

definition Slice_Clear :: "slice \<Rightarrow> slice" where
  "Slice_Clear s = Slice_default"

section \<open>Lemmas\<close>

lemma slice_okD [dest]: "slice_ok s \<Longrightarrow> sl_size s \<le> length (sl_mem s)"
  by (simp add: slice_ok_def)

lemma slice_ok_lt: "slice_ok s \<Longrightarrow> sl_size s < 2 ^ 64"
  by (simp add: slice_ok_def)

lemma length_slice_content [simp]: "slice_ok s \<Longrightarrow> length (slice_content s) = sl_size s"
  by (auto simp: slice_content_def)

lemma read_mem_take [simp]: "n \<le> length mem \<Longrightarrow> read_mem mem n = Inr (take n mem)"
  by (simp add: read_mem_def)

lemma read_mem_append [simp]: "n = length xs \<Longrightarrow> read_mem (xs @ ys) n = Inr xs"
  by (simp add: read_mem_def)

lemma Slice_ToString_ok [simp]: "slice_ok s \<Longrightarrow> Slice_ToString s = Inr (slice_content s)"
  by (auto simp: Slice_ToString_def slice_content_def)

lemma Slice_string_ok [simp]: "length s < 2 ^ 64 \<Longrightarrow> slice_ok (Slice_string s)"
  by (simp add: slice_ok_def Slice_string_def string_data_def)

lemma Slice_string_content [simp]: "slice_content (Slice_string s) = s"
  by (simp add: slice_content_def Slice_string_def string_data_def)

lemma Slice_string_size [simp]: "sl_size (Slice_string s) = length s"
  by (simp add: Slice_string_def)

lemma Slice_Advance_ok:
  "slice_ok s \<Longrightarrow> n \<le> sl_size s \<Longrightarrow>
     \<exists>t. Slice_Advance s n = Inr t \<and> slice_ok t \<and> slice_content t = drop n (slice_content s)"
  by (auto simp: Slice_Advance_def slice_ok_def slice_content_def drop_take)

lemma Slice_cstr_string:
  "Slice_cstr (string_data s) =
     Inr \<lparr>sl_mem = string_data s, sl_size = length (takeWhile (\<lambda>b. b \<noteq> 0) s)\<rparr>"
  by (induction s) (auto simp: Slice_cstr_def strlen_def string_data_def)

lemma overwrite_at: "overwrite (a @ b @ c) (length a) d = Inr (a @ d @ c)" if "length d = length b"
  using that by (simp add: overwrite_def)

text \<open>\<^verbatim>\<open>Compare\<close> is the lexicographic order on the contents.\<close>

lemma bytes_cmp_take: "bytes_cmp (take n xs) (take n ys) = bytes_cmp xs ys"
  if "min (length xs) (length ys) \<le> n"
  using that
proof (induction xs ys arbitrary: n rule: bytes_cmp.induct)
  case (1 x xs y ys)
  then show ?case by (cases n) auto
qed simp_all

lemma order_cmp_Cons [simp]:
  "order_cmp (x # xs) (y # ys) = (if x = y then order_cmp xs ys else order_cmp x y)"
  by (auto simp: order_cmp_def)

lemma order_cmp_Nil [simp]:
  "order_cmp [] ys = (if ys = [] then 0 else -1)" "order_cmp xs [] = (if xs = [] then 0 else 1)"
  by (cases ys; simp add: order_cmp_def) (cases xs; simp add: order_cmp_def)

lemma bytes_cmp_order:
  "order_cmp xs ys =
     (let r = bytes_cmp xs ys in
      if r < 0 then -1 else if r > 0 then 1
      else if length xs < length ys then -1 else if length xs > length ys then 1 else r)"
proof (induction xs ys rule: bytes_cmp.induct)
  case (1 x xs y ys)
  show ?case
  proof (cases "x = y")
    case True
    then show ?thesis using "1.IH" by (simp add: Let_def)
  next
    case False
    then consider "x < y" | "y < x" by fastforce
    then show ?thesis using False by cases (auto simp: Let_def order_cmp_def)
  qed
qed (simp_all add: Let_def)

lemma Slice_Compare_content:
  assumes "slice_ok a" "slice_ok b"
  shows "Slice_Compare a b = Inr (order_cmp (slice_content a) (slice_content b))"
proof -
  define m where "m = (if sl_size a < sl_size b then sl_size a else sl_size b)"
  have m: "m \<le> sl_size a" "m \<le> sl_size b" and min: "m = min (sl_size a) (sl_size b)"
    by (auto simp: m_def)
  have "take m (sl_mem a) = take m (slice_content a)" "take m (sl_mem b) = take m (slice_content b)"
    using m by (simp_all add: slice_content_def min_def)
  then have "memcmp (sl_mem a) (sl_mem b) m = Inr (bytes_cmp (slice_content a) (slice_content b))"
    using m min assms by (auto simp: memcmp_def slice_ok_def bytes_cmp_take)
  then show ?thesis
    unfolding Slice_Compare_def m_def [symmetric] Let_def
    using assms by (simp add: bytes_cmp_order Let_def)
qed

lemma bytes_cmp_eq_0: "length xs = length ys \<Longrightarrow> bytes_cmp xs ys = 0 \<longleftrightarrow> xs = ys"
  by (induction xs ys rule: bytes_cmp.induct) auto

lemma Slice_eq_content:
  assumes "slice_ok a" "slice_ok b"
  shows "Slice_eq a b = Inr (slice_content a = slice_content b)"
proof (cases "sl_size a = sl_size b")
  case True
  then show ?thesis
    using assms by (auto simp: Slice_eq_def memcmp_def slice_content_def slice_ok_def bytes_cmp_eq_0)
next
  case False
  then have "slice_content a \<noteq> slice_content b"
    using assms by (metis length_slice_content)
  with False show ?thesis by (simp add: Slice_eq_def)
qed

text \<open>A slice compares through \<^verbatim>\<open>Slice::Compare\<close> as its content does.\<close>

interpretation slice_cmp: comparator Slice_Compare slice_ok slice_content
  by unfold_locales (rule Slice_Compare_content)

end
