(* ===== verification/Encode.thy ===== *)
theory Encode
  imports Slices
begin

text \<open>
  The integer encodings of \<^verbatim>\<open>util/encode.cc\<close>: little-endian base-128 varints and
  fixed-width little-endian integers. An encoder that fills a caller's buffer
  is modelled by the bytes it writes, in order; the size or end pointer it
  returns is the number of these bytes. A decoder takes the memory behind its
  pointer and returns the value and the memory behind the advanced pointer.
\<close>

section \<open>Varints\<close>

function EncodeVarint32 :: "u32 \<Rightarrow> bytes" where
  "EncodeVarint32 value =
     (if value < 128 then [ucast value]
      else ucast ((value AND 0x7F) OR 128) # EncodeVarint32 (drop_bit 7 value))"
  by pat_completeness auto
termination
  by (relation "measure unat") (auto simp: unat_drop_bit_div word_less_nat_alt)

function EncodeVarint64 :: "u64 \<Rightarrow> bytes" where
  "EncodeVarint64 v =
     (if v \<ge> 128 then ucast (v OR 128) # EncodeVarint64 (drop_bit 7 v) else [ucast v])"
  by pat_completeness auto
termination
  by (relation "measure unat") (auto simp: unat_drop_bit_div word_le_nat_alt)

function EncodeVarint32Length :: "u32 \<Rightarrow> nat" where
  "EncodeVarint32Length value =
     (if value < 128 then 1 else 1 + EncodeVarint32Length (drop_bit 7 value))"
  by pat_completeness auto
termination
  by (relation "measure unat") (auto simp: unat_drop_bit_div word_less_nat_alt)

declare EncodeVarint32.simps [simp del] EncodeVarint64.simps [simp del]
  EncodeVarint32Length.simps [simp del]

text \<open>
  \<^verbatim>\<open>PutVarint32\<close> and \<^verbatim>\<open>PutVarint64\<close> encode into stack buffers of 5 and 10 bytes and
  append them to the string.
\<close>

definition PutVarint32 :: "u32 \<Rightarrow> bytes \<Rightarrow> bytes res" where
  "PutVarint32 value dst =
     (let buf = EncodeVarint32 value in
      if length buf \<le> 5 then Inr (dst @ buf) else Inl OutOfBounds)"

definition PutVarint64 :: "bytes \<Rightarrow> u64 \<Rightarrow> bytes res" where
  "PutVarint64 dst v =
     (let buf = EncodeVarint64 v in
      if length buf \<le> 10 then Inr (dst @ buf) else Inl OutOfBounds)"

text \<open>One read through an advancing pointer, \<^verbatim>\<open>*(ptr++)\<close>.\<close>

fun fetch :: "bytes \<Rightarrow> (byte \<times> bytes) res" where
  "fetch [] = Inl OutOfBounds"
| "fetch (b # mem) = Inr (b, mem)"

definition DecodeVarint32 :: "bytes \<Rightarrow> (u32 \<times> bytes) res" where
  "DecodeVarint32 dst =
     rbind (fetch dst) (\<lambda>(b0, ptr). let part0 = ucast b0 :: u32 in
     if part0 < 0x80 then Inr (part0, ptr) else
     let part0 = part0 - 0x80 in
     rbind (fetch ptr) (\<lambda>(b1, ptr). let part1 = ucast b1 :: u32; part0 = part0 + push_bit 7 part1 in
     if part1 < 0x80 then Inr (part0, ptr) else
     let part0 = part0 - push_bit 7 0x80 in
     rbind (fetch ptr) (\<lambda>(b2, ptr). let part2 = ucast b2 :: u32; part0 = part0 + push_bit 14 part2 in
     if part2 < 0x80 then Inr (part0, ptr) else
     let part0 = part0 - push_bit 14 0x80 in
     rbind (fetch ptr) (\<lambda>(b3, ptr). let part3 = ucast b3 :: u32; part0 = part0 + push_bit 21 part3 in
     if part3 < 0x80 then Inr (part0, ptr) else
     let part0 = part0 - push_bit 21 0x80 in
     rbind (fetch ptr) (\<lambda>(b4, ptr). let part4 = ucast b4 :: u32; part0 = part0 + push_bit 28 part4 in
     Inr (part0, ptr))))))"

text \<open>The size of the remaining slice is the pointer difference \<^verbatim>\<open>limit - q\<close>.\<close>

definition GetVarint32 :: "slice \<Rightarrow> (u32 \<times> slice) res" where
  "GetVarint32 dst =
     rbind (DecodeVarint32 (sl_mem dst)) (\<lambda>(value, q).
       Inr (value, \<lparr>sl_mem = q, sl_size = size_sub (sl_size dst) (length (sl_mem dst) - length q)\<rparr>))"

text \<open>
  \<^verbatim>\<open>GetVarint64Ptr\<close>: \<open>left\<close> is \<^verbatim>\<open>limit - p\<close>. The outer \<^verbatim>\<open>res\<close> is the memory access, the
  inner option is the null pointer that reports a bad encoding.
\<close>

function GetVarint64Loop :: "nat \<Rightarrow> bytes \<Rightarrow> nat \<Rightarrow> u64 \<Rightarrow> (u64 \<times> bytes \<times> nat) option res" where
  "GetVarint64Loop shift p left result =
     (if shift \<le> 63 \<and> 0 < left then
        rbind (fetch p) (\<lambda>(b, p).
          let byte = ucast b :: u64 in
          if byte AND 128 \<noteq> 0
          then GetVarint64Loop (shift + 7) p (left - 1) (result OR push_bit shift (byte AND 127))
          else Inr (Some (result OR push_bit shift byte, p, left - 1)))
      else Inr None)"
  by pat_completeness auto
termination
  by (relation "measure (\<lambda>(shift, p, left, result). left)") auto

declare GetVarint64Loop.simps [simp del]

definition GetVarint64Ptr :: "bytes \<Rightarrow> nat \<Rightarrow> (u64 \<times> bytes \<times> nat) option res" where
  "GetVarint64Ptr p left = GetVarint64Loop 0 p left 0"

text \<open>\<open>None\<close> is the result \<^verbatim>\<open>false\<close>: the input slice and the value are unchanged.\<close>

definition GetVarint64 :: "slice \<Rightarrow> (u64 \<times> slice) option res" where
  "GetVarint64 input =
     rbind (GetVarint64Ptr (sl_mem input) (sl_size input)) (\<lambda>q. case q of
       None \<Rightarrow> Inr None
     | Some (value, p, left) \<Rightarrow> Inr (Some (value, \<lparr>sl_mem = p, sl_size = left\<rparr>)))"

section \<open>Length-prefixed slices and fixed-width integers\<close>

definition GetFixedBytes :: "slice \<Rightarrow> nat \<Rightarrow> (slice \<times> slice) res" where
  "GetFixedBytes dst n =
     rbind (assert_that (n \<le> sl_size dst)) (\<lambda>_.
       if n \<le> length (sl_mem dst)
       then Inr (Slice_buf (sl_mem dst) n, Slice_buf (drop n (sl_mem dst)) (sl_size dst - n))
       else Inl OutOfBounds)"

definition PutLengthPrefixedSlice :: "bytes \<Rightarrow> slice \<Rightarrow> bytes res" where
  "PutLengthPrefixedSlice dst value =
     rbind (PutVarint32 (word_of_nat (sl_size value)) dst) (\<lambda>dst.
     rbind (read_mem (sl_mem value) (sl_size value)) (\<lambda>d. Inr (dst @ d)))"

definition GetLengthPrefixedSlice :: "bytes \<Rightarrow> slice \<Rightarrow> (bytes \<times> slice) res" where
  "GetLengthPrefixedSlice dst src =
     rbind (GetVarint32 src) (\<lambda>(len, src).
     rbind (read_mem (sl_mem src) (unat len)) (\<lambda>d.
     rbind (Slice_Advance src (unat len)) (\<lambda>src. Inr (dst @ d, src))))"

definition DecodeFixed32 :: "bytes \<Rightarrow> u32 res" where
  "DecodeFixed32 ptr =
     rbind (read_mem ptr 4) (\<lambda>buffer.
       Inr (ucast (buffer ! 0) OR push_bit 8 (ucast (buffer ! 1)) OR
            push_bit 16 (ucast (buffer ! 2)) OR push_bit 24 (ucast (buffer ! 3))))"

definition DecodeFixed64 :: "bytes \<Rightarrow> u64 res" where
  "DecodeFixed64 ptr =
     rbind (read_mem ptr 8) (\<lambda>buffer.
       Inr (ucast (buffer ! 0) OR push_bit 8 (ucast (buffer ! 1)) OR
            push_bit 16 (ucast (buffer ! 2)) OR push_bit 24 (ucast (buffer ! 3)) OR
            push_bit 32 (ucast (buffer ! 4)) OR push_bit 40 (ucast (buffer ! 5)) OR
            push_bit 48 (ucast (buffer ! 6)) OR push_bit 56 (ucast (buffer ! 7))))"

definition EncodeFixed32 :: "u32 \<Rightarrow> bytes" where
  "EncodeFixed32 value =
     [ucast value, ucast (drop_bit 8 value), ucast (drop_bit 16 value), ucast (drop_bit 24 value)]"

definition EncodeFixed64 :: "u64 \<Rightarrow> bytes" where
  "EncodeFixed64 value =
     [ucast value, ucast (drop_bit 8 value), ucast (drop_bit 16 value), ucast (drop_bit 24 value),
      ucast (drop_bit 32 value), ucast (drop_bit 40 value), ucast (drop_bit 48 value),
      ucast (drop_bit 56 value)]"

definition PutFixed32 :: "bytes \<Rightarrow> u32 \<Rightarrow> bytes" where
  "PutFixed32 dst value = dst @ EncodeFixed32 value"

definition PutFixed64 :: "bytes \<Rightarrow> u64 \<Rightarrow> bytes" where
  "PutFixed64 dst value = dst @ EncodeFixed64 value"

section \<open>32-bit varints\<close>

text \<open>
  A varint is read back by the straight-line decoder: each continuation byte
  carries seven bits above a set flag, which the decoder subtracts again.
\<close>

lemma EncodeVarint32_small: "v < 128 \<Longrightarrow> EncodeVarint32 v = [ucast v]"
  by (simp add: EncodeVarint32.simps [of v])

lemma EncodeVarint32_large:
  "\<not> v < 128 \<Longrightarrow> EncodeVarint32 v = ucast ((v AND 0x7F) OR 128) # EncodeVarint32 (drop_bit 7 v)"
  by (simp add: EncodeVarint32.simps [of v])

lemma bit_128: "bit (128 :: 'a::len word) n \<longleftrightarrow> n = 7 \<and> n < LENGTH('a)"
proof -
  have "(128 :: 'a word) = 2 ^ 7" by simp
  then show ?thesis by (simp only: bit_exp_iff) auto
qed

lemma and_127: "v AND 127 = take_bit 7 v" for v :: "'a::len word"
  by (simp add: take_bit_eq_mask mask_eq_exp_minus_1)

lemma or_128: "take_bit 7 v OR 128 = take_bit 7 v + 128" for v :: "'a::len word"
  by (subst disjunctive_add) (auto simp only: bit_take_bit_iff bit_128)

lemma unat_ucast_byte: "unat (ucast w :: 'b::len word) = unat w mod 2 ^ LENGTH('b)" for w :: "'a::len word"
  by (simp add: unsigned_ucast_eq take_bit_eq_mod)

lemma cont_byte: "(ucast (ucast ((v AND 0x7F) OR 128) :: byte) :: u32) = (v AND 127) + 128" for v :: u32
proof (rule word_unat_eq_iff [THEN iffD2])
  have "unat (v AND 127) = unat v mod 128"
    using unat_mask_mod [of v 7] by (simp add: mask_eq_exp_minus_1)
  then have "unat ((v AND 127) + 128) = unat v mod 128 + 128"
    by (simp add: unat_word_ariths) 
  then show "unat (ucast (ucast ((v AND 0x7F) OR 128) :: byte) :: u32) = unat ((v AND 127) + 128)"
    by (simp add: and_127 or_128 unat_ucast_byte)
qed

lemma ucast_ucast_small: "v < 128 \<Longrightarrow> (ucast (ucast v :: byte) :: u32) = v" for v :: u32
  by (rule word_unat_eq_iff [THEN iffD2]) (simp add: unat_ucast_byte word_less_nat_alt)

lemma split_7: "(v AND 127) + push_bit 7 (drop_bit 7 v) = v" for v :: u32
  by (subst disjunctive_add) (auto simp: and_127 bit_simps intro!: bit_word_eqI)

lemma cont_byte_not_small: "\<not> (v AND 127) + 128 < (128 :: u32)"
proof -
  have "unat (v AND 127) < 128"
    using unat_mask_mod [of v 7] by (simp add: mask_eq_exp_minus_1)
  then show ?thesis by (simp add: word_less_nat_alt unat_word_ariths)
qed

lemmas varint32_steps = cont_byte cont_byte_not_small ucast_ucast_small EncodeVarint32_small
  EncodeVarint32_large push_bit_add Let_def

lemma drop_28_small: "drop_bit 28 v < 128" for v :: u32
proof -
  have "unat v < 2 ^ 32" using unsigned_less [of v] by simp
  then show ?thesis by (simp add: word_less_nat_alt unat_drop_bit_div)
qed

lemma DecodeVarint32_EncodeVarint32 [codec]:
  "DecodeVarint32 (EncodeVarint32 v @ rest) = Inr (v, rest)"
proof -
  define v1 v2 v3 v4 where vs: "v1 = drop_bit 7 v" "v2 = drop_bit 7 v1" "v3 = drop_bit 7 v2" "v4 = drop_bit 7 v3"
  have s: "(v AND 127) + push_bit 7 v1 = v" "(v1 AND 127) + push_bit 7 v2 = v1"
     "(v2 AND 127) + push_bit 7 v3 = v2" "(v3 AND 127) + push_bit 7 v4 = v3"
    by (simp_all only: vs split_7)
  have v4: "v4 < 128" using drop_28_small [of v] by (simp add: vs)
  have t1: "(v AND 127) + push_bit 7 (v1 AND 127) + push_bit 14 v2 = v"
    using arg_cong [OF s(2), of "push_bit 7"] s(1) by (simp add: push_bit_add add.assoc)
  have t2: "(v AND 127) + push_bit 7 (v1 AND 127) + push_bit 14 (v2 AND 127) + push_bit 21 v3 = v"
    using arg_cong [OF s(3), of "push_bit 14"] t1 by (simp add: push_bit_add add.assoc)
  have t3: "(v AND 127) + push_bit 7 (v1 AND 127) + push_bit 14 (v2 AND 127) + push_bit 21 (v3 AND 127)
     + push_bit 28 v4 = v"
    using arg_cong [OF s(4), of "push_bit 21"] t2 by (simp add: push_bit_add add.assoc)
  note steps = DecodeVarint32_def varint32_steps add.assoc
  consider "v < 128" | "\<not> v < 128" "v1 < 128" | "\<not> v < 128" "\<not> v1 < 128" "v2 < 128"
    | "\<not> v < 128" "\<not> v1 < 128" "\<not> v2 < 128" "v3 < 128" 
    | "\<not> v < 128" "\<not> v1 < 128" "\<not> v2 < 128" "\<not> v3 < 128" by blast
  then show ?thesis
  proof cases
    case 1
    then show ?thesis by (simp add: DecodeVarint32_def varint32_steps)
  next
    case 2
    then show ?thesis by (simp add: DecodeVarint32_def varint32_steps s flip: vs)
  next
    case 3
    then show ?thesis using t1 by (simp add: steps flip: vs)
  next
    case 4
    then show ?thesis using t2 by (simp add: steps flip: vs)
  next
    case 5
    then show ?thesis using t3 v4 by (simp add: steps flip: vs)
  qed
qed


lemma EncodeVarint32_length_le:
  "0 < k \<Longrightarrow> unat v < 128 ^ k \<Longrightarrow> length (EncodeVarint32 v) \<le> k"
proof (induction v arbitrary: k rule: EncodeVarint32.induct)
  case (1 v)
  show ?case
  proof (cases "v < 128")
    case True
    then show ?thesis using "1.prems" by (simp add: EncodeVarint32_small)
  next
    case False
    then obtain j where k: "k = Suc j" "0 < j"
      using "1.prems" by (cases k; cases "k - 1") (auto simp: word_less_nat_alt)
    then have "unat (drop_bit 7 v) < 128 ^ j"
      using "1.prems" by (simp add: unat_drop_bit_div less_mult_imp_div_less mult.commute)
    then show ?thesis using "1.IH" [OF False k(2)] k False by (simp add: EncodeVarint32_large)
  qed
qed

lemma EncodeVarint32_le_5: "length (EncodeVarint32 v) \<le> 5"
proof (rule EncodeVarint32_length_le)
  have "unat v < 2 ^ 32" using unsigned_less [of v] by simp
  then show "unat v < 128 ^ 5" by simp
qed simp

lemma EncodeVarint32_Nil [simp]: "EncodeVarint32 v \<noteq> []"
  by (simp add: EncodeVarint32.simps [of v])

lemma PutVarint32_append [codec]: "PutVarint32 v dst = Inr (dst @ EncodeVarint32 v)"
  by (simp add: PutVarint32_def EncodeVarint32_le_5)

lemma EncodeVarint32Length_length: "EncodeVarint32Length v = length (EncodeVarint32 v)"
proof (induction v rule: EncodeVarint32Length.induct)
  case (1 v)
  then show ?case
    by (cases "v < 128") (simp_all add: EncodeVarint32Length.simps [of v] EncodeVarint32.simps [of v])
qed

lemma GetVarint32_slice [codec]:
  assumes "sl_mem s = EncodeVarint32 v @ rest" "length (EncodeVarint32 v) \<le> sl_size s" "sl_size s < 2 ^ 64"
  shows "GetVarint32 s = Inr (v, \<lparr>sl_mem = rest, sl_size = sl_size s - length (EncodeVarint32 v)\<rparr>)"
  using assms by (simp add: GetVarint32_def DecodeVarint32_EncodeVarint32)

section \<open>64-bit varints\<close>

lemma EncodeVarint64_small: "\<not> v \<ge> 128 \<Longrightarrow> EncodeVarint64 v = [ucast v]"
  by (simp add: EncodeVarint64.simps [of v])

lemma EncodeVarint64_large:
  "v \<ge> 128 \<Longrightarrow> EncodeVarint64 v = ucast (v OR 128) # EncodeVarint64 (drop_bit 7 v)"
  by (simp add: EncodeVarint64.simps [of v])

lemma EncodeVarint64_length_le:
  "0 < k \<Longrightarrow> unat v < 128 ^ k \<Longrightarrow> length (EncodeVarint64 v) \<le> k"
proof (induction v arbitrary: k rule: EncodeVarint64.induct)
  case (1 v)
  show ?case
  proof (cases "v \<ge> 128")
    case False
    then show ?thesis using "1.prems" by (simp add: EncodeVarint64_small)
  next
    case True
    then obtain j where k: "k = Suc j" "0 < j"
      using "1.prems" by (cases k; cases "k - 1") (auto simp: word_le_nat_alt)
    then have "unat (drop_bit 7 v) < 128 ^ j"
      using "1.prems" by (simp add: unat_drop_bit_div less_mult_imp_div_less mult.commute)
    then show ?thesis using "1.IH" [OF True k(2)] k True by (simp add: EncodeVarint64_large)
  qed
qed

lemma EncodeVarint64_le_10: "length (EncodeVarint64 v) \<le> 10"
proof (rule EncodeVarint64_length_le)
  have "unat v < 2 ^ 64" using unsigned_less [of v] by simp
  then show "unat v < 128 ^ 10" by simp
qed simp

lemma EncodeVarint64_Nil [simp]: "EncodeVarint64 v \<noteq> []"
  by (simp add: EncodeVarint64.simps [of v])

lemma PutVarint64_append [codec]: "PutVarint64 dst v = Inr (dst @ EncodeVarint64 v)"
  by (simp add: PutVarint64_def EncodeVarint64_le_10)

lemma bit_127: "bit (127 :: 'a::len word) n \<longleftrightarrow> n < 7 \<and> n < LENGTH('a)"
proof -
  have "(127 :: 'a word) = mask 7" by (simp add: mask_eq_exp_minus_1)
  then show ?thesis by (simp only: bit_mask_iff) auto
qed

lemma cont64_flag: "(ucast (ucast (v OR 128) :: byte) :: u64) AND 128 \<noteq> 0" for v :: u64
proof -
  have "bit ((ucast (ucast (v OR 128) :: byte) :: u64) AND 128) 7"
    by (simp add: bit_and_iff bit_or_iff bit_128 bit_ucast_iff del: bit_numeral_iff)
  then show ?thesis by (metis bit_0_eq bot_apply bot_bool_def)
qed


lemma last64_value: "\<not> v \<ge> 128 \<Longrightarrow> (ucast (ucast v :: byte) :: u64) = v" for v :: u64
  by (rule word_unat_eq_iff [THEN iffD2]) (simp add: unat_ucast_byte word_le_nat_alt)

lemma last64_flag: "v AND 128 = 0" if "\<not> v \<ge> 128" for v :: u64
proof -
  have "take_bit 7 v = v"
    using that unsigned_take_bit_eq [of 7 v, where 'a = nat]
    by (intro word_unat_eq_iff [THEN iffD2]) (simp only: take_bit_eq_mod [where 'a = nat], simp add: word_le_nat_alt)
  then have "v AND 128 = take_bit 7 v AND 128" by simp
  also have "\<dots> = 0"
    by (rule bit_word_eqI) (unfold bit_and_iff bit_128 bit_take_bit_iff, simp)
  finally show ?thesis .
qed

lemma cont64_bits: "(ucast (ucast (v OR 128) :: byte) :: u64) AND 127 = v AND 127" for v :: u64
  by (rule bit_word_eqI) (unfold bit_and_iff bit_or_iff bit_127 bit_128 bit_ucast_iff, auto)

lemma shift_split: "push_bit s (v AND 127) OR push_bit (s + 7) (drop_bit 7 v) = push_bit s v" for v :: u64
proof (rule bit_word_eqI)
  fix n assume "n < LENGTH(64)"
  have "7 + (n - (s + 7)) = n - s" if "s + 7 \<le> n" using that by simp
  moreover have "n - s < 7" if "\<not> s + 7 \<le> n" using that by simp
  ultimately show "bit (push_bit s (v AND 127) OR push_bit (s + 7) (drop_bit 7 v)) n = bit (push_bit s v) n"
    by (cases "s + 7 \<le> n") (unfold bit_and_iff bit_or_iff bit_127 bit_push_bit_iff bit_drop_bit_eq comp_def, auto)
qed

text \<open>The decoder loop adds the remaining value above the bits read so far.\<close>

lemma GetVarint64Loop_encode:
  "unat v < 2 ^ (64 - s) \<Longrightarrow> s \<le> 63 \<Longrightarrow> length (EncodeVarint64 v) \<le> left \<Longrightarrow>
     GetVarint64Loop s (EncodeVarint64 v @ rest) left r =
       Inr (Some (r OR push_bit s v, rest, left - length (EncodeVarint64 v)))"
proof (induction v arbitrary: s left r rule: EncodeVarint64.induct)
  case (1 v)
  show ?case
  proof (cases "v \<ge> 128")
    case False
    with "1.prems" show ?thesis
      by (simp add: GetVarint64Loop.simps [of s _ left r] EncodeVarint64_small Let_def last64_value last64_flag)
  next
    case True
    have "2 ^ 7 \<le> unat v" using True by (simp add: word_le_nat_alt)
    with "1.prems"(1) have "(2::nat) ^ 7 < 2 ^ (64 - s)" by linarith
    then have s: "7 < 64 - s" by (rule power_less_imp_less_exp [rotated]) simp
    then have e: "64 - s = 7 + (64 - (s + 7))" by simp
    have "unat v < 2 ^ (64 - (s + 7)) * 2 ^ 7"
      using "1.prems"(1) by (subst (asm) e) (simp only: power_add mult.commute)
    then have "unat (drop_bit 7 v) < 2 ^ (64 - (s + 7))"
      unfolding unat_drop_bit_div by (rule less_mult_imp_div_less)
    moreover have "s + 7 \<le> 63" using s by simp
    ultimately show ?thesis
      using "1.IH" [OF True] "1.prems" True shift_split [of s v]
      by (simp add: GetVarint64Loop.simps [of s _ left r] EncodeVarint64_large Let_def cont64_flag cont64_bits
          or.assoc)
  qed
qed

lemma GetVarint64_slice [codec]:
  assumes "sl_mem s = EncodeVarint64 v @ rest" "length (EncodeVarint64 v) \<le> sl_size s"
  shows "GetVarint64 s = Inr (Some (v, \<lparr>sl_mem = rest, sl_size = sl_size s - length (EncodeVarint64 v)\<rparr>))"
proof -
  have "unat v < 2 ^ (64 - 0)" using unsigned_less [of v] by simp
  then show ?thesis
    using assms by (simp add: GetVarint64_def GetVarint64Ptr_def GetVarint64Loop_encode)
qed

section \<open>Fixed-width integers\<close>

lemma length_EncodeFixed [simp]: "length (EncodeFixed32 v) = 4" "length (EncodeFixed64 w) = 8"
  by (simp_all add: EncodeFixed32_def EncodeFixed64_def)

lemma bit_byte_at:
  "bit (push_bit k (ucast (ucast (drop_bit k v) :: byte)) :: 'a word) n \<longleftrightarrow> k \<le> n \<and> n < k + 8 \<and> bit v n"
  for v :: "'a::len word"
  by (auto simp: bit_push_bit_iff bit_ucast_iff bit_drop_bit_eq dest: bit_imp_le_length)

lemma bit_byte_at_0:
  "bit (ucast (ucast v :: byte) :: 'a word) n \<longleftrightarrow> n < 8 \<and> bit v n" for v :: "'a::len word"
  using bit_byte_at [of 0 v n] by simp

lemma DecodeFixed32_EncodeFixed32 [codec]: "DecodeFixed32 (EncodeFixed32 v @ rest) = Inr v"
proof -
  let ?w = "ucast (ucast v :: byte) OR push_bit 8 (ucast (ucast (drop_bit 8 v) :: byte)) OR
        push_bit 16 (ucast (ucast (drop_bit 16 v) :: byte)) OR
        push_bit 24 (ucast (ucast (drop_bit 24 v) :: byte) :: u32)"
  have "bit ?w n = bit v n" if "n < 32" for n
    using that by (unfold bit_or_iff bit_byte_at bit_byte_at_0) auto
  then have "?w = v" by (intro bit_word_eqI) simp
  then show ?thesis by (simp add: DecodeFixed32_def EncodeFixed32_def)
qed

lemma DecodeFixed64_EncodeFixed64 [codec]: "DecodeFixed64 (EncodeFixed64 v @ rest) = Inr v"
proof -
  let ?w = "ucast (ucast v :: byte) OR push_bit 8 (ucast (ucast (drop_bit 8 v) :: byte)) OR
        push_bit 16 (ucast (ucast (drop_bit 16 v) :: byte)) OR
        push_bit 24 (ucast (ucast (drop_bit 24 v) :: byte)) OR
        push_bit 32 (ucast (ucast (drop_bit 32 v) :: byte)) OR
        push_bit 40 (ucast (ucast (drop_bit 40 v) :: byte)) OR
        push_bit 48 (ucast (ucast (drop_bit 48 v) :: byte)) OR
        push_bit 56 (ucast (ucast (drop_bit 56 v) :: byte) :: u64)"
  have "bit ?w n = bit v n" if "n < 64" for n
    using that by (unfold bit_or_iff bit_byte_at bit_byte_at_0) auto
  then have "?w = v" by (intro bit_word_eqI) simp
  then show ?thesis by (simp add: DecodeFixed64_def EncodeFixed64_def)
qed



section \<open>Length-prefixed slices and bounds of the decoders\<close>

lemma unat_word_of_nat_32 [simp]: "n < 2 ^ 32 \<Longrightarrow> unat (word_of_nat n :: u32) = n"
  by (simp add: unat_of_nat)

lemma PutLengthPrefixedSlice_append [codec]:
  "slice_ok s \<Longrightarrow>
     PutLengthPrefixedSlice dst s = Inr (dst @ EncodeVarint32 (word_of_nat (sl_size s)) @ slice_content s)"
  by (auto simp: PutLengthPrefixedSlice_def PutVarint32_append slice_content_def)

lemma GetLengthPrefixedSlice_slice [codec]:
  assumes mem: "sl_mem s = EncodeVarint32 (word_of_nat (length d)) @ d @ rest" and d: "length d < 2 ^ 32"
    and sz: "length (EncodeVarint32 (word_of_nat (length d))) + length d \<le> sl_size s" "sl_size s < 2 ^ 64"
  shows "GetLengthPrefixedSlice dst s =
    Inr (dst @ d, \<lparr>sl_mem = rest, sl_size = sl_size s - length (EncodeVarint32 (word_of_nat (length d))) - length d\<rparr>)"
  using sz d by (simp add: GetLengthPrefixedSlice_def GetVarint32_slice [OF mem] Slice_Advance_def)

lemma fetch_eq_Inr [iff]: "fetch mem = Inr (b, q) \<longleftrightarrow> mem = b # q"
  by (cases mem) auto

lemma DecodeVarint32_bounded:
  assumes "DecodeVarint32 mem = Inr (v, q)"
  shows "\<exists>xs. mem = xs @ q \<and> xs \<noteq> [] \<and> length xs \<le> 5"
proof -
  have one: "\<exists>xs. b # m = xs @ q \<and> xs \<noteq> [] \<and> length xs \<le> Suc n" 
    if "m = q \<or> (\<exists>xs. m = xs @ q \<and> xs \<noteq> [] \<and> length xs \<le> n)" for b m n
    using that by (force intro: exI [of _ "[b]"] exI [of _ "b # xs" for xs])
  show ?thesis
    using assms unfolding DecodeVarint32_def Let_def numeral_eq_Suc
    by (auto simp del: append_eq_Cons_conv split: if_splits intro!: one)
qed

lemma EncodeVarint32_zero_free: "v \<noteq> 0 \<Longrightarrow> 0 \<notin> set (EncodeVarint32 v)"
proof (induction v rule: EncodeVarint32.induct)
  case (1 v)
  show ?case
  proof (cases "v < 128")
    case True
    then have "ucast v \<noteq> (0 :: byte)" using "1.prems" ucast_ucast_small [of v] by auto
    with True show ?thesis by (simp add: EncodeVarint32_small)
  next
    case False
    then have "drop_bit 7 v \<noteq> 0"
      by (auto simp: word_less_nat_alt unat_drop_bit_div word_unat_eq_iff)
    moreover have "ucast ((v AND 127) OR 128) \<noteq> (0 :: byte)"
      using cont_byte [of v] cont_byte_not_small [of v] by auto
    ultimately show ?thesis using "1.IH" False by (auto simp: EncodeVarint32_large)
  qed
qed

lemma EncodeVarint64_zero_free: "v \<noteq> 0 \<Longrightarrow> 0 \<notin> set (EncodeVarint64 v)"
proof (induction v rule: EncodeVarint64.induct)
  case (1 v)
  show ?case
  proof (cases "v \<ge> 128")
    case False
    then have "ucast v \<noteq> (0 :: byte)" using "1.prems" last64_value [of v] by auto
    with False show ?thesis by (simp add: EncodeVarint64_small)
  next
    case True
    then have "drop_bit 7 v \<noteq> 0"
      by (auto simp: word_le_nat_alt unat_drop_bit_div word_unat_eq_iff)
    moreover have "ucast (v OR 128) \<noteq> (0 :: byte)"
      using cont64_flag [of v] by auto
    ultimately show ?thesis using "1.IH" True by (auto simp: EncodeVarint64_large)
  qed
qed

section \<open>Length-prefixed pairs\<close>

text \<open>
  A length-prefixed key followed by a length-prefixed value: the layout of a
  memtable key, and of an entry of a block.
\<close>

definition entry_bytes :: "bytes \<Rightarrow> bytes \<Rightarrow> bytes" where
  "entry_bytes k v =
     EncodeVarint32 (word_of_nat (length k)) @ k @ EncodeVarint32 (word_of_nat (length v)) @ v"

abbreviation prefix_len :: "bytes \<Rightarrow> nat" where
  "prefix_len k \<equiv> length (EncodeVarint32 (word_of_nat (length k)))"

lemma length_entry_bytes:
  "length (entry_bytes k v) = prefix_len k + length k + prefix_len v + length v"
  by (simp add: entry_bytes_def)

lemma length_entry_bytes_le: "length (entry_bytes k v) \<le> length k + length v + 10"
  using EncodeVarint32_le_5 [of "word_of_nat (length k)"] EncodeVarint32_le_5 [of "word_of_nat (length v)"]
  by (simp add: entry_bytes_def)

lemma entry_bytes_Nil [simp]: "entry_bytes k v \<noteq> []"
  by (simp add: entry_bytes_def)

text \<open>Reading the key of an entry, and then its value.\<close>

lemma GetVarint32_entry [codec]:
  assumes "length (entry_bytes k v) \<le> n" "n < 2 ^ 64"
  shows "GetVarint32 \<lparr>sl_mem = entry_bytes k v @ rest, sl_size = n\<rparr> =
    Inr (word_of_nat (length k),
      \<lparr>sl_mem = k @ EncodeVarint32 (word_of_nat (length v)) @ v @ rest, sl_size = n - prefix_len k\<rparr>)"
  using assms by (subst GetVarint32_slice) (simp_all add: entry_bytes_def)

lemma GetVarint32_value [codec]:
  assumes "prefix_len v \<le> n" "n < 2 ^ 64"
  shows "GetVarint32 \<lparr>sl_mem = EncodeVarint32 (word_of_nat (length v)) @ v @ rest, sl_size = n\<rparr> =
    Inr (word_of_nat (length v), \<lparr>sl_mem = v @ rest, sl_size = n - prefix_len v\<rparr>)"
  using assms by (subst GetVarint32_slice) simp_all

lemma Slice_Advance_prefix [codec]:
  "length k \<le> n \<Longrightarrow>
     Slice_Advance \<lparr>sl_mem = k @ rest, sl_size = n\<rparr> (length k) =
       Inr \<lparr>sl_mem = rest, sl_size = n - length k\<rparr>"
  by (simp add: Slice_Advance_def)

lemma GetLengthPrefixedSlice_prefix [codec]:
  assumes "length d < 2 ^ 32" "prefix_len d + length d \<le> n" "n < 2 ^ 64"
  shows "GetLengthPrefixedSlice [] \<lparr>sl_mem = EncodeVarint32 (word_of_nat (length d)) @ d @ rest, sl_size = n\<rparr> =
    Inr (d, \<lparr>sl_mem = rest, sl_size = n - (prefix_len d + length d)\<rparr>)"
  using assms by (subst GetLengthPrefixedSlice_slice) simp_all

section \<open>Safety of the bounded reader\<close>

lemma GetVarint64Loop_safe:
  "left \<le> length p \<Longrightarrow>
     \<exists>q. GetVarint64Loop shift p left result = Inr q \<and>
       (\<forall>v p' left'. q = Some (v, p', left') \<longrightarrow>
          left' < left \<and> p' = drop (left - left') p \<and> left - left' \<le> 10 - shift div 7)"
proof (induction shift p left result rule: GetVarint64Loop.induct)
  case (1 shift p left result)
  show ?case
  proof (cases "shift \<le> 63 \<and> 0 < left")
    case True
    then obtain b p' where p: "p = b # p'" using "1.prems" by (cases p) auto
    have len: "left - 1 \<le> length p'" using p "1.prems" by simp
    show ?thesis
    proof (cases "(ucast b :: u64) AND 128 \<noteq> 0")
      case cont: True
      obtain q where q: "GetVarint64Loop (shift + 7) p' (left - 1) (result OR push_bit shift (ucast b AND 127)) = Inr q"
        "\<And>v r l. q = Some (v, r, l) \<Longrightarrow> l < left - 1 \<and> r = drop (left - 1 - l) p' \<and> left - 1 - l \<le> 10 - (shift + 7) div 7"
        using "1.IH" [OF True, of "(b, p')" b p' "ucast b"] cont len p by auto
      have "l < left \<and> r = drop (left - l) p \<and> left - l \<le> 10 - shift div 7" if "q = Some (v, r, l)" for v r l
      proof -
        note q2 = q(2) [OF that]
        then have "left - l = Suc (left - 1 - l)" by linarith
        moreover have "(shift + 7) div 7 = shift div 7 + 1" "shift div 7 \<le> 9" using True by auto
        moreover have "Suc a \<le> 10 - d" if "a \<le> 9 - d" "d \<le> 9" for a d :: nat using that by arith
        ultimately show ?thesis using q2 p by auto
      qed
      then show ?thesis using q(1) p True cont by (subst GetVarint64Loop.simps) (auto simp: Let_def)
    next
      case False
      moreover have "shift div 7 \<le> 9" using True by auto
      ultimately show ?thesis using p True by (subst GetVarint64Loop.simps) (auto simp: Let_def)
    qed
  next
    case False
    then show ?thesis by (subst GetVarint64Loop.simps) auto
  qed
qed

lemma GetVarint64_safe:
  assumes "slice_ok s"
  shows "\<exists>q. GetVarint64 s = Inr q \<and>
    (\<forall>v t. q = Some (v, t) \<longrightarrow> slice_ok t \<and> sl_size t < sl_size s \<and> sl_size s \<le> sl_size t + 10 \<and>
       slice_content t = drop (sl_size s - sl_size t) (slice_content s))"
proof -
  obtain q where q: "GetVarint64Loop 0 (sl_mem s) (sl_size s) 0 = Inr q"
    "\<And>v p l. q = Some (v, p, l) \<Longrightarrow> l < sl_size s \<and> p = drop (sl_size s - l) (sl_mem s) \<and> sl_size s - l \<le> 10"
    using GetVarint64Loop_safe [of "sl_size s" "sl_mem s" 0 0] assms by (auto simp: slice_ok_def)
  show ?thesis
  proof (cases q)
    case None
    then show ?thesis using q by (simp add: GetVarint64_def GetVarint64Ptr_def)
  next
    case (Some a)
    obtain v p l where a: "a = (v, p, l)" by (cases a)
    have "take l (drop (sl_size s - l) (sl_mem s)) = drop (sl_size s - l) (take (sl_size s) (sl_mem s))"
      using q(2) [of v p l] Some a by (simp add: drop_take)
    then show ?thesis using q Some a assms
      by (auto simp: GetVarint64_def GetVarint64Ptr_def slice_ok_def slice_content_def)
  qed
qed

section \<open>Properties\<close>

text \<open>A 32-bit value appended by \<^verbatim>\<open>PutVarint32\<close> takes between one and five bytes, as many as
  \<^verbatim>\<open>EncodeVarint32Length\<close> says, never overruns the five-byte buffer, and \<^verbatim>\<open>GetVarint32\<close> reads
  the value back and leaves the slice at the bytes that follow.\<close>

theorem varint32_roundtrip:
  assumes "length rest + 5 < 2 ^ 64"
  shows "\<exists>enc. PutVarint32 v dst = Inr (dst @ enc) \<and> length enc = EncodeVarint32Length v \<and>
    1 \<le> length enc \<and> length enc \<le> 5 \<and>
    GetVarint32 (Slice_string (enc @ rest)) = Inr (v, Slice_string rest)"
proof -
  have "GetVarint32 (Slice_string (EncodeVarint32 v @ rest)) = Inr (v, Slice_string rest)"
    using assms EncodeVarint32_le_5 [of v]
    by (subst GetVarint32_slice [of _ v "string_data rest"]) (simp_all add: Slice_string_def string_data_def)
  then show ?thesis
    by (auto simp: PutVarint32_append EncodeVarint32Length_length EncodeVarint32_le_5 Suc_le_eq)
qed

theorem varint32_roundtrip_witness:
  "\<exists>enc. PutVarint32 300 [7] = Inr ([7] @ enc) \<and> length enc = EncodeVarint32Length 300 \<and>
    1 \<le> length enc \<and> length enc \<le> 5 \<and>
    GetVarint32 (Slice_string (enc @ [1, 2])) = Inr (300, Slice_string [1, 2])"
  using varint32_roundtrip [of "[1, 2]" 300 "[7]"] by simp

text \<open>A 64-bit value appended by \<^verbatim>\<open>PutVarint64\<close> takes between one and ten bytes, never overruns
  the ten-byte buffer, and \<^verbatim>\<open>GetVarint64\<close> reads the value back and leaves the slice at the bytes
  that follow.\<close>

theorem varint64_roundtrip:
  "\<exists>enc. PutVarint64 dst v = Inr (dst @ enc) \<and> 1 \<le> length enc \<and> length enc \<le> 10 \<and>
    GetVarint64 (Slice_string (enc @ rest)) = Inr (Some (v, Slice_string rest))"
proof -
  have "GetVarint64 (Slice_string (EncodeVarint64 v @ rest)) = Inr (Some (v, Slice_string rest))"
    by (subst GetVarint64_slice [of _ v "string_data rest"]) (simp_all add: Slice_string_def string_data_def)
  then show ?thesis
    by (auto simp: PutVarint64_append EncodeVarint64_le_10 Suc_le_eq)
qed

text \<open>On any slice, also one with a truncated or overlong encoding, \<^verbatim>\<open>GetVarint64\<close> returns
  without reading outside of the slice: either \<^verbatim>\<open>false\<close>, or a value and the slice advanced by
  one to ten bytes.\<close>

theorem GetVarint64_total:
  assumes "slice_ok s"
  shows "GetVarint64 s = Inr None \<or>
    (\<exists>v t n. GetVarint64 s = Inr (Some (v, t)) \<and> slice_ok t \<and> 1 \<le> n \<and> n \<le> 10 \<and>
       slice_content t = drop n (slice_content s))"
proof -
  obtain q where q: "GetVarint64 s = Inr q" "\<And>v t. q = Some (v, t) \<Longrightarrow> slice_ok t \<and> sl_size t < sl_size s \<and>
      sl_size s \<le> sl_size t + 10 \<and> slice_content t = drop (sl_size s - sl_size t) (slice_content s)"
    using GetVarint64_safe [OF assms] by blast
  show ?thesis
  proof (cases q)
    case (Some a)
    obtain v t where a: "a = (v, t)" by (cases a)
    have "1 \<le> sl_size s - sl_size t" "sl_size s - sl_size t \<le> 10"
      using q(2) [of v t] Some a by auto
    then show ?thesis using q(1) q(2) [of v t] Some a by blast
  qed (use q in simp)
qed

theorem GetVarint64_total_witness:
  "GetVarint64 (Slice_string [200, 200]) = Inr None \<or>
    (\<exists>v t n. GetVarint64 (Slice_string [200, 200]) = Inr (Some (v, t)) \<and> slice_ok t \<and> 1 \<le> n \<and> n \<le> 10 \<and>
       slice_content t = drop n (slice_content (Slice_string [200, 200])))"
  by (rule GetVarint64_total) simp

text \<open>Fixed-width integers appended by \<^verbatim>\<open>PutFixed32\<close> and \<^verbatim>\<open>PutFixed64\<close> take 4 and 8 bytes and
  are read back by \<^verbatim>\<open>DecodeFixed32\<close> and \<^verbatim>\<open>DecodeFixed64\<close> at their offset, whatever follows.\<close>

theorem fixed_roundtrip:
  "DecodeFixed32 (drop (length dst) (PutFixed32 dst v @ rest)) = Inr v \<and>
   DecodeFixed64 (drop (length dst) (PutFixed64 dst w @ rest)) = Inr w \<and>
   length (PutFixed32 dst v) = length dst + 4 \<and> length (PutFixed64 dst w) = length dst + 8"
  by (simp add: PutFixed32_def PutFixed64_def DecodeFixed32_EncodeFixed32 DecodeFixed64_EncodeFixed64)

text \<open>A slice appended by \<^verbatim>\<open>PutLengthPrefixedSlice\<close> is read back by
  \<^verbatim>\<open>GetLengthPrefixedSlice\<close>, which leaves the source slice at the bytes that follow.\<close>

theorem length_prefixed_roundtrip:
  assumes "slice_ok s" "sl_size s < 2 ^ 32" "length rest < 2 ^ 32"
  shows "\<exists>enc. PutLengthPrefixedSlice dst s = Inr (dst @ enc) \<and>
    GetLengthPrefixedSlice out (Slice_string (enc @ rest)) = Inr (out @ slice_content s, Slice_string rest)"
proof -
  let ?enc = "EncodeVarint32 (word_of_nat (sl_size s)) @ slice_content s"
  have "GetLengthPrefixedSlice out (Slice_string (?enc @ rest)) = Inr (out @ slice_content s, Slice_string rest)"
    using assms EncodeVarint32_le_5 [of "word_of_nat (sl_size s)"]
    by (subst GetLengthPrefixedSlice_slice [of _ "slice_content s" "string_data rest"])
       (simp_all add: Slice_string_def string_data_def)
  then show ?thesis using assms by (auto simp: PutLengthPrefixedSlice_append)
qed

theorem length_prefixed_roundtrip_witness:
  "\<exists>enc. PutLengthPrefixedSlice [9] (Slice_string [1, 0, 2]) = Inr ([9] @ enc) \<and>
    GetLengthPrefixedSlice [] (Slice_string (enc @ [5])) =
      Inr ([] @ slice_content (Slice_string [1, 0, 2]), Slice_string [5])"
  by (rule length_prefixed_roundtrip) simp_all

end
