(* ===== verification/Statuses.thy ===== *)
theory Statuses
  imports Encode
begin

text \<open>
  \<^verbatim>\<open>Status\<close> (\<^verbatim>\<open>common/status.h\<close>, \<^verbatim>\<open>common/status.cc\<close>): a null pointer for success, else the bytes
  of a message length, a code and a message.
\<close>

datatype Code = kOk | kNotFound | kCorruption | kNotSupported | kInvalidArgument | kIOError

fun Code_number :: "Code \<Rightarrow> byte" where
  "Code_number kOk = 0"
| "Code_number kNotFound = 1"
| "Code_number kCorruption = 2"
| "Code_number kNotSupported = 3"
| "Code_number kInvalidArgument = 4"
| "Code_number kIOError = 5"

record Status =
  st_state :: "bytes option"

definition Status_OK :: Status where
  "Status_OK = \<lparr>st_state = None\<rparr>"

text \<open>The bytes are written into a buffer of \<^verbatim>\<open>size + 5\<close> bytes, where \<^verbatim>\<open>size\<close> is a 32-bit number.\<close>

definition Status_make :: "Code \<Rightarrow> slice \<Rightarrow> slice \<Rightarrow> Status res" where
  "Status_make code msg msg2 =
     rbind (assert_that (code \<noteq> kOk)) (\<lambda>_.
       let len1 = word_of_nat (sl_size msg) :: u32;
           len2 = word_of_nat (sl_size msg2) :: u32;
           size = len1 + (if len2 \<noteq> 0 then 2 + len2 else 0) in
       rbind (read_mem (sl_mem msg) (unat len1)) (\<lambda>d1.
       rbind (read_mem (sl_mem msg2) (unat len2)) (\<lambda>d2.
         let result = EncodeFixed32 size @ [Code_number code] @ d1 @ (if len2 \<noteq> 0 then [58, 32] @ d2 else []) in
         if length result \<le> unat (size + 5) then Inr \<lparr>st_state = Some result\<rparr> else Inl OutOfBounds)))"

definition Status_NotFound :: "slice \<Rightarrow> slice \<Rightarrow> Status res" where
  "Status_NotFound msg msg2 = Status_make kNotFound msg msg2"

definition Status_Corruption :: "slice \<Rightarrow> slice \<Rightarrow> Status res" where
  "Status_Corruption msg msg2 = Status_make kCorruption msg msg2"

definition Status_NotSupported :: "slice \<Rightarrow> slice \<Rightarrow> Status res" where
  "Status_NotSupported msg msg2 = Status_make kNotSupported msg msg2"

definition Status_InvalidArgument :: "slice \<Rightarrow> slice \<Rightarrow> Status res" where
  "Status_InvalidArgument msg msg2 = Status_make kInvalidArgument msg msg2"

definition Status_IOError :: "slice \<Rightarrow> slice \<Rightarrow> Status res" where
  "Status_IOError msg msg2 = Status_make kIOError msg msg2"

definition Status_ok :: "Status \<Rightarrow> bool" where
  "Status_ok s \<longleftrightarrow> st_state s = None"

text \<open>\<^verbatim>\<open>code()\<close> as a number: \<^verbatim>\<open>state_[4]\<close> may hold any byte.\<close>

definition Status_code :: "Status \<Rightarrow> byte res" where
  "Status_code s =
     (case st_state s of
        None \<Rightarrow> Inr (Code_number kOk)
      | Some st \<Rightarrow> if 4 < length st then Inr (st ! 4) else Inl OutOfBounds)"

definition Status_IsNotFound :: "Status \<Rightarrow> bool res" where
  "Status_IsNotFound s = rbind (Status_code s) (\<lambda>c. Inr (c = Code_number kNotFound))"

definition Status_IsCorruption :: "Status \<Rightarrow> bool res" where
  "Status_IsCorruption s = rbind (Status_code s) (\<lambda>c. Inr (c = Code_number kCorruption))"

definition Status_IsIOError :: "Status \<Rightarrow> bool res" where
  "Status_IsIOError s = rbind (Status_code s) (\<lambda>c. Inr (c = Code_number kIOError))"

definition Status_IsNotSupportedError :: "Status \<Rightarrow> bool res" where
  "Status_IsNotSupportedError s = rbind (Status_code s) (\<lambda>c. Inr (c = Code_number kNotSupported))"

definition Status_IsInvalidArgument :: "Status \<Rightarrow> bool res" where
  "Status_IsInvalidArgument s = rbind (Status_code s) (\<lambda>c. Inr (c = Code_number kInvalidArgument))"

definition CopyState :: "bytes \<Rightarrow> bytes res" where
  "CopyState state =
     rbind (DecodeFixed32 state) (\<lambda>size. read_mem state (unat (size + 5)))"

definition Status_copy :: "Status \<Rightarrow> Status res" where
  "Status_copy rhs =
     (case st_state rhs of
        None \<Rightarrow> Inr \<lparr>st_state = None\<rparr>
      | Some st \<Rightarrow> rbind (CopyState st) (\<lambda>d. Inr \<lparr>st_state = Some d\<rparr>))"

definition ascii :: "string \<Rightarrow> bytes" where
  "ascii s = map (\<lambda>c. word_of_nat (of_char c)) s"

text \<open>The decimal digits \<^verbatim>\<open>snprintf\<close> writes for a code outside of the enumeration are a parameter.\<close>

definition Status_ToString :: "(byte \<Rightarrow> bytes) \<Rightarrow> Status \<Rightarrow> bytes res" where
  "Status_ToString unknown s =
     (case st_state s of
        None \<Rightarrow> Inr (ascii ''OK'')
      | Some st \<Rightarrow>
          rbind (Status_code s) (\<lambda>c.
          let type = (if c = Code_number kOk then ascii ''OK''
                      else if c = Code_number kNotFound then ascii ''NotFound: ''
                      else if c = Code_number kCorruption then ascii ''Corruption: ''
                      else if c = Code_number kNotSupported then ascii ''Not implemented: ''
                      else if c = Code_number kInvalidArgument then ascii ''Invalid argument: ''
                      else if c = Code_number kIOError then ascii ''IO error: ''
                      else unknown c) in
          rbind (DecodeFixed32 st) (\<lambda>len.
          rbind (read_mem (drop 5 st) (unat len)) (\<lambda>d. Inr (type @ d)))))"

section \<open>The message of a status\<close>

fun Code_text :: "Code \<Rightarrow> bytes" where
  "Code_text kOk = ascii ''OK''"
| "Code_text kNotFound = ascii ''NotFound: ''"
| "Code_text kCorruption = ascii ''Corruption: ''"
| "Code_text kNotSupported = ascii ''Not implemented: ''"
| "Code_text kInvalidArgument = ascii ''Invalid argument: ''"
| "Code_text kIOError = ascii ''IO error: ''"

definition status_message :: "slice \<Rightarrow> slice \<Rightarrow> bytes" where
  "status_message msg msg2 =
     slice_content msg @ (if sl_size msg2 = 0 then [] else [58, 32] @ slice_content msg2)"

lemma word_of_nat_32_eq_0: "n < 2 ^ 32 \<Longrightarrow> (word_of_nat n :: u32) = 0 \<longleftrightarrow> n = 0"
  by (auto simp: word_unat_eq_iff)

lemma unat_plus_5: "n + 5 < 2 ^ 32 \<Longrightarrow> unat (word_of_nat n + 5 :: u32) = n + 5"
  using unat_word_of_nat_32 [of "n + 5"] by simp

lemma Status_make_state:
  assumes ok: "slice_ok msg" "slice_ok msg2" and sz: "sl_size msg + sl_size msg2 + 7 < 2 ^ 32" and c: "code \<noteq> kOk"
  shows "Status_make code msg msg2 =
    Inr \<lparr>st_state = Some (EncodeFixed32 (word_of_nat (length (status_message msg msg2))) @ Code_number code # status_message msg msg2)\<rparr>"
proof -
  let ?n = "length (status_message msg msg2)"
  have n: "?n = sl_size msg + (if sl_size msg2 = 0 then 0 else 2 + sl_size msg2)"
    using ok by (simp add: status_message_def)
  have size: "word_of_nat (sl_size msg) + (if (word_of_nat (sl_size msg2) :: u32) \<noteq> 0 then 2 + word_of_nat (sl_size msg2) else 0)
      = (word_of_nat ?n :: u32)"
    using sz by (simp add: n word_of_nat_32_eq_0)
  have u: "unat (word_of_nat ?n + 5 :: u32) = ?n + 5"
    using sz n by (intro unat_plus_5) (simp split: if_splits)
  have "read_mem (sl_mem msg) (sl_size msg) = Inr (slice_content msg)"
    "read_mem (sl_mem msg2) (sl_size msg2) = Inr (slice_content msg2)"
    using ok by (auto simp: slice_content_def)
  moreover have "unat (word_of_nat (sl_size msg) :: u32) = sl_size msg" "unat (word_of_nat (sl_size msg2) :: u32) = sl_size msg2"
    using sz by simp_all
  ultimately show ?thesis
    using c sz u ok unfolding Status_make_def Let_def size
    by (simp add: word_of_nat_32_eq_0 status_message_def)
qed

section \<open>Properties\<close>

text \<open>An error status keeps its code and its message: it is not \<^verbatim>\<open>ok\<close>, a copy has the same bytes,
  and \<^verbatim>\<open>ToString\<close> prints the name of the code and the two messages joined by a colon.\<close>

theorem status_roundtrip:
  assumes "slice_ok msg" "slice_ok msg2" "sl_size msg + sl_size msg2 + 7 < 2 ^ 32" "code \<noteq> kOk"
  shows "\<exists>s. Status_make code msg msg2 = Inr s \<and> \<not> Status_ok s \<and> Status_code s = Inr (Code_number code) \<and>
    Status_copy s = Inr s \<and> Status_ToString unknown s = Inr (Code_text code @ status_message msg msg2)"
proof -
  let ?m = "status_message msg msg2"
  let ?st = "EncodeFixed32 (word_of_nat (length ?m)) @ Code_number code # ?m"
  have n: "length ?m + 5 < 2 ^ 32"
    using assms(1-3) by (simp add: status_message_def split: if_splits)
  then have u: "unat (word_of_nat (length ?m) + 5 :: u32) = length ?m + 5" "unat (word_of_nat (length ?m) :: u32) = length ?m"
    by (simp_all add: unat_plus_5)
  have "Status_code \<lparr>st_state = Some ?st\<rparr> = Inr (Code_number code)"
    by (simp add: Status_code_def nth_append)
  moreover have "Status_ToString unknown \<lparr>st_state = Some ?st\<rparr> = Inr (Code_text code @ ?m)"
    using calculation u assms(4) by (cases code) (simp_all add: Status_ToString_def DecodeFixed32_EncodeFixed32 Let_def)
  ultimately show ?thesis
    using u by (simp add: Status_make_state [OF assms] Status_ok_def Status_copy_def CopyState_def DecodeFixed32_EncodeFixed32)
qed

theorem status_roundtrip_witness:
  "\<exists>s. Status_make kIOError (Slice_string [97]) (Slice_string [98]) = Inr s \<and> \<not> Status_ok s \<and>
    Status_code s = Inr (Code_number kIOError) \<and> Status_copy s = Inr s \<and>
    Status_ToString (\<lambda>_. []) s = Inr (Code_text kIOError @ status_message (Slice_string [97]) (Slice_string [98]))"
  by (rule status_roundtrip) simp_all

end
