(* ===== verification/Files.thy ===== *)
theory Files
  imports Statuses
begin

text \<open>
  \<^verbatim>\<open>WritableFile\<close> (\<^verbatim>\<open>disk/writable_file.h\<close>, \<^verbatim>\<open>disk/writable_file.cc\<close>) and \<^verbatim>\<open>RandomAccessFile\<close>
  (\<^verbatim>\<open>disk/random_access_file.h\<close>, \<^verbatim>\<open>disk/random_access_file.cc\<close>).

  The system calls are parameters, collected in a record of functions over a state of the operating
  system; what the code relies on of them is stated by the predicates \<open>posix_write\<close> and
  \<open>file_content\<close> (in the theory of tables). The field \<open>sys_fuel\<close> bounds the number of calls of
  \<^verbatim>\<open>write\<close> in one loop of the model.
\<close>

datatype write_result = Wrote nat | WriteError nat

record 'w posix =
  sys_write :: "int \<Rightarrow> bytes \<Rightarrow> 'w \<Rightarrow> write_result \<times> 'w"
  sys_pread :: "int \<Rightarrow> nat \<Rightarrow> nat \<Rightarrow> 'w \<Rightarrow> bytes option"
  sys_open_write :: "bytes \<Rightarrow> 'w \<Rightarrow> int \<times> 'w"
  sys_open_read :: "bytes \<Rightarrow> 'w \<Rightarrow> int"
  sys_access :: "bytes \<Rightarrow> 'w \<Rightarrow> bool"
  sys_unlink :: "bytes \<Rightarrow> 'w \<Rightarrow> 'w"
  sys_strerror :: "nat \<Rightarrow> bytes"
  sys_fuel :: nat

text \<open>The values of \<^verbatim>\<open>errno\<close> that the code looks at.\<close>

definition EINTR :: nat where
  "EINTR = 4"

definition ENOENT :: nat where
  "ENOENT = 2"

section \<open>Writing\<close>

definition kWritableFileBuffer :: nat where
  "kWritableFileBuffer = 65536"

record WritableFile =
  wf_dir :: bytes
  wf_filename :: bytes
  wf_fd :: int
  wf_pos :: nat
  wf_buf :: bytes

text \<open>The part of a name before its last slash.\<close>

definition Dirname :: "bytes \<Rightarrow> bytes" where
  "Dirname filename =
     (if 47 \<in> set filename then rev (tl (dropWhile (\<lambda>c. c \<noteq> 47) (rev filename))) else [46])"

text \<open>\<open>junk\<close> is what the buffer holds before its first use.\<close>

definition WritableFile_make :: "int \<Rightarrow> bytes \<Rightarrow> bytes \<Rightarrow> WritableFile" where
  "WritableFile_make fd filename junk =
     \<lparr>wf_dir = Dirname filename, wf_filename = filename, wf_fd = fd, wf_pos = 0, wf_buf = junk\<rparr>"

definition PosixError :: "'w posix \<Rightarrow> bytes \<Rightarrow> nat \<Rightarrow> Status res" where
  "PosixError os context error_number =
     rbind (Slice_cstr (string_data (sys_strerror os error_number))) (\<lambda>msg.
       if error_number = ENOENT then Status_NotFound (Slice_string context) msg
       else Status_IOError (Slice_string context) msg)"

text \<open>The data is the memory behind the pointer, of which the first \<open>n\<close> bytes are to be written.\<close>

fun WriteUnbuffered_loop :: "nat \<Rightarrow> 'w posix \<Rightarrow> WritableFile \<Rightarrow> bytes \<Rightarrow> 'w \<Rightarrow> (Status \<times> 'w) res" where
  "WriteUnbuffered_loop fuel os f data w =
     (if data = [] then Inr (Status_OK, w)
      else case fuel of
        0 \<Rightarrow> Inl Diverged
      | Suc fuel \<Rightarrow>
          (case sys_write os (wf_fd f) data w of
             (WriteError e, w) \<Rightarrow>
               if e = EINTR then WriteUnbuffered_loop fuel os f data w
               else rbind (PosixError os (wf_filename f) e) (\<lambda>s. Inr (s, w))
           | (Wrote n, w) \<Rightarrow> WriteUnbuffered_loop fuel os f (drop n data) w))"

declare WriteUnbuffered_loop.simps [simp del]

definition WriteUnbuffered :: "'w posix \<Rightarrow> WritableFile \<Rightarrow> bytes \<Rightarrow> nat \<Rightarrow> 'w \<Rightarrow> (Status \<times> 'w) res" where
  "WriteUnbuffered os f data n w =
     rbind (read_mem data n) (\<lambda>d. WriteUnbuffered_loop (sys_fuel os) os f d w)"

definition WritableFile_Flush :: "'w posix \<Rightarrow> WritableFile \<Rightarrow> 'w \<Rightarrow> (Status \<times> WritableFile \<times> 'w) res" where
  "WritableFile_Flush os f w =
     rbind (WriteUnbuffered os f (wf_buf f) (wf_pos f) w) (\<lambda>(status, w).
       Inr (status, f\<lparr>wf_pos := 0\<rparr>, w))"

text \<open>The part of \<^verbatim>\<open>Append\<close> behind the copy into the buffer.\<close>

definition Append_rest ::
  "'w posix \<Rightarrow> bytes \<Rightarrow> nat \<Rightarrow> WritableFile \<Rightarrow> 'w \<Rightarrow> (Status \<times> WritableFile \<times> 'w) res" where
  "Append_rest os write_data write_size f w =
     (if write_size = 0 then Inr (Status_OK, f, w)
      else
        rbind (WritableFile_Flush os f w) (\<lambda>(status, f, w).
          if \<not> Status_ok status then Inr (status, f, w)
          else if write_size < kWritableFileBuffer then
            rbind (read_mem write_data write_size) (\<lambda>d.
            rbind (overwrite (wf_buf f) 0 d) (\<lambda>buf.
              Inr (Status_OK, f\<lparr>wf_buf := buf, wf_pos := write_size\<rparr>, w)))
          else
            rbind (WriteUnbuffered os f write_data write_size w) (\<lambda>(status, w). Inr (status, f, w))))"

definition WritableFile_Append ::
  "'w posix \<Rightarrow> slice \<Rightarrow> WritableFile \<Rightarrow> 'w \<Rightarrow> (Status \<times> WritableFile \<times> 'w) res" where
  "WritableFile_Append os content f w =
     (let write_size = sl_size content;
          copy_size = min write_size (size_sub kWritableFileBuffer (wf_pos f)) in
      rbind (read_mem (sl_mem content) copy_size) (\<lambda>d.
      rbind (overwrite (wf_buf f) (wf_pos f) d) (\<lambda>buf.
        Append_rest os (drop copy_size (sl_mem content)) (write_size - copy_size)
          (f\<lparr>wf_buf := buf, wf_pos := wf_pos f + copy_size\<rparr>) w)))"

section \<open>Reading\<close>

record RandomAccessFile =
  rf_fd :: int
  rf_filename :: bytes
  rf_status :: Status

text \<open>
  A file that cannot be opened has descriptor \<open>-1\<close>; the call \<^verbatim>\<open>status_.Corruption(...)\<close> only creates
  a status and drops it, so the status stays \<^verbatim>\<open>OK\<close>.
\<close>

definition RandomAccessFile_make :: "'w posix \<Rightarrow> bytes \<Rightarrow> 'w \<Rightarrow> RandomAccessFile" where
  "RandomAccessFile_make os filename w =
     \<lparr>rf_fd = sys_open_read os filename w, rf_filename = filename, rf_status = Status_OK\<rparr>"

text \<open>\<open>sys_pread\<close> gives the bytes read, \<open>None\<close> for an error, which leaves an empty slice.\<close>

definition RandomAccessFile_Read ::
  "'w posix \<Rightarrow> RandomAccessFile \<Rightarrow> nat \<Rightarrow> nat \<Rightarrow> 'w \<Rightarrow> (Status \<times> slice) res" where
  "RandomAccessFile_Read os f offset n w =
     rbind (assert_that (rf_fd f \<noteq> -1)) (\<lambda>_.
       case sys_pread os (rf_fd f) n offset w of
         None \<Rightarrow> Inr (rf_status f, Slice_buf [] 0)
       | Some d \<Rightarrow> Inr (rf_status f, Slice_buf d (length d)))"

definition RandomAccessFile_status :: "RandomAccessFile \<Rightarrow> Status" where
  "RandomAccessFile_status f = rf_status f"

section \<open>What the code relies on of the system\<close>

text \<open>
  \<open>written w fd\<close> is the sequence of bytes written through a descriptor. A successful \<^verbatim>\<open>write\<close> of a
  nonempty buffer takes a nonempty prefix of it; a failed one writes nothing.
\<close>

definition posix_write :: "'w posix \<Rightarrow> ('w \<Rightarrow> int \<Rightarrow> bytes) \<Rightarrow> bool" where
  "posix_write os written \<longleftrightarrow>
     (\<forall>fd d w. d \<noteq> [] \<longrightarrow>
        (case sys_write os fd d w of
           (Wrote n, w') \<Rightarrow> 0 < n \<and> n \<le> length d \<and> written w' fd = written w fd @ take n d
         | (WriteError e, w') \<Rightarrow> written w' fd = written w fd))"

definition posix_no_interrupt :: "'w posix \<Rightarrow> bool" where
  "posix_no_interrupt os \<longleftrightarrow>
     (\<forall>fd d w e w'. sys_write os fd d w = (WriteError e, w') \<longrightarrow> e \<noteq> EINTR)"

text \<open>Messages that a status can hold.\<close>

definition messages_ok :: "'w posix \<Rightarrow> WritableFile \<Rightarrow> bool" where
  "messages_ok os f \<longleftrightarrow> (\<forall>e. length (wf_filename f) + length (sys_strerror os e) + 7 < 2 ^ 32)"

section \<open>The bytes of a writable file\<close>

definition wf_ok :: "WritableFile \<Rightarrow> bool" where
  "wf_ok f \<longleftrightarrow> length (wf_buf f) = kWritableFileBuffer \<and> wf_pos f \<le> kWritableFileBuffer"

text \<open>What has been written and what waits in the buffer.\<close>

definition stream :: "('w \<Rightarrow> int \<Rightarrow> bytes) \<Rightarrow> WritableFile \<Rightarrow> 'w \<Rightarrow> bytes" where
  "stream written f w = written w (wf_fd f) @ take (wf_pos f) (wf_buf f)"

lemma PosixError_ok:
  assumes "messages_ok os f"
  shows "\<exists>s. PosixError os (wf_filename f) e = Inr s \<and> \<not> Status_ok s"
proof -
  let ?t = "sys_strerror os e"
  define msg where "msg = \<lparr>sl_mem = string_data ?t, sl_size = length (takeWhile (\<lambda>b. b \<noteq> 0) ?t)\<rparr>"
  have l: "length (takeWhile (\<lambda>b. b \<noteq> 0) ?t) \<le> length ?t" by (rule length_takeWhile_le)
  have b: "length (wf_filename f) + length ?t + 7 < 2 ^ 32" using assms by (simp only: messages_ok_def)
  have ok: "slice_ok msg" "slice_ok (Slice_string (wf_filename f))"
    using l b by (simp_all add: msg_def slice_ok_def Slice_string_def string_data_def)
  have sz: "sl_size (Slice_string (wf_filename f)) + sl_size msg + 7 < 2 ^ 32"
    using l b by (simp add: msg_def)
  have m: "Slice_cstr (string_data ?t) = Inr msg" by (simp only: msg_def Slice_cstr_string)
  show ?thesis
    using Status_make_state [OF ok(2,1) sz, of kNotFound] Status_make_state [OF ok(2,1) sz, of kIOError]
    by (simp add: PosixError_def m Status_NotFound_def Status_IOError_def Status_ok_def)
qed

lemma PosixError_not_ok: "PosixError os name e = Inr s \<Longrightarrow> \<not> Status_ok s"
  by (auto simp: PosixError_def Status_NotFound_def Status_IOError_def Status_make_def Let_def Status_ok_def split: if_splits)

lemma Status_OK_ok [simp]: "Status_ok Status_OK"
  by (simp add: Status_ok_def Status_OK_def)

lemma posix_write_Wrote:
  assumes "posix_write os written" "d \<noteq> []" "sys_write os fd d w = (Wrote n, w')"
  shows "0 < n" "n \<le> length d" "written w' fd = written w fd @ take n d"
  using assms(1) [unfolded posix_write_def, rule_format, OF assms(2), of fd w] assms(3) by simp_all

lemma posix_write_Error:
  assumes "posix_write os written" "d \<noteq> []" "sys_write os fd d w = (WriteError e, w')"
  shows "written w' fd = written w fd"
  using assms(1) [unfolded posix_write_def, rule_format, OF assms(2), of fd w] assms(3) by simp

text \<open>
  Whatever the loop does, the bytes written are a prefix of the data, and all of it exactly if it
  reports success.
\<close>

lemma WriteUnbuffered_loop_prefix:
  assumes "posix_write os written"
  shows "WriteUnbuffered_loop fuel os f data w = Inr (s, w') \<Longrightarrow>
    \<exists>d r. data = d @ r \<and> written w' (wf_fd f) = written w (wf_fd f) @ d \<and> (Status_ok s \<longleftrightarrow> r = [])"
proof (induction fuel arbitrary: data w)
  case 0
  then show ?case by (auto simp: WriteUnbuffered_loop.simps [of 0] split: if_splits)
next
  case (Suc fuel)
  show ?case
  proof (cases "data = []")
    case True
    then show ?thesis using Suc.prems by (auto simp: WriteUnbuffered_loop.simps [of "Suc fuel"])
  next
    case False
    obtain r w1 where r: "sys_write os (wf_fd f) data w = (r, w1)" by fastforce
    show ?thesis
    proof (cases r)
      case (Wrote n)
      have "WriteUnbuffered_loop fuel os f (drop n data) w1 = Inr (s, w')"
        using Suc.prems False r Wrote by (simp add: WriteUnbuffered_loop.simps [of "Suc fuel"])
      from Suc.IH [OF this] obtain d r' where "drop n data = d @ r'"
        "written w' (wf_fd f) = written w1 (wf_fd f) @ d" "Status_ok s \<longleftrightarrow> r' = []" by blast
      moreover have "data = (take n data @ d) @ r'" using calculation(1) by (metis append.assoc append_take_drop_id)
      moreover have "written w1 (wf_fd f) = written w (wf_fd f) @ take n data"
        using posix_write_Wrote [OF assms False] r Wrote by simp
      ultimately show ?thesis by (intro exI [of _ "take n data @ d"] exI [of _ r']) simp
    next
      case (WriteError e)
      then have w1: "written w1 (wf_fd f) = written w (wf_fd f)"
        using posix_write_Error [OF assms False] r by simp
      show ?thesis
      proof (cases "e = EINTR")
        case True
        then have "WriteUnbuffered_loop fuel os f data w1 = Inr (s, w')"
          using Suc.prems False r WriteError by (simp add: WriteUnbuffered_loop.simps [of "Suc fuel"])
        then show ?thesis using Suc.IH [of data w1] w1 by simp
      next
        case e: False
        then have "PosixError os (wf_filename f) e = Inr s" "w' = w1"
          using Suc.prems False r WriteError by (auto simp: WriteUnbuffered_loop.simps [of "Suc fuel"])
        then show ?thesis using w1 False PosixError_not_ok by fastforce
      qed
    qed
  qed
qed

text \<open>Without interrupts, as many calls as there are bytes are enough.\<close>

lemma WriteUnbuffered_loop_returns:
  assumes "posix_write os written" "posix_no_interrupt os" "messages_ok os f"
  shows "length data \<le> fuel \<Longrightarrow> \<exists>s w'. WriteUnbuffered_loop fuel os f data w = Inr (s, w')"
proof (induction fuel arbitrary: data w)
  case 0
  then show ?case by (simp add: WriteUnbuffered_loop.simps [of 0])
next
  case (Suc fuel)
  show ?case
  proof (cases "data = []")
    case False
    obtain r w1 where r: "sys_write os (wf_fd f) data w = (r, w1)" by fastforce
    show ?thesis
    proof (cases r)
      case (Wrote n)
      then have "0 < n" using posix_write_Wrote(1) [OF assms(1) False] r by simp
      then have "length (drop n data) \<le> fuel" using Suc.prems by simp
      then show ?thesis using Suc.IH [of "drop n data" w1] False r Wrote by (simp add: WriteUnbuffered_loop.simps [of "Suc fuel"])
    next
      case (WriteError e)
      then have "e \<noteq> EINTR" using assms(2) r unfolding posix_no_interrupt_def by blast
      then show ?thesis using False r WriteError PosixError_ok [OF assms(3), of e]
        by (auto simp: WriteUnbuffered_loop.simps [of "Suc fuel"])
    qed
  qed (simp add: WriteUnbuffered_loop.simps [of "Suc fuel"])
qed

section \<open>Appending and flushing\<close>

lemma overwrite_buf:
  assumes "length buf = n" "p + length d \<le> n"
  shows "\<exists>buf'. overwrite buf p d = Inr buf' \<and> length buf' = n \<and> take (p + length d) buf' = take p buf @ d"
proof -
  have "length (take p buf) = p" using assms by simp
  then show ?thesis using assms by (auto simp: overwrite_def)
qed

text \<open>The system calls the code relies on, with enough fuel for writes of \<open>n\<close> bytes.\<close>

definition io_ok :: "'w posix \<Rightarrow> ('w \<Rightarrow> int \<Rightarrow> bytes) \<Rightarrow> bytes \<Rightarrow> nat \<Rightarrow> bool" where
  "io_ok os written name n \<longleftrightarrow>
     posix_write os written \<and> posix_no_interrupt os \<and> kWritableFileBuffer \<le> sys_fuel os \<and> n \<le> sys_fuel os \<and>
     (\<forall>e. length name + length (sys_strerror os e) + 7 < 2 ^ 32)"

lemma io_okD:
  assumes "io_ok os written (wf_filename f) n"
  shows "posix_write os written" "posix_no_interrupt os" "messages_ok os f" "kWritableFileBuffer \<le> sys_fuel os" "n \<le> sys_fuel os"
  using assms by (simp_all add: io_ok_def messages_ok_def)

text \<open>What an operation on the file leaves behind: the file's bytes are \<open>new\<close> if it reports success.\<close>

definition wf_after ::
  "('w \<Rightarrow> int \<Rightarrow> bytes) \<Rightarrow> WritableFile \<Rightarrow> bytes \<Rightarrow> Status \<times> WritableFile \<times> 'w \<Rightarrow> bool" where
  "wf_after written f new r \<longleftrightarrow>
     (case r of (s, f', w') \<Rightarrow> wf_ok f' \<and> wf_fd f' = wf_fd f \<and> wf_filename f' = wf_filename f \<and>
        (Status_ok s \<longrightarrow> stream written f' w' = new))"

lemma Flush_stream:
  assumes os: "posix_write os written" and f: "wf_ok f" and run: "WritableFile_Flush os f w = Inr (s, f', w')"
  shows "f' = f\<lparr>wf_pos := 0\<rparr>" "wf_after written f (stream written f w) (s, f', w')"
proof -
  have loop: "WriteUnbuffered_loop (sys_fuel os) os f (take (wf_pos f) (wf_buf f)) w = Inr (s, w')" and f': "f' = f\<lparr>wf_pos := 0\<rparr>"
    using run f by (auto simp: WritableFile_Flush_def WriteUnbuffered_def wf_ok_def)
  show "f' = f\<lparr>wf_pos := 0\<rparr>" by (rule f')
  show "wf_after written f (stream written f w) (s, f', w')"
    using WriteUnbuffered_loop_prefix [OF os loop] f f' by (auto simp: wf_after_def wf_ok_def stream_def)
qed

lemma Flush_returns:
  assumes "io_ok os written (wf_filename f) n" "wf_ok f"
  shows "\<exists>s f' w'. WritableFile_Flush os f w = Inr (s, f', w')"
proof -
  have "length (take (wf_pos f) (wf_buf f)) \<le> sys_fuel os" using io_okD(4) [OF assms(1)] assms(2) by (simp add: wf_ok_def)
  from WriteUnbuffered_loop_returns [OF io_okD(1-3) [OF assms(1)] this, of w] show ?thesis
    using assms(2) by (auto simp: WritableFile_Flush_def WriteUnbuffered_def wf_ok_def)
qed

lemma Append_rest_stream:
  assumes os: "posix_write os written" and f: "wf_ok f" and n: "n \<le> length data"
    and run: "Append_rest os data n f w = Inr (s, f', w')"
  shows "wf_after written f (stream written f w @ take n data) (s, f', w')"
proof (cases "n = 0")
  case True
  then show ?thesis using run f by (simp add: Append_rest_def wf_after_def)
next
  case False
  obtain s2 f2 w2 where fl: "WritableFile_Flush os f w = Inr (s2, f2, w2)"
    and run2: "(if \<not> Status_ok s2 then Inr (s2, f2, w2)
       else if n < kWritableFileBuffer
            then rbind (read_mem data n) (\<lambda>d. rbind (overwrite (wf_buf f2) 0 d)
              (\<lambda>buf. Inr (Status_OK, f2\<lparr>wf_buf := buf, wf_pos := n\<rparr>, w2)))
            else rbind (WriteUnbuffered os f2 data n w2) (\<lambda>(status, w). Inr (status, f2, w))) = Inr (s, f', w')"
    using run False n by (auto simp: Append_rest_def)
  note f2 = Flush_stream [OF os f fl]
  have pos: "wf_pos f2 = 0" "length (wf_buf f2) = kWritableFileBuffer" using f2(1) f by (simp_all add: wf_ok_def)
  consider (err) "\<not> Status_ok s2" | (small) "Status_ok s2" "n < kWritableFileBuffer"
    | (large) "Status_ok s2" "\<not> n < kWritableFileBuffer" by blast
  then show ?thesis
  proof cases
    case err
    then show ?thesis using run2 f2(2) by (auto simp: wf_after_def)
  next
    case small
    obtain b2 where b2: "overwrite (wf_buf f2) 0 (take n data) = Inr b2" "length b2 = kWritableFileBuffer" "take n b2 = take n data"
      using overwrite_buf [OF pos(2), of 0 "take n data"] small(2) n by auto
    then have "s = Status_OK" "f' = f2\<lparr>wf_buf := b2, wf_pos := n\<rparr>" "w' = w2" using run2 small n by auto
    then show ?thesis using small f2 pos b2 by (simp add: wf_after_def wf_ok_def stream_def)
  next
    case large
    then have loop: "WriteUnbuffered_loop (sys_fuel os) os f2 (take n data) w2 = Inr (s, w')" "f' = f2"
      using run2 n by (auto simp: WriteUnbuffered_def)
    from WriteUnbuffered_loop_prefix [OF os loop(1)] show ?thesis
      using large f2 loop(2) pos by (auto simp: wf_after_def stream_def)
  qed
qed

lemma Append_rest_returns:
  assumes io: "io_ok os written (wf_filename f) m" "n \<le> m" and f: "wf_ok f" and n: "n \<le> length data"
  shows "\<exists>s f' w'. Append_rest os data n f w = Inr (s, f', w')"
proof -
  obtain s2 f2 w2 where fl: "WritableFile_Flush os f w = Inr (s2, f2, w2)"
    using Flush_returns [OF io(1) f] by blast
  then have f2: "f2 = f\<lparr>wf_pos := 0\<rparr>" by (rule Flush_stream(1) [OF io_okD(1) [OF io(1)] f])
  have "\<exists>b. overwrite (wf_buf f2) 0 (take n data) = Inr b" if "n < kWritableFileBuffer"
    using that f f2 n by (simp add: overwrite_def wf_ok_def)
  moreover have "messages_ok os f2" using io_okD(3) [OF io(1)] by (simp add: f2 messages_ok_def)
  then have "\<exists>s w'. WriteUnbuffered os f2 data n w2 = Inr (s, w')"
    using WriteUnbuffered_loop_returns [OF io_okD(1,2) [OF io(1)], of f2 "take n data" "sys_fuel os" w2] io_okD(5) [OF io(1)] io(2) n
    by (auto simp: WriteUnbuffered_def)
  ultimately show ?thesis using fl n by (auto simp: Append_rest_def)
qed

lemma Append_copy:
  assumes f: "wf_ok f" and c: "slice_ok c"
  obtains n f1 where "WritableFile_Append os c f w = Append_rest os (drop n (sl_mem c)) (sl_size c - n) f1 w"
    "n \<le> sl_size c" "wf_ok f1" "wf_fd f1 = wf_fd f" "wf_filename f1 = wf_filename f"
    "stream written f1 w = stream written f w @ take n (sl_mem c)"
proof -
  define n where "n = min (sl_size c) (kWritableFileBuffer - wf_pos f)"
  have pos: "wf_pos f \<le> kWritableFileBuffer" "length (wf_buf f) = kWritableFileBuffer" using f by (simp_all add: wf_ok_def)
  have n: "min (sl_size c) (size_sub kWritableFileBuffer (wf_pos f)) = n" "n \<le> sl_size c" "wf_pos f + n \<le> kWritableFileBuffer"
    using pos by (simp_all add: n_def kWritableFileBuffer_def)
  have cl: "n \<le> length (sl_mem c)" using c n by auto
  obtain buf where buf: "overwrite (wf_buf f) (wf_pos f) (take n (sl_mem c)) = Inr buf" "length buf = kWritableFileBuffer"
    "take (wf_pos f + n) buf = take (wf_pos f) (wf_buf f) @ take n (sl_mem c)"
    using overwrite_buf [OF pos(2), of "wf_pos f" "take n (sl_mem c)"] n cl by auto
  show thesis
  proof (rule that)
    show "WritableFile_Append os c f w = Append_rest os (drop n (sl_mem c)) (sl_size c - n) (f\<lparr>wf_buf := buf, wf_pos := wf_pos f + n\<rparr>) w"
      unfolding WritableFile_Append_def Let_def n using cl buf by simp
  qed (use buf n in \<open>simp_all add: wf_ok_def stream_def\<close>)
qed

lemma Append_stream:
  assumes os: "posix_write os written" and f: "wf_ok f" and c: "slice_ok c"
    and run: "WritableFile_Append os c f w = Inr (s, f', w')"
  shows "wf_after written f (stream written f w @ slice_content c) (s, f', w')"
proof -
  obtain n f1 where f1: "WritableFile_Append os c f w = Append_rest os (drop n (sl_mem c)) (sl_size c - n) f1 w"
    "n \<le> sl_size c" "wf_ok f1" "wf_fd f1 = wf_fd f" "wf_filename f1 = wf_filename f"
    "stream written f1 w = stream written f w @ take n (sl_mem c)"
    by (rule Append_copy [OF f c, of os w written])
  have "take n (sl_mem c) @ take (sl_size c - n) (drop n (sl_mem c)) = slice_content c"
    using f1(2) by (metis le_add_diff_inverse slice_content_def take_add)
  moreover have "sl_size c - n \<le> length (drop n (sl_mem c))" using c f1(2) by auto
  ultimately show ?thesis
    using Append_rest_stream [OF os f1(3), of "sl_size c - n" "drop n (sl_mem c)" w s f' w'] run f1
    by (auto simp: wf_after_def)
qed

lemma Append_returns:
  assumes "io_ok os written (wf_filename f) m" "sl_size c \<le> m" and f: "wf_ok f" and c: "slice_ok c"
  shows "\<exists>s f' w'. WritableFile_Append os c f w = Inr (s, f', w')"
proof -
  obtain n f1 where f1: "WritableFile_Append os c f w = Append_rest os (drop n (sl_mem c)) (sl_size c - n) f1 w"
    "n \<le> sl_size c" "wf_ok f1" "wf_filename f1 = wf_filename f"
    by (rule Append_copy [OF f c, of os w written])
  have "sl_size c - n \<le> length (drop n (sl_mem c))" using c f1(2) by auto
  then show ?thesis
    using Append_rest_returns [of os written f1 m "sl_size c - n" "drop n (sl_mem c)" w] assms f1 by auto
qed

section \<open>Properties\<close>

text \<open>A system with one file that takes at most three bytes with each \<^verbatim>\<open>write\<close>.\<close>

definition slow_os :: "bytes posix" where
  "slow_os = \<lparr>sys_write = (\<lambda>fd d w. (Wrote (min 3 (length d)), w @ take 3 d)), sys_pread = (\<lambda>fd n off w. Some (take n (drop off w))),
     sys_open_write = (\<lambda>name w. (3, w)), sys_open_read = (\<lambda>name w. 3), sys_access = (\<lambda>name w. w \<noteq> []),
     sys_unlink = (\<lambda>name w. []),
     sys_strerror = (\<lambda>e. []), sys_fuel = kWritableFileBuffer\<rparr>"

lemma slow_os_ok:
  assumes "length name + 7 < 2 ^ 32" "n \<le> kWritableFileBuffer"
  shows "io_ok slow_os (\<lambda>w fd. w) name n"
  using assms by (auto simp: io_ok_def slow_os_def posix_write_def posix_no_interrupt_def min_def)

text \<open>C35: \<^verbatim>\<open>WritableFile::Append\<close> returns, for contents of any size and partial writes by the system; if it
  reports success the content is behind everything appended before, part of it on disk and part
  in the buffer; a following \<^verbatim>\<open>Flush\<close> that succeeds has written all of it, in order and nothing else.\<close>

theorem writable_file_stream:
  assumes io: "io_ok os written (wf_filename f) m" "sl_size c \<le> m" and f: "wf_ok f" and c: "slice_ok c"
  shows "\<exists>s f' w'. WritableFile_Append os c f w = Inr (s, f', w') \<and> wf_ok f' \<and>
    (Status_ok s \<longrightarrow> stream written f' w' = stream written f w @ slice_content c) \<and>
    (\<exists>s2 f2 w2. WritableFile_Flush os f' w' = Inr (s2, f2, w2) \<and> wf_pos f2 = 0 \<and>
      (Status_ok s \<and> Status_ok s2 \<longrightarrow> written w2 (wf_fd f) = stream written f w @ slice_content c))"
proof -
  obtain s f' w' where ap: "WritableFile_Append os c f w = Inr (s, f', w')"
    using Append_returns [OF io f c] by blast
  note st = Append_stream [OF io_okD(1) [OF io(1)] f c ap]
  then have f': "wf_ok f'" "wf_fd f' = wf_fd f" "wf_filename f' = wf_filename f" by (simp_all add: wf_after_def)
  obtain s2 f2 w2 where fl: "WritableFile_Flush os f' w' = Inr (s2, f2, w2)"
    using Flush_returns [of os written f' m w'] io(1) f' by auto
  note fs = Flush_stream [OF io_okD(1) [OF io(1)] f'(1) fl]
  have "wf_pos f2 = 0" using fs(1) by simp
  moreover have "written w2 (wf_fd f) = stream written f2 w2" using fs(1) f'(2) by (simp add: stream_def)
  ultimately show ?thesis
    using ap fl st fs(2) by (auto simp: wf_after_def)
qed

theorem writable_file_stream_witness:
  "let f = WritableFile_make 3 [109] (replicate kWritableFileBuffer 0) in
   \<exists>s f' w'. WritableFile_Append slow_os (Slice_string [1, 2, 3, 4]) f [] = Inr (s, f', w') \<and> wf_ok f' \<and>
    (Status_ok s \<longrightarrow> stream (\<lambda>w fd. w) f' w' = stream (\<lambda>w fd. w) f [] @ slice_content (Slice_string [1, 2, 3, 4])) \<and>
    (\<exists>s2 f2 w2. WritableFile_Flush slow_os f' w' = Inr (s2, f2, w2) \<and> wf_pos f2 = 0 \<and>
      (Status_ok s \<and> Status_ok s2 \<longrightarrow> w2 = stream (\<lambda>w fd. w) f [] @ slice_content (Slice_string [1, 2, 3, 4])))"
  unfolding Let_def
  by (rule writable_file_stream [of slow_os "\<lambda>w fd. w" _ 4])
     (simp_all add: slow_os_ok WritableFile_make_def wf_ok_def kWritableFileBuffer_def)

end
