(* ===== verification/SkipLists.thy ===== *)
theory SkipLists
  imports KPrelude
begin

text \<open>
  \<^verbatim>\<open>SkipList\<close> (\<^verbatim>\<open>memory/skiplist.h\<close>). The nodes live in a heap, the list \<open>sk_nodes\<close>:
  the address of a node is its index and \<^verbatim>\<open>new\<close> appends. The head node is at
  address 0. The random height of a new node comes from \<^verbatim>\<open>rand()\<close>, a parameter
  that steps a generator state.

  The two loops over the nodes carry fuel; the theorems show that the fuel the
  operations pass is enough on every well-formed list. The lemmas are proved
  for any comparator that meets the contract of the locale \<open>comparator\<close>.
\<close>

definition kSkipListNodeMaxLevel :: nat where
  "kSkipListNodeMaxLevel = 20"

record 'k node =
  nd_key :: "'k option"
  nd_level :: nat
  nd_next :: "nat option list"

record 'k skiplist =
  sk_nodes :: "'k node list"

section \<open>Heights and nodes\<close>

function RandomHeight_loop :: "('r \<Rightarrow> nat \<times> 'r) \<Rightarrow> 'r \<Rightarrow> nat \<Rightarrow> nat \<times> 'r" where
  "RandomHeight_loop rand r height =
     (if height < kSkipListNodeMaxLevel then
        (let (x, r') = rand r in
         if x mod 2 = 0 then RandomHeight_loop rand r' (height + 1) else (height, r'))
      else (height, r))"
  by pat_completeness auto
termination
  by (relation "measure (\<lambda>(rand, r, height). kSkipListNodeMaxLevel - height)") auto

declare RandomHeight_loop.simps [simp del]

definition RandomHeight :: "('r \<Rightarrow> nat \<times> 'r) \<Rightarrow> 'r \<Rightarrow> nat \<times> 'r" where
  "RandomHeight rand r = RandomHeight_loop rand r 1"

definition Node_make :: "'k \<Rightarrow> nat \<Rightarrow> 'k node" where
  "Node_make memtable_key level =
     \<lparr>nd_key = Some memtable_key, nd_level = level, nd_next = replicate level None\<rparr>"

definition Node_dummy :: "nat \<Rightarrow> 'k node" where
  "Node_dummy level = \<lparr>nd_key = None, nd_level = level, nd_next = replicate level None\<rparr>"

definition Node_Key :: "'k skiplist \<Rightarrow> nat \<Rightarrow> 'k res" where
  "Node_Key sl p =
     (if p < length (sk_nodes sl)
      then (case nd_key (sk_nodes sl ! p) of None \<Rightarrow> Inl OutOfBounds | Some k \<Rightarrow> Inr k)
      else Inl OutOfBounds)"

definition get_n_node :: "'k skiplist \<Rightarrow> nat \<Rightarrow> nat \<Rightarrow> nat option res" where
  "get_n_node sl p n =
     (if p < length (sk_nodes sl) then
        let nd = sk_nodes sl ! p in
        rbind (assert_that (n < nd_level nd)) (\<lambda>_.
          if n < length (nd_next nd) then Inr (nd_next nd ! n) else Inl OutOfBounds)
      else Inl OutOfBounds)"

definition set_n_node :: "'k skiplist \<Rightarrow> nat \<Rightarrow> nat \<Rightarrow> nat option \<Rightarrow> 'k skiplist res" where
  "set_n_node sl p n q =
     (if p < length (sk_nodes sl) then
        let nd = sk_nodes sl ! p in
        rbind (assert_that (n < nd_level nd)) (\<lambda>_.
          if n < length (nd_next nd)
          then Inr (sl\<lparr>sk_nodes := (sk_nodes sl)[p := nd\<lparr>nd_next := (nd_next nd)[n := q]\<rparr>]\<rparr>)
          else Inl OutOfBounds)
      else Inl OutOfBounds)"

section \<open>Operations\<close>

definition SkipList_make :: "'k skiplist" where
  "SkipList_make = \<lparr>sk_nodes = [Node_dummy kSkipListNodeMaxLevel]\<rparr>"

text \<open>
  The loop of \<^verbatim>\<open>Insert\<close>; \<^verbatim>\<open>cur_level + 1\<close> is the last argument but one, so that 0 is the
  loop's exit at \<^verbatim>\<open>cur_level = -1\<close>.
\<close>

fun Insert_loop ::
  "nat \<Rightarrow> ('k \<Rightarrow> 'k \<Rightarrow> int res) \<Rightarrow> 'k \<Rightarrow> nat \<Rightarrow> nat \<Rightarrow> nat \<Rightarrow> 'k skiplist \<Rightarrow> 'k skiplist res" where
  "Insert_loop fuel cmp memtable_key new_node ptr 0 sl = Inr sl"
| "Insert_loop 0 cmp memtable_key new_node ptr (Suc cur_level) sl = Inl Diverged"
| "Insert_loop (Suc fuel) cmp memtable_key new_node ptr (Suc cur_level) sl =
     rbind (get_n_node sl ptr cur_level) (\<lambda>next_ptr.
     rbind (case next_ptr of
              None \<Rightarrow> Inr False
            | Some q \<Rightarrow> rbind (Node_Key sl q) (\<lambda>k. rbind (cmp k memtable_key) (\<lambda>c. Inr (c < 0))))
       (\<lambda>adv.
        if adv then Insert_loop fuel cmp memtable_key new_node (the next_ptr) (Suc cur_level) sl
        else rbind (set_n_node sl ptr cur_level (Some new_node)) (\<lambda>sl.
             rbind (set_n_node sl new_node cur_level next_ptr) (\<lambda>sl.
               Insert_loop fuel cmp memtable_key new_node ptr cur_level sl))))"

definition SkipList_Insert_at ::
  "('k \<Rightarrow> 'k \<Rightarrow> int res) \<Rightarrow> nat \<Rightarrow> 'k \<Rightarrow> 'k skiplist \<Rightarrow> 'k skiplist res" where
  "SkipList_Insert_at cmp level memtable_key sl =
     (let new_node = length (sk_nodes sl);
          sl' = sl\<lparr>sk_nodes := sk_nodes sl @ [Node_make memtable_key level]\<rparr>
      in Insert_loop (length (sk_nodes sl') + level) cmp memtable_key new_node 0 level sl')"

definition SkipList_Insert ::
  "('r \<Rightarrow> nat \<times> 'r) \<Rightarrow> ('k \<Rightarrow> 'k \<Rightarrow> int res) \<Rightarrow> 'k \<Rightarrow> 'r \<Rightarrow> 'k skiplist \<Rightarrow> ('r \<times> 'k skiplist) res" where
  "SkipList_Insert rand cmp memtable_key r sl =
     (let (level, r') = RandomHeight rand r in
      rbind (SkipList_Insert_at cmp level memtable_key sl) (\<lambda>sl'. Inr (r', sl')))"

text \<open>\<open>None\<close> is the result \<^verbatim>\<open>false\<close>.\<close>

fun Find_loop ::
  "nat \<Rightarrow> ('k \<Rightarrow> 'k \<Rightarrow> int res) \<Rightarrow> 'k \<Rightarrow> nat \<Rightarrow> nat \<Rightarrow> 'k skiplist \<Rightarrow> 'k option res" where
  "Find_loop 0 cmp memtable_key ptr cur_level sl = Inl Diverged"
| "Find_loop (Suc fuel) cmp memtable_key ptr cur_level sl =
     rbind (get_n_node sl ptr cur_level) (\<lambda>next_ptr. case next_ptr of
       Some q \<Rightarrow>
         rbind (Node_Key sl q) (\<lambda>k.
         rbind (cmp k memtable_key) (\<lambda>c.
           if c < 0 then Find_loop fuel cmp memtable_key q cur_level sl
           else rbind (cmp k memtable_key) (\<lambda>c.
             if c = 0 then Inr (Some k)
             else if cur_level = 0 then Inr (Some k)
             else Find_loop fuel cmp memtable_key ptr (cur_level - 1) sl)))
     | None \<Rightarrow>
         if cur_level = 0 then Inr None
         else Find_loop fuel cmp memtable_key ptr (cur_level - 1) sl)"

definition FindFirstGreaterOrEqual ::
  "('k \<Rightarrow> 'k \<Rightarrow> int res) \<Rightarrow> 'k \<Rightarrow> 'k skiplist \<Rightarrow> 'k option res" where
  "FindFirstGreaterOrEqual cmp memtable_key sl =
     Find_loop (length (sk_nodes sl) + kSkipListNodeMaxLevel) cmp memtable_key 0
       (kSkipListNodeMaxLevel - 1) sl"

text \<open>The iterator walks the bottom level; its state is the current node.\<close>

definition SkipList_Iterator_make :: "'k skiplist \<Rightarrow> nat option res" where
  "SkipList_Iterator_make sl = get_n_node sl 0 0"

definition SkipList_Iterator_Valid :: "nat option \<Rightarrow> bool" where
  "SkipList_Iterator_Valid node \<longleftrightarrow> node \<noteq> None"

definition SkipList_Iterator_Key :: "'k skiplist \<Rightarrow> nat option \<Rightarrow> 'k res" where
  "SkipList_Iterator_Key sl node = (case node of None \<Rightarrow> Inl NullDeref | Some p \<Rightarrow> Node_Key sl p)"

definition SkipList_Iterator_Next :: "'k skiplist \<Rightarrow> nat option \<Rightarrow> nat option res" where
  "SkipList_Iterator_Next sl node = (case node of None \<Rightarrow> Inl NullDeref | Some p \<Rightarrow> get_n_node sl p 0)"

section \<open>The shape of a skip list\<close>

abbreviation lvl :: "'k skiplist \<Rightarrow> nat \<Rightarrow> nat" where
  "lvl sl a \<equiv> nd_level (sk_nodes sl ! a)"

abbreviation nxt :: "'k skiplist \<Rightarrow> nat \<Rightarrow> nat option list" where
  "nxt sl a \<equiv> nd_next (sk_nodes sl ! a)"

abbreviation key_at :: "'k skiplist \<Rightarrow> nat \<Rightarrow> 'k" where
  "key_at sl a \<equiv> the (nd_key (sk_nodes sl ! a))"

text \<open>The part of a list after the first occurrence of an element.\<close>

definition after :: "'a \<Rightarrow> 'a list \<Rightarrow> 'a list" where
  "after p xs = tl (dropWhile (\<lambda>a. a \<noteq> p) xs)"

lemma after_split [simp]: "p \<notin> set ys \<Longrightarrow> after p (ys @ p # zs) = zs"
  by (induction ys) (auto simp: after_def)

lemma after_append: "p \<in> set ys \<Longrightarrow> after p (ys @ zs) = after p ys @ zs"
  by (induction ys) (auto simp: after_def)

lemma after_append_notin: "p \<notin> set ys \<Longrightarrow> after p (ys @ zs) = after p zs"
  by (induction ys) (auto simp: after_def)

lemma after_insert:
  assumes "p \<noteq> n"
  shows "after p (x # A @ n # B) = after p (x # A) @ n # B \<and> after p (x # A @ B) = after p (x # A) @ B \<or>
    after p (x # A @ n # B) = after p B \<and> after p (x # A @ B) = after p B"
proof (cases "p \<in> set (x # A)")
  case True
  then show ?thesis using after_append [of p "x # A"] by simp
next
  case False
  then show ?thesis using assms after_append_notin [of p "x # A"] by (auto simp: after_def)
qed

lemma after_sub: "set (after p xs) \<subseteq> set xs"
  by (induction xs) (auto simp: after_def)

lemma length_after: "p \<in> set xs \<Longrightarrow> length (after p xs) < length xs"
  by (induction xs) (auto simp: after_def)

text \<open>
  The addresses in the order of the bottom level are \<open>xs\<close>. Every node is allocated and
  has as many successor slots as its level says, and slot \<open>i\<close> points to the next
  node in \<open>xs\<close> that is higher than \<open>i\<close>.
\<close>

definition sk_shape :: "'k skiplist \<Rightarrow> nat list \<Rightarrow> bool" where
  "sk_shape sl xs \<longleftrightarrow>
     distinct (0 # xs) \<and>
     (\<forall>a\<in>set (0 # xs). a < length (sk_nodes sl) \<and> length (nxt sl a) = lvl sl a) \<and>
     lvl sl 0 = kSkipListNodeMaxLevel \<and>
     (\<forall>a\<in>set xs. 1 \<le> lvl sl a \<and> lvl sl a \<le> kSkipListNodeMaxLevel \<and> nd_key (sk_nodes sl ! a) \<noteq> None)"

definition sk_linked :: "'k skiplist \<Rightarrow> nat list \<Rightarrow> bool" where
  "sk_linked sl xs \<longleftrightarrow>
     (\<forall>p\<in>set (0 # xs). \<forall>i<lvl sl p.
        nxt sl p ! i = List.find (\<lambda>a. i < lvl sl a) (after p (0 # xs)))"

definition sk_sorted :: "('k \<Rightarrow> bool) \<Rightarrow> ('k \<Rightarrow> 'o::linorder) \<Rightarrow> 'k skiplist \<Rightarrow> nat list \<Rightarrow> bool" where
  "sk_sorted valid rank sl xs \<longleftrightarrow>
     (\<forall>a\<in>set xs. valid (key_at sl a)) \<and> sorted (map (\<lambda>a. rank (key_at sl a)) xs)"

definition sk_inv :: "('k \<Rightarrow> bool) \<Rightarrow> ('k \<Rightarrow> 'o::linorder) \<Rightarrow> 'k skiplist \<Rightarrow> nat list \<Rightarrow> bool" where
  "sk_inv valid rank sl xs \<longleftrightarrow> sk_shape sl xs \<and> sk_linked sl xs \<and> sk_sorted valid rank sl xs"

lemma get_n_node_shape:
  "sk_shape sl xs \<Longrightarrow> p \<in> set (0 # xs) \<Longrightarrow> i < lvl sl p \<Longrightarrow> get_n_node sl p i = Inr (nxt sl p ! i)"
  by (auto simp: sk_shape_def get_n_node_def Let_def)

lemma Node_Key_shape: "sk_shape sl xs \<Longrightarrow> a \<in> set xs \<Longrightarrow> Node_Key sl a = Inr (key_at sl a)"
  by (auto simp: sk_shape_def Node_Key_def)

lemma find_split:
  "List.find P zs = Some q \<Longrightarrow> \<exists>zs1 zs2. zs = zs1 @ q # zs2 \<and> (\<forall>a\<in>set zs1. \<not> P a) \<and> P q"
proof (induction zs)
  case (Cons a zs)
  show ?case
  proof (cases "P a")
    case True
    with Cons.prems show ?thesis by (intro exI [of _ "[]"] exI [of _ zs]) simp
  next
    case False
    with Cons obtain zs1 zs2 where "zs = zs1 @ q # zs2" "\<forall>a\<in>set zs1. \<not> P a" "P q" by auto
    with False show ?thesis by (intro exI [of _ "a # zs1"] exI [of _ zs2]) simp
  qed
qed simp

lemma find_SomeD: "List.find P xs = Some a \<Longrightarrow> a \<in> set xs \<and> P a"
  by (induction xs) (auto split: if_splits)

text \<open>
  What \<^verbatim>\<open>FindFirstGreaterOrEqual\<close> may return for the rank \<open>t\<close>: the key of the first node
  whose rank is not below \<open>t\<close>, or another key of the same rank.
\<close>

definition found :: "('k \<Rightarrow> 'o::linorder) \<Rightarrow> 'k skiplist \<Rightarrow> nat list \<Rightarrow> 'o \<Rightarrow> 'k option \<Rightarrow> bool" where
  "found rank sl zs t r =
     (case List.find (\<lambda>a. \<not> rank (key_at sl a) < t) zs of
        None \<Rightarrow> r = None
      | Some a \<Rightarrow> \<exists>b\<in>set zs. r = Some (key_at sl b) \<and> rank (key_at sl b) = rank (key_at sl a))"

lemma found_skip:
  assumes "\<forall>a\<in>set (zs1 @ [q]). rank (key_at sl a) < t" "found rank sl zs2 t r"
  shows "found rank sl (zs1 @ q # zs2) t r"
proof -
  have "List.find (\<lambda>a. \<not> rank (key_at sl a) < t) (zs1 @ [q]) = None"
    using assms(1) by (auto simp: find_None_iff)
  then have "List.find (\<lambda>a. \<not> rank (key_at sl a) < t) (zs1 @ q # zs2) =
      List.find (\<lambda>a. \<not> rank (key_at sl a) < t) zs2"
    using find_append [of _ "zs1 @ [q]" zs2] by simp
  then show ?thesis using assms(2) by (auto simp: found_def split: option.splits)
qed

lemma found_equal:
  assumes "\<forall>a\<in>set zs1. rank (key_at sl a) \<le> rank (key_at sl q)" and q: "rank (key_at sl q) = t"
  shows "found rank sl (zs1 @ q # zs2) t (Some (key_at sl q))"
proof -
  obtain a where a: "List.find (\<lambda>a. \<not> rank (key_at sl a) < t) (zs1 @ [q]) = Some a"
    using q by (cases "List.find (\<lambda>a. \<not> rank (key_at sl a) < t) (zs1 @ [q])") (auto simp: find_None_iff)
  then have "List.find (\<lambda>a. \<not> rank (key_at sl a) < t) (zs1 @ q # zs2) = Some a"
    using find_append [of _ "zs1 @ [q]" zs2] by simp
  moreover from find_SomeD [OF a] have "rank (key_at sl a) = rank (key_at sl q)"
    using assms by auto
  ultimately show ?thesis by (auto simp: found_def)
qed

context comparator
begin

lemma sk_suffix:
  assumes inv: "sk_inv valid rank sl xs" and split: "0 # xs = ys @ p # zs"
  shows "l < lvl sl p \<Longrightarrow> get_n_node sl p l = Inr (List.find (\<lambda>a. l < lvl sl a) zs)"
    "\<forall>a\<in>set zs. a \<in> set xs \<and> 1 \<le> lvl sl a \<and> valid (key_at sl a) \<and> Node_Key sl a = Inr (key_at sl a)"
    "sorted (map (\<lambda>a. rank (key_at sl a)) zs)"
proof -
  have sh: "sk_shape sl xs" and li: "sk_linked sl xs" and so: "sk_sorted valid rank sl xs" using inv by (simp_all add: sk_inv_def)
  have dist: "distinct (ys @ p # zs)" using sh split by (metis sk_shape_def)
  have p: "p \<in> set (0 # xs)" using split by simp
  show "get_n_node sl p l = Inr (List.find (\<lambda>a. l < lvl sl a) zs)" if "l < lvl sl p"
    using get_n_node_shape [OF sh p that] li p that dist by (simp add: sk_linked_def split)
  have "set zs \<subseteq> set xs" using split by (cases ys) auto
  then show "\<forall>a\<in>set zs. a \<in> set xs \<and> 1 \<le> lvl sl a \<and> valid (key_at sl a) \<and> Node_Key sl a = Inr (key_at sl a)"
    using sh so Node_Key_shape [OF sh] by (auto simp: sk_shape_def sk_sorted_def)
  show "sorted (map (\<lambda>a. rank (key_at sl a)) zs)" using so split by (cases ys) (auto simp: sk_sorted_def sorted_append)
qed

lemma Find_loop_correct:
  assumes inv: "sk_inv valid rank sl xs" and k: "valid k"
  shows "0 # xs = ys @ p # zs \<Longrightarrow> l < lvl sl p \<Longrightarrow> length zs + l < fuel \<Longrightarrow>
     \<exists>r. Find_loop fuel cmp k p l sl = Inr r \<and> found rank sl zs (rank k) r"
proof (induction fuel arbitrary: ys p zs l)
  case (Suc fuel)
  note suf = sk_suffix [OF inv Suc.prems(1)] and g = sk_suffix(1) [OF inv Suc.prems(1,2)]
  have down: "\<exists>r. Find_loop fuel cmp k p (l - 1) sl = Inr r \<and> found rank sl zs (rank k) r" if "l \<noteq> 0"
    using Suc.IH [OF Suc.prems(1), of "l - 1"] Suc.prems that by simp
  show ?case
  proof (cases "List.find (\<lambda>a. l < lvl sl a) zs")
    case None
    then have "l = 0 \<Longrightarrow> zs = []" using suf(2) by (cases zs) auto
    then show ?thesis using g None down by (cases "l = 0") (auto simp: found_def)
  next
    case (Some q)
    then obtain zs1 zs2 where z: "zs = zs1 @ q # zs2" and low: "\<forall>a\<in>set zs1. \<not> l < lvl sl a" and q: "l < lvl sl q"
      using find_split by fast
    have at: "valid (key_at sl q)" "Node_Key sl q = Inr (key_at sl q)" using suf(2) z by simp_all
    note step = g Some at(2) cmp_rank [OF at(1) k]
    have le: "\<forall>a\<in>set zs1. rank (key_at sl a) \<le> rank (key_at sl q)" using suf(3) z by (auto simp: sorted_append)
    consider (lt) "rank (key_at sl q) < rank k" | (eq) "rank (key_at sl q) = rank k" | (gt) "rank k < rank (key_at sl q)"
      by fastforce
    then show ?thesis
    proof cases
      case lt
      have "0 # xs = (ys @ p # zs1) @ q # zs2" using Suc.prems(1) z by simp
      from Suc.IH [OF this q] obtain r where "Find_loop fuel cmp k q l sl = Inr r" "found rank sl zs2 (rank k) r"
        using Suc.prems(3) z by auto
      moreover have "\<forall>a\<in>set (zs1 @ [q]). rank (key_at sl a) < rank k" using le lt by fastforce
      ultimately show ?thesis using step lt z found_skip [of zs1 q rank sl "rank k" zs2 r] by simp
    next
      case eq
      then show ?thesis using step z found_equal [OF le eq] by auto
    next
      case gt
      have "l = 0 \<Longrightarrow> zs1 = []" using low suf(2) z by (cases zs1) auto
      then show ?thesis using step gt z down by (cases "l = 0") (auto simp: found_def)
    qed
  qed
qed simp


end

section \<open>Linking a new node\<close>

text \<open>
  While \<^verbatim>\<open>Insert\<close> runs, the levels from \<open>c\<close> on already follow the new order \<open>A @ n # B\<close>
  and the levels below \<open>c\<close> still follow the old order \<open>A @ B\<close>.
\<close>

definition half_linked :: "'k skiplist \<Rightarrow> nat list \<Rightarrow> nat \<Rightarrow> nat list \<Rightarrow> nat \<Rightarrow> bool" where
  "half_linked sl A n B c \<longleftrightarrow>
     (\<forall>p\<in>set (0 # A @ B). \<forall>i<lvl sl p. nxt sl p ! i =
        List.find (\<lambda>a. i < lvl sl a) (after p (0 # A @ (if c \<le> i then n # B else B)))) \<and>
     (\<forall>i<lvl sl n. c \<le> i \<longrightarrow> nxt sl n ! i = List.find (\<lambda>a. i < lvl sl a) B)"

lemma set_n_node_shape:
  assumes "sk_shape sl xs" "p \<in> set (0 # xs)" "i < lvl sl p"
  shows "set_n_node sl p i q =
    Inr (sl\<lparr>sk_nodes := (sk_nodes sl)[p := (sk_nodes sl ! p)\<lparr>nd_next := (nxt sl p)[i := q]\<rparr>]\<rparr>)"
  using assms by (auto simp: sk_shape_def set_n_node_def Let_def)

text \<open>Setting a slot keeps the shape, the levels and the keys, and changes that slot only.\<close>

lemma set_slot:
  assumes sh: "sk_shape sl xs" and p: "p \<in> set (0 # xs)" "i < lvl sl p" and s: "set_n_node sl p i q = Inr sl'"
  shows "sk_shape sl' xs" "\<And>a. lvl sl' a = lvl sl a" "\<And>a. nd_key (sk_nodes sl' ! a) = nd_key (sk_nodes sl ! a)"
    "\<And>a j. a \<in> set (0 # xs) \<Longrightarrow> j < lvl sl a \<Longrightarrow> nxt sl' a ! j = (if a = p \<and> j = i then q else nxt sl a ! j)"
    "length (sk_nodes sl') = length (sk_nodes sl)"
proof -
  have sl': "sl' = sl\<lparr>sk_nodes := (sk_nodes sl)[p := (sk_nodes sl ! p)\<lparr>nd_next := (nxt sl p)[i := q]\<rparr>]\<rparr>"
    using set_n_node_shape [OF sh p, of q] s by simp
  have pl: "p < length (sk_nodes sl)" using sh p(1) by (auto simp: sk_shape_def)
  have nd: "sk_nodes sl' ! a =
      (if a = p then (sk_nodes sl ! p)\<lparr>nd_next := (nxt sl p)[i := q]\<rparr> else sk_nodes sl ! a)" for a
    using pl by (simp add: sl' nth_list_update)
  show lv: "\<And>a. lvl sl' a = lvl sl a" and "\<And>a. nd_key (sk_nodes sl' ! a) = nd_key (sk_nodes sl ! a)"
    by (simp_all add: nd)
  show len: "length (sk_nodes sl') = length (sk_nodes sl)"
    by (simp add: sl')
  show "sk_shape sl' xs"
    using sh unfolding sk_shape_def len lv by (auto simp: nd)
  show "nxt sl' a ! j = (if a = p \<and> j = i then q else nxt sl a ! j)" if "a \<in> set (0 # xs)" "j < lvl sl a" for a j
    using that sh by (auto simp: nd sk_shape_def nth_list_update)
qed

text \<open>One level is linked: \<open>p\<close> is the last node of \<open>0 # A\<close> that is higher than \<open>l\<close>.\<close>

lemma find_skip: "\<forall>a\<in>set xs. \<not> P a \<Longrightarrow> List.find P (xs @ ys) = List.find P ys"
  by (induction xs) auto

lemma find_prefix: "\<exists>a\<in>set xs. P a \<Longrightarrow> List.find P (xs @ ys) = List.find P xs"
  by (induction xs) auto

text \<open>A node behind \<open>A\<close> is the next one of its height only for the last node of that height in \<open>A\<close>.\<close>

lemma find_after_insert:
  assumes split: "x # A = ys @ p # zs" and dist: "distinct (x # A @ n # B)" and p: "P p" "\<forall>b\<in>set zs. \<not> P b"
    and a: "a \<in> set (x # A @ B)" "a \<noteq> p" "P a"
  shows "List.find P (after a (x # A @ n # B)) = List.find P (after a (x # A @ B))"
proof -
  have eq: "x # A @ R = (ys @ p # zs) @ R" for R by (simp flip: split)
  have "a \<notin> set zs" using a(3) p(2) by auto
  then consider "a \<in> set ys" | "a \<in> set B" "a \<notin> set (x # A)" using a split by (metis Un_iff append_Cons set_ConsD set_append)
  then show ?thesis
  proof cases
    case 1
    then have "after a (x # A @ R) = (after a ys @ [p]) @ zs @ R" for R unfolding eq by (simp add: after_append)
    moreover have "List.find P ((after a ys @ [p]) @ R) = List.find P (after a ys @ [p])" for R
      by (rule find_prefix) (use p(1) in auto)
    ultimately show ?thesis by (simp only:)
  next
    case 2
    then show ?thesis
      using dist after_append_notin [of a "x # A" "n # B"] after_append_notin [of a "x # A" B] by (auto simp: after_def)
  qed
qed

lemma half_linked_step:
  assumes sh: "sk_shape sl (A @ n # B)" and hl: "half_linked sl A n B (Suc l)"
    and ptr: "0 # A = ys @ p # zs" "l < lvl sl p" and ln: "l < lvl sl n" and last: "\<forall>a\<in>set zs. \<not> l < lvl sl a"
    and s1: "set_n_node sl p l (Some n) = Inr sl1"
    and s2: "set_n_node sl1 n l (List.find (\<lambda>a. l < lvl sl a) B) = Inr sl2"
  shows "sk_shape sl2 (A @ n # B)" "half_linked sl2 A n B l" "\<And>a. lvl sl2 a = lvl sl a"
    "\<And>a. nd_key (sk_nodes sl2 ! a) = nd_key (sk_nodes sl ! a)"
proof -
  have dist: "distinct (0 # A @ n # B)" using sh by (simp add: sk_shape_def)
  have p: "p \<in> set (0 # A)" "p \<in> set (0 # A @ n # B)" "p \<noteq> n" using ptr(1) dist by (auto simp: Cons_eq_append_conv)
  note e1 = set_slot [OF sh p(2) ptr(2) s1]
  have n: "n \<in> set (0 # A @ n # B)" "l < lvl sl1 n" using ln e1(2) by simp_all
  note e2 = set_slot [OF e1(1) n s2]
  show lv: "\<And>a. lvl sl2 a = lvl sl a" using e1(2) e2(2) by simp
  show "\<And>a. nd_key (sk_nodes sl2 ! a) = nd_key (sk_nodes sl ! a)" using e1(3) e2(3) by simp
  show "sk_shape sl2 (A @ n # B)" by (rule e2(1))
  have nx: "nxt sl2 a ! j = (if j = l \<and> a = p then Some n
      else if j = l \<and> a = n then List.find (\<lambda>a. l < lvl sl a) B else nxt sl a ! j)"
    if "a \<in> set (0 # A @ n # B)" "j < lvl sl a" for a j
    using that e1(4) [OF that] e2(4) [OF that(1)] e1(2) p(3) by auto
  show "half_linked sl2 A n B l"
    unfolding half_linked_def lv
  proof (intro conjI ballI allI impI)
    fix i assume i: "i < lvl sl n" "l \<le> i"
    show "nxt sl2 n ! i = List.find (\<lambda>a. i < lvl sl a) B" using i nx [OF n(1) i(1)] hl p(3) by (auto simp: half_linked_def)
  next
    fix a i assume a: "a \<in> set (0 # A @ B)" and i: "i < lvl sl a"
    have an: "a \<noteq> n" "a \<in> set (0 # A @ n # B)" using a dist by auto
    have old: "nxt sl a ! i = List.find (\<lambda>b. i < lvl sl b) (after a (0 # A @ (if Suc l \<le> i then n # B else B)))"
      using hl a i unfolding half_linked_def by blast
    have "p \<notin> set ys" using dist ptr(1) by (metis distinct.simps(2) distinct_append append_Cons append_assoc not_distinct_conv_prefix)
    then have "after p (0 # A @ n # B) = zs @ n # B" using after_split [of p ys "zs @ n # B"] ptr(1) by (metis append_Cons append_assoc)
    moreover have "Suc l \<le> i \<longleftrightarrow> l \<le> i" if "i \<noteq> l" using that by auto
    ultimately show "nxt sl2 a ! i = List.find (\<lambda>b. i < lvl sl b) (after a (0 # A @ (if l \<le> i then n # B else B)))"
      using old nx [OF an(2) i] an last ln find_after_insert [OF ptr(1) dist, of "\<lambda>b. l < lvl sl b" a] ptr(2) a i
      by (cases "i = l"; cases "a = p") (simp_all add: find_skip)
  qed
qed


text \<open>Whatever \<^verbatim>\<open>set_n_node\<close> does not touch: the levels and the keys of the nodes.\<close>

definition same_nodes :: "'k skiplist \<Rightarrow> 'k skiplist \<Rightarrow> bool" where
  "same_nodes sl sl' \<longleftrightarrow>
     (\<forall>a. lvl sl' a = lvl sl a \<and> nd_key (sk_nodes sl' ! a) = nd_key (sk_nodes sl ! a))"

lemma half_linked_done: "half_linked sl A n B 0 \<Longrightarrow> sk_shape sl (A @ n # B) \<Longrightarrow> sk_linked sl (A @ n # B)"
  unfolding sk_linked_def half_linked_def
proof (intro ballI allI impI)
  fix p i
  assume hl: "(\<forall>p\<in>set (0 # A @ B). \<forall>i<lvl sl p. nxt sl p ! i =
        List.find (\<lambda>a. i < lvl sl a) (after p (0 # A @ (if 0 \<le> i then n # B else B)))) \<and>
     (\<forall>i<lvl sl n. 0 \<le> i \<longrightarrow> nxt sl n ! i = List.find (\<lambda>a. i < lvl sl a) B)"
    and sh: "sk_shape sl (A @ n # B)" and p: "p \<in> set (0 # A @ n # B)" and i: "i < lvl sl p"
  have "n \<notin> set (0 # A)" using sh by (auto simp: sk_shape_def)
  then have "after n (0 # A @ n # B) = B" using after_split [of n "0 # A" B] by simp
  then show "nxt sl p ! i = List.find (\<lambda>a. i < lvl sl a) (after p (0 # A @ n # B))"
    using hl p i by (cases "p = n") auto
qed

context comparator
begin

text \<open>The next node of the height at a node of \<open>A\<close>, and the keys that the loop compares.\<close>

lemma half_linked_next:
  assumes sh: "sk_shape sl (A @ n # B)" and hl: "half_linked sl A n B (Suc l)" and split: "0 # A = ys @ p # zs" and l: "l < lvl sl p"
  shows "get_n_node sl p l = Inr (List.find (\<lambda>a. l < lvl sl a) (zs @ B))"
proof -
  have p: "p \<in> set (0 # A)" using split by simp
  have "distinct (0 # A)" using sh by (simp add: sk_shape_def)
  then have "p \<notin> set ys" unfolding split by auto
  then have "after p (0 # A @ B) = zs @ B" using after_split [of p ys "zs @ B"] split by (metis append_Cons append_assoc)
  then have "nxt sl p ! l = List.find (\<lambda>a. l < lvl sl a) (zs @ B)" using hl p l by (auto simp: half_linked_def)
  then show ?thesis using get_n_node_shape [OF sh _ l] p by auto
qed

lemma same_nodes_key:
  "sk_shape sl (A @ n # B) \<Longrightarrow> same_nodes sl0 sl \<Longrightarrow> q \<in> set (A @ B) \<Longrightarrow> Node_Key sl q = Inr (key_at sl0 q)"
  using Node_Key_shape [of sl "A @ n # B" q] by (auto simp: same_nodes_def)

text \<open>The loop goes down: the new node is linked at this height.\<close>

lemma Insert_loop_down:
  assumes B: "\<forall>b\<in>set B. valid (key_at sl0 b) \<and> \<not> rank (key_at sl0 b) < rank k" and k: "valid k"
    and sh: "sk_shape sl (A @ n # B)" and hl: "half_linked sl A n B (Suc l)" and same: "same_nodes sl0 sl"
    and split: "0 # A = ys @ p # zs" and l: "l < lvl sl p" "l < lvl sl n" and last: "\<forall>a\<in>set zs. \<not> l < lvl sl a"
  obtains sl' where "Insert_loop (Suc fuel) cmp k n p (Suc l) sl = Insert_loop fuel cmp k n p l sl'"
    "sk_shape sl' (A @ n # B)" "half_linked sl' A n B l" "same_nodes sl0 sl'" "\<And>a. lvl sl' a = lvl sl a"
proof -
  have g: "get_n_node sl p l = Inr (List.find (\<lambda>a. l < lvl sl a) B)"
    using half_linked_next [OF sh hl split l(1)] find_skip [OF last, of B] by simp
  have adv: "(case List.find (\<lambda>a. l < lvl sl a) B of
          None \<Rightarrow> Inr False
        | Some q \<Rightarrow> rbind (Node_Key sl q) (\<lambda>k'. rbind (cmp k' k) (\<lambda>c. Inr (c < 0)))) = Inr False"
  proof (cases "List.find (\<lambda>a. l < lvl sl a) B")
    case (Some q)
    then have "q \<in> set B" using find_SomeD by fast
    then show ?thesis using Some same_nodes_key [OF sh same, of q] cmp_rank B k by simp
  qed simp
  have p: "p \<in> set (0 # A @ n # B)" using split by (auto simp: Cons_eq_append_conv)
  obtain sl1 where s1: "set_n_node sl p l (Some n) = Inr sl1" using set_n_node_shape [OF sh p l(1)] by auto
  note e1 = set_slot [OF sh p l(1) s1]
  obtain sl2 where s2: "set_n_node sl1 n l (List.find (\<lambda>a. l < lvl sl a) B) = Inr sl2"
    using set_n_node_shape [OF e1(1), of n l] l(2) e1(2) by auto
  note h = half_linked_step [OF sh hl split l last s1 s2]
  show thesis by (rule that [OF _ h(1,2) _ h(3)]) (use g adv s1 s2 same h(3,4) in \<open>simp_all add: same_nodes_def\<close>)
qed

lemma Insert_loop_correct:
  assumes A: "\<forall>a\<in>set A. valid (key_at sl0 a) \<and> rank (key_at sl0 a) < rank k"
    and B: "\<forall>b\<in>set B. valid (key_at sl0 b) \<and> \<not> rank (key_at sl0 b) < rank k" and k: "valid k"
  shows "sk_shape sl (A @ n # B) \<Longrightarrow> half_linked sl A n B c \<Longrightarrow> same_nodes sl0 sl \<Longrightarrow>
     0 # A = ys @ p # zs \<Longrightarrow> c \<le> lvl sl n \<Longrightarrow> c \<le> lvl sl p \<Longrightarrow> length zs + c \<le> fuel \<Longrightarrow>
     \<exists>sl'. Insert_loop fuel cmp k n p c sl = Inr sl' \<and> sk_shape sl' (A @ n # B) \<and>
       sk_linked sl' (A @ n # B) \<and> same_nodes sl0 sl'"
proof (induction fuel arbitrary: sl ys p zs c)
  case 0
  then show ?case using half_linked_done by (cases c) auto
next
  case (Suc fuel)
  note sh = Suc.prems(1) and hl = Suc.prems(2) and same = Suc.prems(3) and split = Suc.prems(4)
  show ?case
  proof (cases c)
    case 0
    then show ?thesis using Suc.prems half_linked_done by auto
  next
    case c: (Suc l)
    have l: "l < lvl sl p" "l < lvl sl n" using Suc.prems(5,6) c by simp_all
    show ?thesis
    proof (cases "\<exists>a\<in>set zs. l < lvl sl a")
      case True
      then obtain q where q: "List.find (\<lambda>a. l < lvl sl a) zs = Some q"
        by (cases "List.find (\<lambda>a. l < lvl sl a) zs") (auto simp: find_None_iff)
      then obtain zs1 zs2 where z: "zs = zs1 @ q # zs2" "l < lvl sl q" using find_split by fast
      have qA: "q \<in> set A" using split z by (cases ys) auto
      then have "cmp (key_at sl0 q) k = Inr (-1)" using cmp_rank A k by simp
      then have "Insert_loop (Suc fuel) cmp k n p c sl = Insert_loop fuel cmp k n q c sl"
        using half_linked_next [OF sh hl [unfolded c] split l(1)] same_nodes_key [OF sh same, of q] qA q find_prefix [OF True, of B] c by simp
      moreover have "0 # A = (ys @ p # zs1) @ q # zs2" using split z by simp
      ultimately show ?thesis
        using Suc.IH [OF sh hl same _ Suc.prems(5), of "ys @ p # zs1" q zs2] z Suc.prems(7) c by simp
    next
      case False
      then have "\<forall>a\<in>set zs. \<not> l < lvl sl a" by simp
      from Insert_loop_down [OF B k sh hl [unfolded c] same split l this] obtain sl' where
        "Insert_loop (Suc fuel) cmp k n p c sl = Insert_loop fuel cmp k n p l sl'"
        "sk_shape sl' (A @ n # B)" "half_linked sl' A n B l" "same_nodes sl0 sl'" "\<And>a. lvl sl' a = lvl sl a" unfolding c by blast
      then show ?thesis using Suc.IH [OF _ _ _ split, of sl' l] l Suc.prems(7) c by simp
    qed
  qed
qed

end

section \<open>The keys of a skip list\<close>

text \<open>The nodes of the bottom level, in order, as the iterator visits them.\<close>

fun sk_chain :: "nat \<Rightarrow> 'k skiplist \<Rightarrow> nat \<Rightarrow> nat list" where
  "sk_chain 0 sl p = []"
| "sk_chain (Suc fuel) sl p = (case nxt sl p ! 0 of None \<Rightarrow> [] | Some q \<Rightarrow> q # sk_chain fuel sl q)"

definition sk_addrs :: "'k skiplist \<Rightarrow> nat list" where
  "sk_addrs sl = sk_chain (length (sk_nodes sl)) sl 0"

definition sk_keys :: "'k skiplist \<Rightarrow> 'k list" where
  "sk_keys sl = map (key_at sl) (sk_addrs sl)"

definition sk_ok :: "('k \<Rightarrow> bool) \<Rightarrow> ('k \<Rightarrow> 'o::linorder) \<Rightarrow> 'k skiplist \<Rightarrow> bool" where
  "sk_ok valid rank sl \<longleftrightarrow> sk_inv valid rank sl (sk_addrs sl)"

definition insert_before :: "('k \<Rightarrow> 'o::linorder) \<Rightarrow> 'k \<Rightarrow> 'k list \<Rightarrow> 'k list" where
  "insert_before rank k ks =
     takeWhile (\<lambda>x. rank x < rank k) ks @ k # dropWhile (\<lambda>x. rank x < rank k) ks"

lemma sk_chain_eq:
  assumes "sk_shape sl xs" "sk_linked sl xs"
  shows "0 # xs = ys @ p # zs \<Longrightarrow> length zs \<le> fuel \<Longrightarrow> sk_chain fuel sl p = zs"
proof (induction fuel arbitrary: ys p zs)
  case 0
  then show ?case by simp
next
  case (Suc fuel)
  have "distinct (ys @ p # zs)" using assms(1) Suc.prems(1) by (metis sk_shape_def)
  then have p: "after p (0 # xs) = zs" using Suc.prems(1) by simp
  have "p \<in> set (0 # xs)" using Suc.prems(1) by simp
  moreover then have "0 < lvl sl p" using assms(1) by (auto simp: sk_shape_def kSkipListNodeMaxLevel_def)
  ultimately have n: "nxt sl p ! 0 = List.find (\<lambda>a. 0 < lvl sl a) zs"
    using assms(2) p by (auto simp: sk_linked_def)
  show ?case
  proof (cases zs)
    case Nil
    then show ?thesis using n by simp
  next
    case (Cons q zs')
    then have "q \<in> set xs" using Suc.prems(1) by (cases ys) auto
    then have "0 < lvl sl q" using assms(1) by (auto simp: sk_shape_def)
    moreover have "0 # xs = (ys @ [p]) @ q # zs'" using Suc.prems(1) Cons by simp
    ultimately show ?thesis using n Cons Suc.IH [of "ys @ [p]" q zs'] Suc.prems(2) by simp
  qed
qed

lemma sk_shape_length: "sk_shape sl xs \<Longrightarrow> length xs < length (sk_nodes sl)"
proof -
  assume sh: "sk_shape sl xs"
  then have "set (0 # xs) \<subseteq> {..<length (sk_nodes sl)}" "distinct (0 # xs)"
    by (auto simp: sk_shape_def)
  then have "card (set (0 # xs)) \<le> length (sk_nodes sl)" "card (set (0 # xs)) = length (0 # xs)"
    by (metis card_lessThan card_mono finite_lessThan, metis distinct_card)
  then show ?thesis by simp
qed

lemma sk_addrs_eq: "sk_shape sl xs \<Longrightarrow> sk_linked sl xs \<Longrightarrow> sk_addrs sl = xs"
  unfolding sk_addrs_def
  by (rule sk_chain_eq [where ys = "[]"]) (auto dest: sk_shape_length)

lemma sk_inv_ok: "sk_inv valid rank sl xs \<Longrightarrow> sk_ok valid rank sl \<and> sk_addrs sl = xs"
  using sk_addrs_eq [of sl xs] by (auto simp: sk_ok_def sk_inv_def)

lemma SkipList_make_ok: "sk_ok valid rank SkipList_make" "sk_keys SkipList_make = []"
proof -
  have "sk_inv valid rank SkipList_make []"
    by (auto simp: sk_inv_def sk_shape_def sk_linked_def sk_sorted_def SkipList_make_def Node_dummy_def after_def)
  from sk_inv_ok [OF this] show "sk_ok valid rank SkipList_make" by simp
  have "sk_addrs SkipList_make = []"
    by (simp add: sk_addrs_def SkipList_make_def Node_dummy_def kSkipListNodeMaxLevel_def)
  then show "sk_keys SkipList_make = []" by (simp add: sk_keys_def)
qed

lemma RandomHeight_loop_bounds:
  "1 \<le> h \<Longrightarrow> h \<le> kSkipListNodeMaxLevel \<Longrightarrow>
     1 \<le> fst (RandomHeight_loop rand r h) \<and> fst (RandomHeight_loop rand r h) \<le> kSkipListNodeMaxLevel"
proof (induction rand r h rule: RandomHeight_loop.induct)
  case (1 rand r h)
  then show ?case
    by (cases "rand r") (auto simp: RandomHeight_loop.simps [of rand r h])
qed

lemma RandomHeight_bounds:
  "1 \<le> fst (RandomHeight rand r)" "fst (RandomHeight rand r) \<le> kSkipListNodeMaxLevel"
  using RandomHeight_loop_bounds [of 1 rand r] by (simp_all add: RandomHeight_def kSkipListNodeMaxLevel_def)

section \<open>The interface of the ordered table\<close>

text \<open>
  What a memtable relies on: an insertion keeps the keys ordered by rank, the new
  key before those of the same rank, and a lookup gives a key of the least rank
  that is not below the rank looked up.
\<close>

locale ordered_table =
  fixes insert :: "nat \<Rightarrow> 'k \<Rightarrow> 't \<Rightarrow> 't res"
    and lookup :: "'k \<Rightarrow> 't \<Rightarrow> 'k option res"
    and keys :: "'t \<Rightarrow> 'k list"
    and ok :: "'t \<Rightarrow> bool"
    and valid :: "'k \<Rightarrow> bool"
    and rank :: "'k \<Rightarrow> 'o::linorder"
  assumes keys_valid: "ok t \<Longrightarrow> k \<in> set (keys t) \<Longrightarrow> valid k"
    and keys_sorted: "ok t \<Longrightarrow> sorted (map rank (keys t))"
    and insert_keys: "ok t \<Longrightarrow> valid k \<Longrightarrow> 1 \<le> h \<Longrightarrow> h \<le> kSkipListNodeMaxLevel \<Longrightarrow>
      \<exists>t'. insert h k t = Inr t' \<and> ok t' \<and> keys t' = insert_before rank k (keys t)"
    and lookup_keys: "ok t \<Longrightarrow> valid k \<Longrightarrow>
      \<exists>r. lookup k t = Inr r \<and>
        (case List.find (\<lambda>x. \<not> rank x < rank k) (keys t) of
           None \<Rightarrow> r = None
         | Some x \<Rightarrow> \<exists>y\<in>set (keys t). r = Some y \<and> rank y = rank x)"
begin

lemma lookup_None:
  "ok t \<Longrightarrow> valid k \<Longrightarrow> \<forall>x\<in>set (keys t). rank x < rank k \<Longrightarrow> lookup k t = Inr None"
  using lookup_keys [of t k] by (auto simp: find_None_iff split: option.splits dest: find_SomeD)

lemma lookup_least:
  assumes "ok t" "valid k" "x \<in> set (keys t)" "rank k \<le> rank x"
    and least: "\<And>y. y \<in> set (keys t) \<Longrightarrow> rank k \<le> rank y \<Longrightarrow> rank x \<le> rank y"
  shows "\<exists>y\<in>set (keys t). lookup k t = Inr (Some y) \<and> rank y = rank x"
proof -
  obtain z where z: "List.find (\<lambda>x. \<not> rank x < rank k) (keys t) = Some z"
    using assms(3,4) by (cases "List.find (\<lambda>x. \<not> rank x < rank k) (keys t)") (auto simp: find_None_iff)
  from find_split [OF this] obtain zs1 zs2 where
    s: "keys t = zs1 @ z # zs2" "\<forall>a\<in>set zs1. rank a < rank k" "rank k \<le> rank z" by auto
  have "rank z \<le> rank x"
    using s assms(3,4) keys_sorted [OF assms(1)] by (auto simp: sorted_append)
  moreover have "rank x \<le> rank z" using least s by simp
  ultimately have "rank z = rank x" by simp
  then show ?thesis using lookup_keys [OF assms(1,2)] z by auto
qed

lemma lookup_distinct:
  assumes "ok t" "valid k" "distinct (map rank (keys t))"
  shows "lookup k t = Inr (List.find (\<lambda>x. \<not> rank x < rank k) (keys t))"
proof (cases "List.find (\<lambda>x. \<not> rank x < rank k) (keys t)")
  case None
  then show ?thesis using lookup_keys [OF assms(1,2)] by auto
next
  case (Some x)
  then have "x \<in> set (keys t)" using find_SomeD by fast
  then show ?thesis
    using lookup_keys [OF assms(1,2)] assms(3) Some by (auto simp: distinct_map dest: inj_onD)
qed

end

text \<open>A freshly allocated node is linked at no level yet.\<close>

lemma append_node:
  assumes sh: "sk_shape sl xs" and li: "sk_linked sl xs" and xs: "xs = A @ B"
    and h: "1 \<le> h" "h \<le> kSkipListNodeMaxLevel"
    and n: "n = length (sk_nodes sl)" and sl0: "sl0 = sl\<lparr>sk_nodes := sk_nodes sl @ [Node_make k h]\<rparr>"
  shows "\<And>a. a \<in> set (0 # xs) \<Longrightarrow> sk_nodes sl0 ! a = sk_nodes sl ! a" "sk_nodes sl0 ! n = Node_make k h"
    "n \<notin> set (0 # xs)" "sk_shape sl0 (A @ n # B)" "half_linked sl0 A n B h"
proof -
  show old: "sk_nodes sl0 ! a = sk_nodes sl ! a" if "a \<in> set (0 # xs)" for a
  proof -
    have "a < length (sk_nodes sl)" using that sh by (auto simp: sk_shape_def)
    then show ?thesis by (simp add: sl0 nth_append)
  qed
  show new: "sk_nodes sl0 ! n = Node_make k h" by (simp add: sl0 n)
  show nn: "n \<notin> set (0 # xs)" using sh by (auto simp: sk_shape_def n)
  have len: "length (sk_nodes sl0) = Suc n" by (simp add: sl0 n)
  have "a < Suc n" if "a \<in> set (0 # A @ B)" for a
    using that sh by (auto simp: sk_shape_def xs n less_Suc_eq)
  then show "sk_shape sl0 (A @ n # B)"
    using sh nn old new h unfolding sk_shape_def len xs by (auto simp: Node_make_def)
  have find: "List.find (\<lambda>a. i < lvl sl0 a) ys = List.find (\<lambda>a. i < lvl sl a) ys"
    if "set ys \<subseteq> set (0 # xs)" for i ys
    using that old by (induction ys) auto
  show "half_linked sl0 A n B h"
    unfolding half_linked_def
  proof (intro conjI ballI allI impI)
    fix i assume "i < lvl sl0 n" "h \<le> i"
    then show "nxt sl0 n ! i = List.find (\<lambda>a. i < lvl sl0 a) B" by (simp add: new Node_make_def)
  next
    fix p i assume p: "p \<in> set (0 # A @ B)" and i: "i < lvl sl0 p"
    have "nxt sl0 p ! i = List.find (\<lambda>a. i < lvl sl a) (after p (0 # xs))"
      using li p i old [of p] by (auto simp: sk_linked_def xs)
    then have base: "nxt sl0 p ! i = List.find (\<lambda>a. i < lvl sl0 a) (after p (0 # A @ B))"
      using find [of "after p (0 # xs)"] after_sub [of p "0 # xs"] by (simp add: xs)
    have skip: "List.find (\<lambda>a. i < lvl sl0 a) (ys @ n # zs) = List.find (\<lambda>a. i < lvl sl0 a) (ys @ zs)"
      if "h \<le> i" for ys zs
      using that by (induction ys) (auto simp: new Node_make_def)
    have "p \<noteq> n" using p nn xs by auto
    from after_insert [OF this, of 0 A B] show "nxt sl0 p ! i =
        List.find (\<lambda>a. i < lvl sl0 a) (after p (0 # A @ (if h \<le> i then n # B else B)))"
      using base skip by auto
  qed
qed

context comparator
begin

text \<open>The nodes before and behind the place of a key.\<close>

lemma sorted_split:
  assumes so: "sk_sorted valid rank sl xs"
  shows "\<forall>a\<in>set (takeWhile (\<lambda>a. rank (key_at sl a) < rank k) xs). a \<in> set xs \<and> valid (key_at sl a) \<and> rank (key_at sl a) < rank k"
    "\<forall>b\<in>set (dropWhile (\<lambda>a. rank (key_at sl a) < rank k) xs). b \<in> set xs \<and> valid (key_at sl b) \<and> \<not> rank (key_at sl b) < rank k"
proof -
  let ?P = "\<lambda>a. rank (key_at sl a) < rank k"
  show "\<forall>a\<in>set (takeWhile ?P xs). a \<in> set xs \<and> valid (key_at sl a) \<and> ?P a"
    using so by (auto simp: sk_sorted_def dest: set_takeWhileD)
  have srt: "sorted (map (\<lambda>a. rank (key_at sl a)) (dropWhile ?P xs))"
    using so takeWhile_dropWhile_id [of ?P xs] by (metis map_append sk_sorted_def sorted_append)
  show "\<forall>b\<in>set (dropWhile ?P xs). b \<in> set xs \<and> valid (key_at sl b) \<and> \<not> ?P b"
  proof (cases "dropWhile ?P xs")
    case (Cons b bs)
    then have "\<not> ?P b" using hd_dropWhile [of ?P xs] by auto
    then have "\<forall>c\<in>set (b # bs). \<not> ?P c" using srt unfolding Cons by force
    then show ?thesis using so set_dropWhileD [of _ ?P xs] unfolding Cons by (auto simp: sk_sorted_def)
  next
    case Nil
    show ?thesis unfolding Nil by simp
  qed
qed

lemma SkipList_Insert_at_keys:
  assumes ok: "sk_ok valid rank sl" and k: "valid k" and h: "1 \<le> h" "h \<le> kSkipListNodeMaxLevel"
  shows "\<exists>sl'. SkipList_Insert_at cmp h k sl = Inr sl' \<and> sk_ok valid rank sl' \<and>
    sk_keys sl' = insert_before rank k (sk_keys sl)"
proof -
  define xs n sl0 where "xs = sk_addrs sl" and n: "n = length (sk_nodes sl)"
    and sl0: "sl0 = sl\<lparr>sk_nodes := sk_nodes sl @ [Node_make k h]\<rparr>"
  have sh: "sk_shape sl xs" and li: "sk_linked sl xs" and so: "sk_sorted valid rank sl xs"
    using ok by (simp_all add: sk_ok_def sk_inv_def xs_def)
  define A where "A = takeWhile (\<lambda>a. rank (key_at sl a) < rank k) xs"
  define B where "B = dropWhile (\<lambda>a. rank (key_at sl a) < rank k) xs"
  have xs: "xs = A @ B" by (simp add: A_def B_def)
  note new = append_node [OF sh li xs h n sl0]
  have keys: "key_at sl0 a = key_at sl a" if "a \<in> set xs" for a using new(1) that by simp
  have vA: "\<forall>a\<in>set A. valid (key_at sl0 a) \<and> rank (key_at sl0 a) < rank k"
    using sorted_split(1) [OF so, of k, folded A_def] keys by simp
  have srt: "sorted (map (\<lambda>a. rank (key_at sl a)) (A @ B))" using so by (simp add: sk_sorted_def xs)
  have vB: "\<forall>b\<in>set B. valid (key_at sl0 b) \<and> \<not> rank (key_at sl0 b) < rank k"
    using sorted_split(2) [OF so, of k, folded B_def] keys by simp
  have fuel: "length A + h \<le> length (sk_nodes sl0) + h"
    using sk_shape_length [OF sh] by (simp add: xs sl0)
  have lv: "h \<le> lvl sl0 n" "h \<le> lvl sl0 0"
    using h sh new(1) [of 0] by (simp_all add: new(2) Node_make_def sk_shape_def)
  obtain sl' where ins: "SkipList_Insert_at cmp h k sl = Inr sl'" and sh': "sk_shape sl' (A @ n # B)"
    and li': "sk_linked sl' (A @ n # B)" and same: "same_nodes sl0 sl'"
    using Insert_loop_correct [OF vA vB k new(4,5) _ _ lv fuel, of "[]"]
    by (auto simp: SkipList_Insert_at_def Let_def sl0 n same_nodes_def)
  have keys': "key_at sl' a = (if a = n then k else key_at sl a)" if "a \<in> set (A @ n # B)" for a
    using same keys new(2) that by (auto simp: same_nodes_def xs Node_make_def)
  then have map': "map (key_at sl') (A @ n # B) = map (key_at sl) A @ k # map (key_at sl) B"
    using new(3) xs by auto
  have "\<forall>a\<in>set A. rank (key_at sl a) \<le> rank k" "\<forall>b\<in>set B. rank k \<le> rank (key_at sl b)"
    using vA vB keys xs by (auto simp: less_imp_le not_less)
  then have "sorted (map rank (map (key_at sl') (A @ n # B)))"
    using srt unfolding map' by (auto simp: sorted_append comp_def)
  moreover have "\<forall>a\<in>set (A @ n # B). valid (key_at sl' a)" using vA vB keys keys' k xs by auto
  ultimately have "sk_inv valid rank sl' (A @ n # B)"
    using sh' li' by (simp add: sk_inv_def sk_sorted_def comp_def)
  from sk_inv_ok [OF this] have "sk_ok valid rank sl'" and addrs: "sk_addrs sl' = A @ n # B"
    by simp_all
  moreover have "sk_keys sl' = insert_before rank k (sk_keys sl)"
    using map' by (simp add: sk_keys_def addrs insert_before_def takeWhile_map dropWhile_map comp_def A_def B_def
        flip: xs_def)
  ultimately show ?thesis using ins by blast
qed

lemma FindFirst_keys:
  assumes ok: "sk_ok valid rank sl" and k: "valid k"
  shows "\<exists>r. FindFirstGreaterOrEqual cmp k sl = Inr r \<and>
    (case List.find (\<lambda>x. \<not> rank x < rank k) (sk_keys sl) of
       None \<Rightarrow> r = None
     | Some x \<Rightarrow> \<exists>y\<in>set (sk_keys sl). r = Some y \<and> rank y = rank x)"
proof -
  define xs where "xs = sk_addrs sl"
  have inv: "sk_inv valid rank sl xs" using ok by (simp add: sk_ok_def xs_def)
  have "lvl sl 0 = kSkipListNodeMaxLevel" "length xs < length (sk_nodes sl)"
    using inv sk_shape_length by (auto simp: sk_inv_def sk_shape_def)
  then obtain r where r: "FindFirstGreaterOrEqual cmp k sl = Inr r" "found rank sl xs (rank k) r"
    using Find_loop_correct [OF inv k, of "[]" 0 xs "kSkipListNodeMaxLevel - 1" "length (sk_nodes sl) + kSkipListNodeMaxLevel"]
    by (auto simp: FindFirstGreaterOrEqual_def kSkipListNodeMaxLevel_def)
  have "List.find (\<lambda>x. \<not> rank x < rank k) (map (key_at sl) ys) =
      map_option (key_at sl) (List.find (\<lambda>a. \<not> rank (key_at sl a) < rank k) ys)" for ys
    by (induction ys) auto
  then show ?thesis
    using r by (auto simp: found_def sk_keys_def split: option.splits simp flip: xs_def)
qed

end

sublocale comparator \<subseteq> table: ordered_table "SkipList_Insert_at cmp" "FindFirstGreaterOrEqual cmp"
  sk_keys "sk_ok valid rank" valid rank
proof
  show "valid k" if "sk_ok valid rank t" "k \<in> set (sk_keys t)" for t k
    using that by (auto simp: sk_ok_def sk_inv_def sk_sorted_def sk_keys_def)
  show "sorted (map rank (sk_keys t))" if "sk_ok valid rank t" for t
    using that by (auto simp: sk_ok_def sk_inv_def sk_sorted_def sk_keys_def comp_def)
qed (rule SkipList_Insert_at_keys FindFirst_keys; assumption)+

section \<open>Iteration\<close>

text \<open>The iterator that has the nodes \<open>zs\<close> still to visit.\<close>

definition iter_at :: "nat list \<Rightarrow> nat option" where
  "iter_at zs = (case zs of [] \<Rightarrow> None | q # _ \<Rightarrow> Some q)"

lemma iterator_step:
  assumes "sk_ok valid rank sl" "0 # sk_addrs sl = ys @ p # zs"
  shows "get_n_node sl p 0 = Inr (iter_at zs)"
proof -
  have sh: "sk_shape sl (sk_addrs sl)" and li: "sk_linked sl (sk_addrs sl)"
    using assms(1) by (simp_all add: sk_ok_def sk_inv_def)
  have p: "p \<in> set (0 # sk_addrs sl)" using assms(2) by simp
  have l: "0 < lvl sl p" using sh p by (auto simp: sk_shape_def kSkipListNodeMaxLevel_def)
  have "distinct (ys @ p # zs)" using sh assms(2) by (metis sk_shape_def)
  then have "after p (0 # sk_addrs sl) = zs" using assms(2) by simp
  moreover have "List.find (\<lambda>a. 0 < lvl sl a) zs = iter_at zs"
  proof (cases zs)
    case (Cons q zs')
    then have "q \<in> set (sk_addrs sl)" using assms(2) by (cases ys) auto
    then show ?thesis using sh Cons by (auto simp: iter_at_def sk_shape_def)
  qed (simp add: iter_at_def)
  ultimately show ?thesis
    using get_n_node_shape [OF sh p l] li p l by (auto simp: sk_linked_def)
qed

lemma Iterator_make_at: "sk_ok valid rank sl \<Longrightarrow> SkipList_Iterator_make sl = Inr (iter_at (sk_addrs sl))"
  using iterator_step [of valid rank sl "[]" 0] by (simp add: SkipList_Iterator_make_def)

lemma Iterator_Next_at:
  "sk_ok valid rank sl \<Longrightarrow> sk_addrs sl = ys @ q # zs \<Longrightarrow>
     SkipList_Iterator_Next sl (iter_at (q # zs)) = Inr (iter_at zs)"
  using iterator_step [of valid rank sl "0 # ys" q zs] by (simp add: SkipList_Iterator_Next_def iter_at_def)

lemma Iterator_Key_at:
  "sk_ok valid rank sl \<Longrightarrow> q \<in> set (sk_addrs sl) \<Longrightarrow>
     SkipList_Iterator_Key sl (iter_at (q # zs)) = Inr (key_at sl q)"
  using Node_Key_shape [of sl "sk_addrs sl" q]
  by (simp add: SkipList_Iterator_Key_def iter_at_def sk_ok_def sk_inv_def)

section \<open>Facts about \<open>insert_before\<close>\<close>

lemma insert_before_map:
  assumes "\<forall>x\<in>set (e # es). r (f x) = s x"
  shows "insert_before r (f e) (map f es) = map f (insert_before s e es)"
proof -
  have "takeWhile (\<lambda>x. r x < r (f e)) (map f es) = map f (takeWhile (\<lambda>x. s x < s e) es)"
    "dropWhile (\<lambda>x. r x < r (f e)) (map f es) = map f (dropWhile (\<lambda>x. s x < s e) es)"
    using assms by (induction es) auto
  then show ?thesis by (simp add: insert_before_def)
qed

lemma set_insert_before [simp]: "set (insert_before r k ks) = insert k (set ks)"
  unfolding insert_before_def
  by (metis (no_types, lifting) Un_insert_right list.simps(15) set_append takeWhile_dropWhile_id)

section \<open>Properties\<close>

text \<open>The height of a new node is at least 1 and at most \<^verbatim>\<open>kSkipListNodeMaxLevel\<close>, for every
  random source, so it never indexes past the head's pointers.\<close>

theorem RandomHeight_in_range:
  "1 \<le> fst (RandomHeight rand r) \<and> fst (RandomHeight rand r) \<le> kSkipListNodeMaxLevel"
  using RandomHeight_bounds [of rand r] by simp

end
