(* ===== verification/Keys.thy ===== *)
theory Keys
  imports Encode SkipLists
begin

text \<open>
  Internal keys and memtable keys: \<^verbatim>\<open>type/key.h\<close>, \<^verbatim>\<open>type/key.cc\<close>, \<^verbatim>\<open>util/util.h\<close>,
  \<^verbatim>\<open>util/util.cc\<close>, \<^verbatim>\<open>common/common.h\<close> and the comparator of \<^verbatim>\<open>memory/memtable.h\<close>.
  An internal key is the user key followed by an 8-byte tag, the sequence
  number shifted by eight bits with the key type in the low byte; a memtable
  key is the length-prefixed internal key followed by the length-prefixed value.
  The tag is stored in the byte order of the host, which is little-endian here.
\<close>

datatype KeyType = kTypeValue | kTypeDeletion

fun KeyType_code :: "KeyType \<Rightarrow> byte" where
  "KeyType_code kTypeValue = 0x01"
| "KeyType_code kTypeDeletion = 0x02"

definition kTypeSeek :: KeyType where
  "kTypeSeek = kTypeValue"

section \<open>Building keys\<close>

definition make_tag :: "u64 \<Rightarrow> KeyType \<Rightarrow> u64" where
  "make_tag snapshot key_type = push_bit 8 snapshot OR ucast (KeyType_code key_type)"

definition CreateInternalKey :: "slice \<Rightarrow> u64 \<Rightarrow> KeyType \<Rightarrow> slice res" where
  "CreateInternalKey user_key snapshot key_type =
     (let usize = sl_size user_key; needed = usize + 8 in
      rbind (read_mem (sl_mem user_key) usize) (\<lambda>uk.
        Inr (Slice_buf (uk @ EncodeFixed64 (make_tag snapshot key_type)) needed)))"

text \<open>The bytes are written into a buffer of \<^verbatim>\<open>needed\<close> bytes; writing past it is an error.\<close>

definition CreateMemtableKey :: "slice \<Rightarrow> u64 \<Rightarrow> slice \<Rightarrow> KeyType \<Rightarrow> slice res" where
  "CreateMemtableKey user_key snapshot value key_type =
     (let usize = sl_size user_key; vsize = sl_size value; needed = usize + 8 + vsize + 10 in
      rbind (read_mem (sl_mem user_key) usize) (\<lambda>uk.
      rbind (read_mem (sl_mem value) vsize) (\<lambda>v.
        let part1 = EncodeVarint32 (word_of_nat (usize + 8));
            part2 = EncodeVarint32 (word_of_nat vsize);
            dst = part1 @ uk @ EncodeFixed64 (make_tag snapshot key_type) @ part2 @ v
        in if length dst \<le> needed
           then Inr (Slice_buf dst (usize + 8 + length part1 + length part2 + vsize))
           else Inl OutOfBounds)))"

section \<open>Taking keys apart\<close>

definition ExtractInternalKey :: "slice \<Rightarrow> slice res" where
  "ExtractInternalKey memtable_key =
     rbind (GetVarint32 memtable_key) (\<lambda>(internal_key_len, memtable_key).
     rbind (GetFixedBytes memtable_key (unat internal_key_len)) (\<lambda>(internal_key, memtable_key).
       Inr internal_key))"

text \<open>A key shorter than its tag makes the code read before the start of the key.\<close>

definition ExtractUserKey :: "slice \<Rightarrow> (slice \<times> u64) res" where
  "ExtractUserKey internal_key =
     (if sl_size internal_key < 8 then Inl OutOfBounds
      else let user_key = Slice_buf (sl_mem internal_key) (sl_size internal_key - 8) in
        rbind (DecodeFixed64 (drop (sl_size user_key) (sl_mem internal_key))) (\<lambda>tag.
          Inr (user_key, drop_bit 8 tag)))"

definition ExtractValueFromMemtable :: "slice \<Rightarrow> bytes res" where
  "ExtractValueFromMemtable memtable_key =
     rbind (GetVarint32 memtable_key) (\<lambda>(internal_key_len, memtable_key).
     rbind (Slice_Advance memtable_key (unat internal_key_len)) (\<lambda>memtable_key.
     rbind (GetVarint32 memtable_key) (\<lambda>(value_len, memtable_key).
       read_mem (sl_mem memtable_key) (unat value_len))))"

record LookupKey =
  lk_data :: bytes
  lk_size :: nat
  lk_kstart :: u32
  lk_kend :: u32
  lk_vstart :: u32

definition LookupKey_make :: "slice \<Rightarrow> LookupKey res" where
  "LookupKey_make memtable_key =
     (let data = sl_mem memtable_key in
      rbind (GetVarint32 memtable_key) (\<lambda>(internal_key_len, tmp).
      let kstart = word_of_nat (length data - length (sl_mem tmp));
          kend = kstart + internal_key_len in
      rbind (Slice_Advance tmp (unat internal_key_len)) (\<lambda>tmp.
      rbind (GetVarint32 tmp) (\<lambda>(value_len, tmp).
        Inr \<lparr>lk_data = data, lk_size = sl_size memtable_key, lk_kstart = kstart, lk_kend = kend,
             lk_vstart = word_of_nat (length data - length (sl_mem tmp))\<rparr>))))"

definition LookupKey_MemtableKey :: "LookupKey \<Rightarrow> slice" where
  "LookupKey_MemtableKey k = Slice_buf (lk_data k) (lk_size k)"

definition LookupKey_InternalKey :: "LookupKey \<Rightarrow> slice" where
  "LookupKey_InternalKey k =
     Slice_buf (drop (unat (lk_kstart k)) (lk_data k)) (unat (lk_kend k - lk_kstart k))"

definition LookupKey_UserKey :: "LookupKey \<Rightarrow> slice" where
  "LookupKey_UserKey k =
     Slice_buf (drop (unat (lk_kstart k)) (lk_data k)) (unat (lk_kend k - lk_kstart k - 8))"

definition LookupKey_Value :: "LookupKey \<Rightarrow> slice" where
  "LookupKey_Value k =
     Slice_buf (drop (unat (lk_vstart k)) (lk_data k)) (size_sub (lk_size k) (unat (lk_vstart k)))"

definition LookupKey_tag :: "LookupKey \<Rightarrow> u64 res" where
  "LookupKey_tag k =
     (if unat (lk_kend k) < 8 then Inl OutOfBounds
      else DecodeFixed64 (drop (unat (lk_kend k) - 8) (lk_data k)))"

definition LookupKey_GetSequence :: "LookupKey \<Rightarrow> u64 res" where
  "LookupKey_GetSequence k = rbind (LookupKey_tag k) (\<lambda>tag. Inr (drop_bit 8 tag))"

definition LookupKey_GetKeyType :: "LookupKey \<Rightarrow> KeyType res" where
  "LookupKey_GetKeyType k =
     rbind (LookupKey_tag k) (\<lambda>tag.
       let tag = tag AND 0xff in Inr (if tag = 0x01 then kTypeValue else kTypeDeletion))"

section \<open>Comparators\<close>

definition MemtableKeyComparator_Compare :: "slice \<Rightarrow> slice \<Rightarrow> int res" where
  "MemtableKeyComparator_Compare memtable_key1 memtable_key2 =
     rbind (LookupKey_make memtable_key1) (\<lambda>key1.
     rbind (LookupKey_make memtable_key2) (\<lambda>key2.
     let user_key1 = LookupKey_UserKey key1; user_key2 = LookupKey_UserKey key2 in
     rbind (LookupKey_GetSequence key1) (\<lambda>s1.
     rbind (LookupKey_GetSequence key2) (\<lambda>s2.
     rbind (Slice_Compare user_key1 user_key2) (\<lambda>r.
       if r = 0 then
         (if s1 = s2 then Inr 0 else if s1 > s2 then Inr (-1) else if s1 < s2 then Inr 1 else Inr r)
       else Inr r)))))"

definition MemtableKeyComparator_Name :: string where
  "MemtableKeyComparator_Name = ''MemtableKeyComparator''"

definition InternalKeyComparator_Compare :: "slice \<Rightarrow> slice \<Rightarrow> int res" where
  "InternalKeyComparator_Compare a b =
     rbind (ExtractUserKey a) (\<lambda>(user_key1, seq1).
     rbind (ExtractUserKey b) (\<lambda>(user_key2, seq2).
     rbind (Slice_Compare user_key1 user_key2) (\<lambda>r.
       Inr (if r = 0 then (if seq1 < seq2 then 1 else if seq1 > seq2 then -1 else r) else r))))"

definition InternalKeyComparator_Name :: string where
  "InternalKeyComparator_Name = ''InternalKeyComparator''"

section \<open>The class \<open>InternalKey\<close>\<close>

text \<open>\<^verbatim>\<open>std::to_string\<close> of an unsigned number: its decimal digits.\<close>

fun std_to_string :: "nat \<Rightarrow> bytes" where
  "std_to_string n =
     (if n < 10 then [word_of_nat (48 + n)]
      else std_to_string (n div 10) @ [word_of_nat (48 + n mod 10)])"

declare std_to_string.simps [simp del]

record InternalKey =
  ik_rep :: bytes

definition InternalKey_make :: "slice \<Rightarrow> u64 \<Rightarrow> KeyType \<Rightarrow> InternalKey res" where
  "InternalKey_make user_key seqno key_type =
     rbind (Slice_ToString user_key) (\<lambda>rep.
       Inr \<lparr>ik_rep = rep @ std_to_string (unat (make_tag seqno key_type))\<rparr>)"

definition InternalKey_of_string :: "bytes \<Rightarrow> InternalKey" where
  "InternalKey_of_string rep = \<lparr>ik_rep = rep\<rparr>"

definition InternalKey_ToString :: "InternalKey \<Rightarrow> bytes" where
  "InternalKey_ToString k = ik_rep k"

definition InternalKey_ToSlice :: "InternalKey \<Rightarrow> slice" where
  "InternalKey_ToSlice k = Slice_string (ik_rep k)"

definition InternalKey_Clear :: "InternalKey \<Rightarrow> InternalKey" where
  "InternalKey_Clear k = k\<lparr>ik_rep := []\<rparr>"

definition InternalKey_Valid :: "InternalKey \<Rightarrow> bool" where
  "InternalKey_Valid k \<longleftrightarrow> ik_rep k \<noteq> []"

definition TransToInternalKey :: "slice \<Rightarrow> InternalKey res" where
  "TransToInternalKey key = rbind (Slice_ToString key) (\<lambda>s. Inr (InternalKey_of_string s))"

definition InternalKeyComparator_Compare_keys :: "InternalKey \<Rightarrow> InternalKey \<Rightarrow> int res" where
  "InternalKeyComparator_Compare_keys a b =
     InternalKeyComparator_Compare (InternalKey_ToSlice a) (InternalKey_ToSlice b)"

section \<open>Ranks: the order of the keys\<close>

text \<open>
  Keys are ordered by user key, and for one user key by descending sequence
  number: the newest entry of a user key comes first.
\<close>

datatype ikey = IKey (ik_user: bytes) (ik_seq: u64)

instantiation ikey :: linorder
begin

definition less_eq_ikey :: "ikey \<Rightarrow> ikey \<Rightarrow> bool" where
  "less_eq_ikey a b \<longleftrightarrow> ik_user a < ik_user b \<or> ik_user a = ik_user b \<and> ik_seq b \<le> ik_seq a"

definition less_ikey :: "ikey \<Rightarrow> ikey \<Rightarrow> bool" where
  "less_ikey a b \<longleftrightarrow> ik_user a < ik_user b \<or> ik_user a = ik_user b \<and> ik_seq b < ik_seq a"

instance
  by standard (auto simp: less_eq_ikey_def less_ikey_def ikey.expand)

end

definition memtable_ikey :: "slice \<Rightarrow> ikey res" where
  "memtable_ikey s =
     rbind (LookupKey_make s) (\<lambda>k. rbind (LookupKey_GetSequence k) (\<lambda>q.
       if slice_ok (LookupKey_UserKey k) then Inr (IKey (slice_content (LookupKey_UserKey k)) q)
       else Inl OutOfBounds))"

definition internal_ikey :: "slice \<Rightarrow> ikey res" where
  "internal_ikey s =
     rbind (ExtractUserKey s) (\<lambda>(uk, q).
       if slice_ok uk then Inr (IKey (slice_content uk) q) else Inl OutOfBounds)"

definition valid_mkey :: "slice \<Rightarrow> bool" where
  "valid_mkey s \<longleftrightarrow> \<not> isl (memtable_ikey s)"

definition mkey_rank :: "slice \<Rightarrow> ikey" where
  "mkey_rank s = projr (memtable_ikey s)"

definition valid_ikey :: "slice \<Rightarrow> bool" where
  "valid_ikey s \<longleftrightarrow> \<not> isl (internal_ikey s)"

definition ikey_rank :: "slice \<Rightarrow> ikey" where
  "ikey_rank s = projr (internal_ikey s)"

lemma order_cmp_IKey:
  "order_cmp (IKey u1 s1) (IKey u2 s2) =
     (let r = order_cmp u1 u2 in
      if r = 0 then (if s1 = s2 then 0 else if s1 > s2 then -1 else if s1 < s2 then 1 else r) else r)"
  by (auto simp: order_cmp_def less_ikey_def Let_def)

lemma not_isl_Inr: "\<not> isl r \<longleftrightarrow> (\<exists>x. r = Inr x)"
  by (cases r) auto

interpretation memtable_cmp: comparator MemtableKeyComparator_Compare valid_mkey mkey_rank
proof
  fix a b assume "valid_mkey a" "valid_mkey b"
  then obtain ka kb qa qb where
    "LookupKey_make a = Inr ka" "LookupKey_GetSequence ka = Inr qa" "slice_ok (LookupKey_UserKey ka)"
    "LookupKey_make b = Inr kb" "LookupKey_GetSequence kb = Inr qb" "slice_ok (LookupKey_UserKey kb)"
    by (auto simp: valid_mkey_def not_isl_Inr memtable_ikey_def split: if_splits)
  then show "MemtableKeyComparator_Compare a b = Inr (order_cmp (mkey_rank a) (mkey_rank b))"
    by (simp add: MemtableKeyComparator_Compare_def mkey_rank_def memtable_ikey_def Slice_Compare_content
        order_cmp_IKey Let_def)
qed

interpretation internal_cmp: comparator InternalKeyComparator_Compare valid_ikey ikey_rank
proof
  fix a b assume "valid_ikey a" "valid_ikey b"
  then obtain ua ub qa qb where
    "ExtractUserKey a = Inr (ua, qa)" "slice_ok ua" "ExtractUserKey b = Inr (ub, qb)" "slice_ok ub"
    by (auto simp: valid_ikey_def not_isl_Inr internal_ikey_def split: if_splits)
  then show "InternalKeyComparator_Compare a b = Inr (order_cmp (ikey_rank a) (ikey_rank b))"
    by (auto simp: InternalKeyComparator_Compare_def ikey_rank_def internal_ikey_def Slice_Compare_content
        order_cmp_IKey Let_def)
qed

section \<open>The layout of the keys\<close>

definition internal_bytes :: "bytes \<Rightarrow> u64 \<Rightarrow> bytes" where
  "internal_bytes uk tag = uk @ EncodeFixed64 tag"

abbreviation mkey_bytes :: "bytes \<Rightarrow> u64 \<Rightarrow> bytes \<Rightarrow> bytes" where
  "mkey_bytes uk tag v \<equiv> entry_bytes (internal_bytes uk tag) v"

definition mkey_slice :: "bytes \<Rightarrow> u64 \<Rightarrow> bytes \<Rightarrow> slice" where
  "mkey_slice uk tag v = Slice_buf (mkey_bytes uk tag v) (length (mkey_bytes uk tag v))"

text \<open>The bound under which no length or offset of the key exceeds 32 bits.\<close>

definition mkey_fits :: "bytes \<Rightarrow> bytes \<Rightarrow> bool" where
  "mkey_fits uk v \<longleftrightarrow> length uk + 18 < 2 ^ 32 \<and> length v < 2 ^ 32"

lemma length_internal_bytes [simp]: "length (internal_bytes uk tag) = length uk + 8"
  by (simp add: internal_bytes_def)

lemma mkey_fitsD:
  assumes "mkey_fits uk v"
  shows "length (internal_bytes uk tag) < 2 ^ 32" "length v < 2 ^ 32"
    "length (mkey_bytes uk tag v) < 2 ^ 64"
  using assms length_entry_bytes_le [of "internal_bytes uk tag" v] by (simp_all add: mkey_fits_def)

lemma CreateMemtableKey_layout:
  assumes "slice_ok uk" "slice_ok v"
  shows "CreateMemtableKey uk snapshot v ty =
           Inr (mkey_slice (slice_content uk) (make_tag snapshot ty) (slice_content v))"
proof -
  have "length (mkey_bytes (slice_content uk) (make_tag snapshot ty) (slice_content v)) \<le> sl_size uk + 8 + sl_size v + 10"
    using length_entry_bytes_le [of "internal_bytes (slice_content uk) (make_tag snapshot ty)" "slice_content v"]
      assms by simp
  then show ?thesis
    using assms
    by (simp add: CreateMemtableKey_def Let_def mkey_slice_def entry_bytes_def internal_bytes_def slice_okD
        ac_simps flip: slice_content_def)
qed

lemma CreateInternalKey_layout:
  "slice_ok uk \<Longrightarrow> CreateInternalKey uk snapshot ty =
     Inr (Slice_buf (internal_bytes (slice_content uk) (make_tag snapshot ty)) (sl_size uk + 8))"
  by (simp add: CreateInternalKey_def Let_def internal_bytes_def slice_okD flip: slice_content_def)

lemma make_tag_seq: "drop_bit 8 (make_tag q ty) = take_bit 56 q"
  by (rule bit_word_eqI) (cases ty; auto simp: make_tag_def bit_simps)

lemma make_tag_type: "make_tag q ty AND 0xff = ucast (KeyType_code ty)"
proof -
  have "make_tag q ty AND 0xff = take_bit 8 (make_tag q ty)"
    by (simp add: take_bit_eq_mask mask_eq_exp_minus_1)
  also have "\<dots> = ucast (KeyType_code ty)"
    by (rule bit_word_eqI) (cases ty; auto simp: make_tag_def bit_simps)
  finally show ?thesis .
qed

lemma LookupKey_make_mkey:
  assumes "mkey_fits uk v"
  shows "LookupKey_make (mkey_slice uk tag v) =
    Inr \<lparr>lk_data = mkey_bytes uk tag v, lk_size = length (mkey_bytes uk tag v),
      lk_kstart = word_of_nat (prefix_len (internal_bytes uk tag)),
      lk_kend = word_of_nat (prefix_len (internal_bytes uk tag)) + word_of_nat (length (internal_bytes uk tag)),
      lk_vstart = word_of_nat (prefix_len (internal_bytes uk tag) + length (internal_bytes uk tag) + prefix_len v)\<rparr>"
proof -
  define ik where "ik = internal_bytes uk tag"
  have b: "length ik < 2 ^ 32" "length v < 2 ^ 32" "length (entry_bytes ik v) < 2 ^ 64"
    using mkey_fitsD [OF assms] by (simp_all only: ik_def)
  have a: "unat (word_of_nat (length ik) :: u32) = length ik"
    by (rule unat_word_of_nat_32 [OF b(1)])
  note rd = GetVarint32_entry [of ik v _ "[]", simplified] GetVarint32_value [of v _ "[]", simplified]
  show ?thesis
    unfolding mkey_slice_def Slice_buf_def LookupKey_make_def ik_def [symmetric]
    using b by (simp add: Let_def rd a Slice_Advance_prefix length_entry_bytes)
qed


text \<open>The parts of a memtable key, read back through \<^verbatim>\<open>LookupKey\<close>.\<close>

lemma unat_lk_offsets:
  assumes "mkey_fits uk v"
  shows "unat (word_of_nat (prefix_len (internal_bytes uk tag)) :: u32) = prefix_len (internal_bytes uk tag)"
    "unat (word_of_nat (prefix_len (internal_bytes uk tag)) + word_of_nat (length (internal_bytes uk tag)) :: u32)
       = prefix_len (internal_bytes uk tag) + (length uk + 8)"
    "unat (word_of_nat (prefix_len (internal_bytes uk tag) + length (internal_bytes uk tag) + prefix_len v) :: u32)
       = prefix_len (internal_bytes uk tag) + (length uk + 8) + prefix_len v"
  using assms EncodeVarint32_le_5 [of "word_of_nat (length (internal_bytes uk tag))"]
    EncodeVarint32_le_5 [of "word_of_nat (length v)"]
  unfolding mkey_fits_def of_nat_add [symmetric] length_internal_bytes
  by (subst unat_word_of_nat_32; simp)+

lemma LookupKey_views:
  assumes "mkey_fits uk v" and k: "LookupKey_make (mkey_slice uk tag v) = Inr k"
  shows "slice_ok (LookupKey_UserKey k)" "slice_content (LookupKey_UserKey k) = uk"
    "LookupKey_tag k = Inr tag"
    "slice_ok (LookupKey_Value k)" "slice_content (LookupKey_Value k) = v"
proof -
  define p where "p = prefix_len (internal_bytes uk tag)"
  note off = unat_lk_offsets [OF assms(1), of tag, folded p_def]
  have b: "length (mkey_bytes uk tag v) < 2 ^ 64" by (rule mkey_fitsD [OF assms(1)])
  have lk: "lk_data k = mkey_bytes uk tag v" "lk_size k = length (mkey_bytes uk tag v)"
      "unat (lk_kstart k) = p" "unat (lk_kend k) = p + (length uk + 8)"
      "unat (lk_vstart k) = p + (length uk + 8) + prefix_len v"
      "lk_kend k - lk_kstart k - 8 = word_of_nat (length uk)"
    using k off unfolding LookupKey_make_mkey [OF assms(1)] p_def [symmetric] by auto
  have uk: "unat (word_of_nat (length uk) :: u32) = length uk"
    using assms(1) by (intro unat_word_of_nat_32) (simp add: mkey_fits_def)
  have bytes: "mkey_bytes uk tag v = EncodeVarint32 (word_of_nat (length (internal_bytes uk tag))) @ uk @
      EncodeFixed64 tag @ EncodeVarint32 (word_of_nat (length v)) @ v"
    by (simp only: entry_bytes_def internal_bytes_def append_assoc)
  have d1: "drop p (mkey_bytes uk tag v) = uk @ EncodeFixed64 tag @ EncodeVarint32 (word_of_nat (length v)) @ v"
    unfolding bytes p_def by simp
  have "drop (p + length uk) (mkey_bytes uk tag v) = drop (length uk) (drop p (mkey_bytes uk tag v))"
    by (simp only: drop_drop add.commute)
  then have d2: "drop (p + length uk) (mkey_bytes uk tag v) = EncodeFixed64 tag @ EncodeVarint32 (word_of_nat (length v)) @ v"
    by (simp add: d1)
  have "drop (p + (length uk + 8) + prefix_len v) (mkey_bytes uk tag v) =
      drop (8 + prefix_len v) (drop (p + length uk) (mkey_bytes uk tag v))"
    by (simp only: drop_drop ac_simps)
  then have d3: "drop (p + (length uk + 8) + prefix_len v) (mkey_bytes uk tag v) = v"
    by (simp add: d2)
  have l: "length (mkey_bytes uk tag v) = p + (length uk + 8) + prefix_len v + length v"
    unfolding length_entry_bytes p_def by simp
  show "slice_ok (LookupKey_UserKey k)" "slice_content (LookupKey_UserKey k) = uk"
    using assms(1) by (simp_all add: LookupKey_UserKey_def lk uk d1 Slice_buf_def slice_ok_def slice_content_def mkey_fits_def)
  show "LookupKey_tag k = Inr tag"
    by (simp add: LookupKey_tag_def lk add.assoc [symmetric] d2 DecodeFixed64_EncodeFixed64)
  show "slice_ok (LookupKey_Value k)" "slice_content (LookupKey_Value k) = v"
    using b unfolding LookupKey_Value_def lk d3 l Slice_buf_def slice_ok_def slice_content_def by simp_all
qed

lemma memtable_ikey_mkey [simp]:
  "mkey_fits uk v \<Longrightarrow> memtable_ikey (mkey_slice uk tag v) = Inr (IKey uk (drop_bit 8 tag))"
  using LookupKey_views [of uk v tag] LookupKey_make_mkey [of uk v tag]
  by (simp add: memtable_ikey_def LookupKey_GetSequence_def)

lemma valid_mkey_mkey [simp]: "mkey_fits uk v \<Longrightarrow> valid_mkey (mkey_slice uk tag v)"
  by (simp add: valid_mkey_def)

lemma mkey_rank_mkey [simp]: "mkey_fits uk v \<Longrightarrow> mkey_rank (mkey_slice uk tag v) = IKey uk (drop_bit 8 tag)"
  by (simp add: mkey_rank_def)

lemma ExtractUserKey_internal:
  assumes "sl_mem s = internal_bytes uk tag @ rest" "sl_size s = length uk + 8"
  shows "ExtractUserKey s = Inr (Slice_buf (sl_mem s) (length uk), drop_bit 8 tag)"
  using assms by (simp add: ExtractUserKey_def Let_def Slice_buf_def internal_bytes_def DecodeFixed64_EncodeFixed64)

lemma internal_ikey_bytes:
  assumes "sl_mem s = internal_bytes uk tag @ rest" "sl_size s = length uk + 8" "length uk < 2 ^ 64"
  shows "internal_ikey s = Inr (IKey uk (drop_bit 8 tag))"
  using assms unfolding internal_ikey_def ExtractUserKey_internal [OF assms(1,2)]
  by (simp add: Slice_buf_def slice_ok_def slice_content_def internal_bytes_def)

lemma ExtractInternalKey_mkey:
  assumes "mkey_fits uk v"
  shows "ExtractInternalKey (mkey_slice uk tag v) =
     Inr (Slice_buf (internal_bytes uk tag @ EncodeVarint32 (word_of_nat (length v)) @ v) (length uk + 8))"
proof -
  define ik where "ik = internal_bytes uk tag"
  have b: "length ik < 2 ^ 32" "length v < 2 ^ 32" "length (entry_bytes ik v) < 2 ^ 64"
    using mkey_fitsD [OF assms] by (simp_all only: ik_def)
  have a: "unat (word_of_nat (length ik) :: u32) = length ik"
    by (rule unat_word_of_nat_32 [OF b(1)])
  have l: "length uk + 8 = length ik" by (simp add: ik_def)
  show ?thesis
    unfolding mkey_slice_def Slice_buf_def ExtractInternalKey_def ik_def [symmetric] l
    using b by (simp add: GetVarint32_entry [of ik v _ "[]", simplified] a GetFixedBytes_def length_entry_bytes Slice_buf_def)
qed

lemma ExtractValueFromMemtable_mkey:
  assumes "mkey_fits uk v"
  shows "ExtractValueFromMemtable (mkey_slice uk tag v) = Inr v"
proof -
  define ik where "ik = internal_bytes uk tag"
  have b: "length ik < 2 ^ 32" "length v < 2 ^ 32" "length (entry_bytes ik v) < 2 ^ 64"
    using mkey_fitsD [OF assms] by (simp_all only: ik_def)
  have a: "unat (word_of_nat (length ik) :: u32) = length ik" "unat (word_of_nat (length v) :: u32) = length v"
    by (rule unat_word_of_nat_32 [OF b(1)], rule unat_word_of_nat_32 [OF b(2)])
  note rd = GetVarint32_entry [of ik v _ "[]", simplified] GetVarint32_value [of v _ "[]", simplified]
  show ?thesis
    unfolding mkey_slice_def Slice_buf_def ExtractValueFromMemtable_def ik_def [symmetric]
    using b by (simp add: rd a Slice_Advance_prefix length_entry_bytes)
qed

section \<open>The skip list of memtable keys\<close>

lemma SkipList_Insert_keys:
  assumes "sk_ok valid_mkey mkey_rank sl" "valid_mkey k"
  obtains r' sl' where "SkipList_Insert rand MemtableKeyComparator_Compare k r sl = Inr (r', sl')"
    "sk_ok valid_mkey mkey_rank sl'" "sk_keys sl' = insert_before mkey_rank k (sk_keys sl)"
proof -
  obtain h r' where h: "RandomHeight rand r = (h, r')" by fastforce
  then have "1 \<le> h" "h \<le> kSkipListNodeMaxLevel" using RandomHeight_bounds [of rand r] by simp_all
  from memtable_cmp.table.insert_keys [OF assms this] that h show thesis
    by (auto simp: SkipList_Insert_def)
qed

section \<open>Properties\<close>

text \<open>C28: whatever height the random source gives, \<^verbatim>\<open>SkipList::Insert\<close> returns, keeps the
  structure of the list (every level a sublist of the level below, sorted, within the maximal
  height) and adds exactly the new key, in front of the keys that are not smaller.\<close>

theorem skiplist_insert:
  assumes "sk_ok valid_mkey mkey_rank sl" "valid_mkey k"
  shows "\<exists>r' sl'. SkipList_Insert rand MemtableKeyComparator_Compare k r sl = Inr (r', sl') \<and>
    sk_ok valid_mkey mkey_rank sl' \<and> sk_keys sl' = insert_before mkey_rank k (sk_keys sl) \<and>
    sorted (map mkey_rank (sk_keys sl')) \<and> set (sk_keys sl') = insert k (set (sk_keys sl))"
proof -
  obtain r' sl' where s: "SkipList_Insert rand MemtableKeyComparator_Compare k r sl = Inr (r', sl')"
    "sk_ok valid_mkey mkey_rank sl'" "sk_keys sl' = insert_before mkey_rank k (sk_keys sl)"
    by (rule SkipList_Insert_keys [OF assms])
  then show ?thesis using memtable_cmp.table.keys_sorted [OF s(2)] by auto
qed

theorem skiplist_insert_witness:
  "\<exists>r' sl'. SkipList_Insert (\<lambda>n. (n, n + 1)) MemtableKeyComparator_Compare (mkey_slice [97] 257 [98]) (3::nat)
      SkipList_make = Inr (r', sl') \<and>
    sk_ok valid_mkey mkey_rank sl' \<and>
    sk_keys sl' = insert_before mkey_rank (mkey_slice [97] 257 [98]) (sk_keys SkipList_make) \<and>
    sorted (map mkey_rank (sk_keys sl')) \<and>
    set (sk_keys sl') = insert (mkey_slice [97] 257 [98]) (set (sk_keys SkipList_make))"
  by (rule skiplist_insert) (simp_all add: SkipList_make_ok mkey_fits_def)

text \<open>C29: \<^verbatim>\<open>SkipList::FindFirstGreaterOrEqual\<close> returns without error: nothing exactly when every
  key of the list is smaller than the key looked up, else a key of the list of the least rank that
  is not smaller.\<close>

theorem skiplist_find:
  assumes "sk_ok valid_mkey mkey_rank sl" "valid_mkey k"
  shows "(\<forall>x\<in>set (sk_keys sl). mkey_rank x < mkey_rank k) \<and>
      FindFirstGreaterOrEqual MemtableKeyComparator_Compare k sl = Inr None \<or>
    (\<exists>y\<in>set (sk_keys sl). FindFirstGreaterOrEqual MemtableKeyComparator_Compare k sl = Inr (Some y) \<and>
      mkey_rank k \<le> mkey_rank y \<and>
      (\<forall>x\<in>set (sk_keys sl). mkey_rank k \<le> mkey_rank x \<longrightarrow> mkey_rank y \<le> mkey_rank x))"
proof (cases "\<forall>x\<in>set (sk_keys sl). mkey_rank x < mkey_rank k")
  case True
  then show ?thesis using memtable_cmp.table.lookup_None [OF assms] by blast
next
  case False
  define R where "R = {mkey_rank x | x. x \<in> set (sk_keys sl) \<and> mkey_rank k \<le> mkey_rank x}"
  have "finite R" "R \<noteq> {}" using False by (auto simp: R_def not_less)
  then have "Min R \<in> R" "\<forall>r\<in>R. Min R \<le> r" by simp_all
  then obtain x where x: "x \<in> set (sk_keys sl)" "mkey_rank k \<le> mkey_rank x"
    "\<And>y. y \<in> set (sk_keys sl) \<Longrightarrow> mkey_rank k \<le> mkey_rank y \<Longrightarrow> mkey_rank x \<le> mkey_rank y"
    unfolding R_def by (smt (verit) mem_Collect_eq)
  then show ?thesis using memtable_cmp.table.lookup_least [OF assms x] by auto
qed

theorem skiplist_find_witness:
  "let k = mkey_slice [97] 257 [98]; q = mkey_slice [97] (make_tag 9 kTypeSeek) [] in
   \<exists>r' sl'. SkipList_Insert (\<lambda>n. (n, n + 1)) MemtableKeyComparator_Compare k (3::nat) SkipList_make = Inr (r', sl') \<and>
     FindFirstGreaterOrEqual MemtableKeyComparator_Compare q sl' = Inr (Some k)"
proof -
  let ?k = "mkey_slice [97] 257 [98]" and ?q = "mkey_slice [97] (make_tag 9 kTypeSeek) []"
  have v: "valid_mkey ?k" "valid_mkey ?q" by (simp_all add: mkey_fits_def)
  obtain r' sl' where s: "SkipList_Insert (\<lambda>n. (n, n + 1)) MemtableKeyComparator_Compare ?k (3::nat) SkipList_make = Inr (r', sl')"
    "sk_ok valid_mkey mkey_rank sl'" "sk_keys sl' = insert_before mkey_rank ?k (sk_keys SkipList_make)"
    by (rule SkipList_Insert_keys [OF SkipList_make_ok(1) v(1)])
  have "\<not> mkey_rank ?k < mkey_rank ?q"
    by (simp add: mkey_fits_def less_ikey_def make_tag_seq take_bit_eq_mod)
  then show ?thesis
    using s skiplist_find [OF s(2) v(2)] by (auto simp: insert_before_def SkipList_make_ok Let_def)
qed

text \<open>A memtable key built by \<^verbatim>\<open>CreateMemtableKey\<close> is taken apart again by \<^verbatim>\<open>LookupKey\<close> into the
  same user key, the sequence number (its low 56 bits), the key type and the value.\<close>

theorem memtable_key_roundtrip:
  assumes "slice_ok uk" "slice_ok v" "mkey_fits (slice_content uk) (slice_content v)"
  shows "\<exists>mk k. CreateMemtableKey uk seq v ty = Inr mk \<and> LookupKey_make mk = Inr k \<and>
    slice_content (LookupKey_UserKey k) = slice_content uk \<and>
    LookupKey_GetSequence k = Inr (take_bit 56 seq) \<and> LookupKey_GetKeyType k = Inr ty \<and>
    slice_content (LookupKey_Value k) = slice_content v"
proof -
  obtain k where k: "LookupKey_make (mkey_slice (slice_content uk) (make_tag seq ty) (slice_content v)) = Inr k"
    using LookupKey_make_mkey [OF assms(3)] by blast
  then show ?thesis
    using LookupKey_views [OF assms(3) k] assms(1,2)
    by (cases ty) (auto simp: CreateMemtableKey_layout LookupKey_GetSequence_def LookupKey_GetKeyType_def
        make_tag_seq make_tag_type Let_def)
qed

theorem memtable_key_roundtrip_witness:
  "\<exists>mk k. CreateMemtableKey (Slice_string [97, 0]) 7 (Slice_string [98]) kTypeDeletion = Inr mk \<and> LookupKey_make mk = Inr k \<and>
    slice_content (LookupKey_UserKey k) = slice_content (Slice_string [97, 0]) \<and>
    LookupKey_GetSequence k = Inr (take_bit 56 7) \<and> LookupKey_GetKeyType k = Inr kTypeDeletion \<and>
    slice_content (LookupKey_Value k) = slice_content (Slice_string [98])"
  by (rule memtable_key_roundtrip) (simp_all add: mkey_fits_def)

text \<open>C30: on memtable keys, \<^verbatim>\<open>MemtableKeyComparator\<close> and, on the internal keys inside of them,
  \<^verbatim>\<open>InternalKeyComparator\<close> give the same answer: the order of the user keys, then of descending
  sequence numbers. So a memtable and the tables flushed from it are sorted alike.\<close>

theorem comparators_agree:
  assumes "mkey_fits u v" "mkey_fits u' v'"
  shows "\<exists>i i'. ExtractInternalKey (mkey_slice u t v) = Inr i \<and> ExtractInternalKey (mkey_slice u' t' v') = Inr i' \<and>
    MemtableKeyComparator_Compare (mkey_slice u t v) (mkey_slice u' t' v') = InternalKeyComparator_Compare i i' \<and>
    InternalKeyComparator_Compare i i' = Inr (order_cmp (IKey u (drop_bit 8 t)) (IKey u' (drop_bit 8 t')))"
proof -
  let ?i = "\<lambda>u t v. Slice_buf (internal_bytes u t @ EncodeVarint32 (word_of_nat (length v)) @ v) (length u + 8)"
  have r: "internal_ikey (?i u t v) = Inr (IKey u (drop_bit 8 t))" if "mkey_fits u v" for u t v
    using that by (intro internal_ikey_bytes) (simp_all add: Slice_buf_def mkey_fits_def)
  then have "valid_ikey (?i u t v)" "ikey_rank (?i u t v) = IKey u (drop_bit 8 t)" if "mkey_fits u v" for u t v
    using that by (simp_all add: valid_ikey_def ikey_rank_def)
  then show ?thesis
    using assms by (simp add: ExtractInternalKey_mkey memtable_cmp.cmp_rank internal_cmp.cmp_rank)
qed

theorem comparators_agree_witness:
  "\<exists>i i'. ExtractInternalKey (mkey_slice [97] 257 [1]) = Inr i \<and> ExtractInternalKey (mkey_slice [97] 513 []) = Inr i' \<and>
    MemtableKeyComparator_Compare (mkey_slice [97] 257 [1]) (mkey_slice [97] 513 []) = InternalKeyComparator_Compare i i' \<and>
    InternalKeyComparator_Compare i i' = Inr (order_cmp (IKey [97] (drop_bit 8 257)) (IKey [97] (drop_bit 8 513)))"
  by (rule comparators_agree) (simp_all add: mkey_fits_def)

text \<open>The three-argument constructor of \<^verbatim>\<open>InternalKey\<close> does not give the internal key of
  \<^verbatim>\<open>CreateInternalKey\<close>: it appends the decimal digits of the tag, not its eight bytes.\<close>

theorem InternalKey_make_digits:
  "InternalKey_make (Slice_string [97]) 1 kTypeValue = Inr \<lparr>ik_rep = [97, 50, 53, 55]\<rparr> \<and>
   CreateInternalKey (Slice_string [97]) 1 kTypeValue = Inr (Slice_buf [97, 1, 1, 0, 0, 0, 0, 0, 0] 9)"
proof -
  have "unat (make_tag 1 kTypeValue) = 257" by code_simp
  then have "std_to_string (unat (make_tag 1 kTypeValue)) = [50, 53, 55]"
    by (simp add: std_to_string.simps)
  moreover have "EncodeFixed64 (make_tag 1 kTypeValue) = [1, 1, 0, 0, 0, 0, 0, 0]" by code_simp
  ultimately show ?thesis
    by (simp add: InternalKey_make_def CreateInternalKey_layout internal_bytes_def)
qed

end
