(* ===== verification/Formats.thy ===== *)
theory Formats
  imports Files Keys
begin

text \<open>
  \<^verbatim>\<open>disk/format.h\<close>: block handles, the footer of a table and the metadata of a table file, with the
  coding of \<^verbatim>\<open>FileMeta\<close> in \<^verbatim>\<open>disk/sstable.cc\<close>.
\<close>

section \<open>Block handles\<close>

record BlockHandle =
  bh_offset :: u64
  bh_size :: u64

definition BlockHandle_make :: BlockHandle where
  "BlockHandle_make = \<lparr>bh_offset = NOT 0, bh_size = NOT 0\<rparr>"

definition BlockHandle_EncodeTo :: "BlockHandle \<Rightarrow> bytes \<Rightarrow> bytes res" where
  "BlockHandle_EncodeTo h dst =
     rbind (assert_that (bh_offset h \<noteq> NOT 0)) (\<lambda>_.
     rbind (assert_that (bh_size h \<noteq> NOT 0)) (\<lambda>_.
     rbind (PutVarint64 dst (bh_offset h)) (\<lambda>dst. PutVarint64 dst (bh_size h))))"

text \<open>A failed decoding may have set the offset and moved the input.\<close>

definition BlockHandle_DecodeFrom :: "slice \<Rightarrow> BlockHandle \<Rightarrow> (Status \<times> BlockHandle \<times> slice) res" where
  "BlockHandle_DecodeFrom input h =
     (let corruption = (\<lambda>h input. rbind (Slice_cstr (string_data (ascii ''bad block handle''))) (\<lambda>msg.
        rbind (Status_Corruption msg Slice_default) (\<lambda>s. Inr (s, h, input)))) in
      rbind (GetVarint64 input) (\<lambda>r. case r of
        None \<Rightarrow> corruption h input
      | Some (offset, input) \<Rightarrow>
          let h = h\<lparr>bh_offset := offset\<rparr> in
          rbind (GetVarint64 input) (\<lambda>r. case r of
            None \<Rightarrow> corruption h input
          | Some (sz, input) \<Rightarrow> Inr (Status_OK, h\<lparr>bh_size := sz\<rparr>, input))))"

section \<open>The footer\<close>

definition kFixedFooterSize :: nat where
  "kFixedFooterSize = 40"

record Footer =
  ft_index :: BlockHandle
  ft_filter :: BlockHandle

definition Footer_make :: Footer where
  "Footer_make = \<lparr>ft_index = BlockHandle_make, ft_filter = BlockHandle_make\<rparr>"

definition Footer_set_index :: "BlockHandle \<Rightarrow> Footer \<Rightarrow> Footer" where
  "Footer_set_index h f = f\<lparr>ft_index := h\<rparr>"

definition Footer_set_filter :: "BlockHandle \<Rightarrow> Footer \<Rightarrow> Footer" where
  "Footer_set_filter h f = f\<lparr>ft_filter := h\<rparr>"

text \<open>A negative padding would be an invalid length for \<^verbatim>\<open>append\<close>.\<close>

definition Footer_EncodeTo :: "Footer \<Rightarrow> bytes \<Rightarrow> bytes res" where
  "Footer_EncodeTo f dst =
     (let begin = length dst in
      rbind (BlockHandle_EncodeTo (ft_index f) dst) (\<lambda>dst.
      rbind (BlockHandle_EncodeTo (ft_filter f) dst) (\<lambda>dst.
        if length dst - begin \<le> kFixedFooterSize
        then Inr (dst @ replicate (kFixedFooterSize - (length dst - begin)) 0)
        else Inl OutOfBounds)))"

definition Footer_DecodeFrom :: "slice \<Rightarrow> Footer \<Rightarrow> (Status \<times> Footer \<times> slice) res" where
  "Footer_DecodeFrom input f =
     rbind (BlockHandle_DecodeFrom input (ft_index f)) (\<lambda>(s, h, input).
     let f = f\<lparr>ft_index := h\<rparr> in
     if \<not> Status_ok s then Inr (s, f, input)
     else rbind (BlockHandle_DecodeFrom input (ft_filter f)) (\<lambda>(s, h, input).
       Inr (s, f\<lparr>ft_filter := h\<rparr>, input)))"

section \<open>The metadata of a table file\<close>

record FileMeta =
  fm_file_size :: u64
  fm_number :: u64
  fm_smallest_key :: InternalKey
  fm_largest_key :: InternalKey

definition FileMeta_make :: FileMeta where
  "FileMeta_make = \<lparr>fm_file_size = 0, fm_number = 0, fm_smallest_key = \<lparr>ik_rep = []\<rparr>, fm_largest_key = \<lparr>ik_rep = []\<rparr>\<rparr>"

text \<open>The results of \<^verbatim>\<open>Append\<close> and \<^verbatim>\<open>Flush\<close> are not looked at.\<close>

definition EncodeFileMeta :: "'w posix \<Rightarrow> FileMeta \<Rightarrow> WritableFile \<Rightarrow> 'w \<Rightarrow> (WritableFile \<times> 'w) res" where
  "EncodeFileMeta os m f w =
     (let smallest = InternalKey_ToSlice (fm_smallest_key m); largest = InternalKey_ToSlice (fm_largest_key m) in
      rbind (PutVarint64 [] (fm_file_size m)) (\<lambda>rep.
      rbind (PutVarint64 rep (fm_number m)) (\<lambda>rep.
      rbind (PutVarint64 rep (word_of_nat (sl_size smallest))) (\<lambda>rep.
      rbind (read_mem (sl_mem smallest) (sl_size smallest)) (\<lambda>d.
      rbind (PutVarint64 (rep @ d) (word_of_nat (sl_size largest))) (\<lambda>rep.
      rbind (read_mem (sl_mem largest) (sl_size largest)) (\<lambda>d.
      let rep = rep @ d in
      rbind (WritableFile_Append os (Slice_buf (string_data rep) (length rep)) f w) (\<lambda>(_, f, w).
      rbind (WritableFile_Flush os f w) (\<lambda>(_, f, w).
        Inr (f, w))))))))))"

text \<open>
  The results of \<^verbatim>\<open>GetVarint64\<close> are not looked at: the numbers of the new \<^verbatim>\<open>FileMeta\<close> stay zero, while
  the lengths of the keys are then read without having been set.
\<close>

definition get_or :: "u64 \<Rightarrow> slice \<Rightarrow> (u64 \<times> slice) res" where
  "get_or dflt s = rbind (GetVarint64 s) (\<lambda>r. case r of None \<Rightarrow> Inr (dflt, s) | Some p \<Rightarrow> Inr p)"

definition get_key :: "slice \<Rightarrow> (InternalKey \<times> slice) res" where
  "get_key s =
     rbind (GetVarint64 s) (\<lambda>r. case r of
       None \<Rightarrow> Inl UninitRead
     | Some (len, s) \<Rightarrow>
         rbind (TransToInternalKey (Slice_buf (sl_mem s) (unat len))) (\<lambda>key.
         rbind (Slice_Advance s (unat len)) (\<lambda>s. Inr (key, s))))"

definition DecodeFileMeta :: "slice \<Rightarrow> (FileMeta \<times> slice) res" where
  "DecodeFileMeta s =
     rbind (get_or 0 s) (\<lambda>(file_size, s).
     rbind (get_or 0 s) (\<lambda>(number, s).
     rbind (get_key s) (\<lambda>(smallest, s).
     rbind (get_key s) (\<lambda>(largest, s).
       Inr (\<lparr>fm_file_size = file_size, fm_number = number, fm_smallest_key = smallest,
             fm_largest_key = largest\<rparr>, s)))))"

section \<open>Round trips\<close>

definition handle_bytes :: "BlockHandle \<Rightarrow> bytes" where
  "handle_bytes h = EncodeVarint64 (bh_offset h) @ EncodeVarint64 (bh_size h)"

definition handle_set :: "BlockHandle \<Rightarrow> bool" where
  "handle_set h \<longleftrightarrow> bh_offset h \<noteq> NOT 0 \<and> bh_size h \<noteq> NOT 0"

lemma handle_bytes_le: "length (handle_bytes h) \<le> 20"
  using EncodeVarint64_le_10 [of "bh_offset h"] EncodeVarint64_le_10 [of "bh_size h"] by (simp add: handle_bytes_def)

lemma BlockHandle_EncodeTo_bytes:
  "BlockHandle_EncodeTo h dst = (if handle_set h then Inr (dst @ handle_bytes h) else Inl AssertFail)"
  by (cases "bh_offset h = NOT 0") (auto simp: BlockHandle_EncodeTo_def handle_set_def handle_bytes_def PutVarint64_append)

lemma BlockHandle_DecodeFrom_bytes:
  assumes "sl_mem s = handle_bytes h @ rest" "length (handle_bytes h) \<le> sl_size s"
  shows "BlockHandle_DecodeFrom s h0 = Inr (Status_OK, h, \<lparr>sl_mem = rest, sl_size = sl_size s - length (handle_bytes h)\<rparr>)"
proof -
  have "GetVarint64 s = Inr (Some (bh_offset h, \<lparr>sl_mem = EncodeVarint64 (bh_size h) @ rest,
      sl_size = sl_size s - length (EncodeVarint64 (bh_offset h))\<rparr>))"
    using assms by (intro GetVarint64_slice) (simp_all add: handle_bytes_def)
  moreover have "GetVarint64 \<lparr>sl_mem = EncodeVarint64 (bh_size h) @ rest, sl_size = sl_size s - length (EncodeVarint64 (bh_offset h))\<rparr> =
      Inr (Some (bh_size h, \<lparr>sl_mem = rest, sl_size = sl_size s - length (handle_bytes h)\<rparr>))"
    using assms(2) by (subst GetVarint64_slice [where rest = rest]) (simp_all add: handle_bytes_def)
  ultimately show ?thesis by (simp add: BlockHandle_DecodeFrom_def Let_def)
qed

text \<open>The forty bytes of a footer.\<close>

definition footer_bytes :: "Footer \<Rightarrow> bytes" where
  "footer_bytes f =
     (let b = handle_bytes (ft_index f) @ handle_bytes (ft_filter f) in b @ replicate (kFixedFooterSize - length b) 0)"

lemma length_footer_bytes [simp]: "length (footer_bytes f) = kFixedFooterSize"
  using handle_bytes_le [of "ft_index f"] handle_bytes_le [of "ft_filter f"]
  by (simp add: footer_bytes_def Let_def kFixedFooterSize_def)

lemma Footer_EncodeTo_bytes:
  "handle_set (ft_index f) \<Longrightarrow> handle_set (ft_filter f) \<Longrightarrow> Footer_EncodeTo f dst = Inr (dst @ footer_bytes f)"
  using handle_bytes_le [of "ft_index f"] handle_bytes_le [of "ft_filter f"]
  by (simp add: Footer_EncodeTo_def BlockHandle_EncodeTo_bytes footer_bytes_def Let_def kFixedFooterSize_def)

lemma Footer_DecodeFrom_bytes:
  assumes "sl_mem s = handle_bytes (ft_index f) @ handle_bytes (ft_filter f) @ rest"
    "length (handle_bytes (ft_index f)) + length (handle_bytes (ft_filter f)) \<le> sl_size s"
  shows "\<exists>s'. Footer_DecodeFrom s f0 = Inr (Status_OK, f, s')"
  using BlockHandle_DecodeFrom_bytes [of s "ft_index f" "handle_bytes (ft_filter f) @ rest" "ft_index f0"] assms
    BlockHandle_DecodeFrom_bytes [of "\<lparr>sl_mem = handle_bytes (ft_filter f) @ rest, sl_size = sl_size s - length (handle_bytes (ft_index f))\<rparr>"
      "ft_filter f" rest "ft_filter f0"]
  by (simp add: Footer_DecodeFrom_def)

definition file_meta_bytes :: "FileMeta \<Rightarrow> bytes" where
  "file_meta_bytes m =
     EncodeVarint64 (fm_file_size m) @ EncodeVarint64 (fm_number m) @
     EncodeVarint64 (word_of_nat (length (ik_rep (fm_smallest_key m)))) @ ik_rep (fm_smallest_key m) @
     EncodeVarint64 (word_of_nat (length (ik_rep (fm_largest_key m)))) @ ik_rep (fm_largest_key m)"

lemma unat_word_of_nat_64 [simp]: "n < 2 ^ 64 \<Longrightarrow> unat (word_of_nat n :: u64) = n"
  by (simp add: unat_of_nat)

lemma get_or_bytes:
  "length (EncodeVarint64 v) \<le> n \<Longrightarrow>
     get_or d \<lparr>sl_mem = EncodeVarint64 v @ rest, sl_size = n\<rparr> =
       Inr (v, \<lparr>sl_mem = rest, sl_size = n - length (EncodeVarint64 v)\<rparr>)"
  by (simp add: get_or_def GetVarint64_slice)

lemma get_key_bytes:
  assumes "length (EncodeVarint64 (word_of_nat (length k))) + length k \<le> n" "n < 2 ^ 64"
  shows "get_key \<lparr>sl_mem = EncodeVarint64 (word_of_nat (length k)) @ k @ rest, sl_size = n\<rparr> =
    Inr (\<lparr>ik_rep = k\<rparr>, \<lparr>sl_mem = rest, sl_size = n - length (EncodeVarint64 (word_of_nat (length k))) - length k\<rparr>)"
  using assms by (simp add: get_key_def GetVarint64_slice TransToInternalKey_def Slice_ToString_def Slice_buf_def
      InternalKey_of_string_def Slice_Advance_prefix)

lemma DecodeFileMeta_bytes:
  assumes "length (file_meta_bytes m) \<le> n" "n < 2 ^ 64"
  shows "DecodeFileMeta \<lparr>sl_mem = file_meta_bytes m @ rest, sl_size = n\<rparr> =
    Inr (m, \<lparr>sl_mem = rest, sl_size = n - length (file_meta_bytes m)\<rparr>)"
  using assms by (simp add: DecodeFileMeta_def file_meta_bytes_def get_or_bytes get_key_bytes)

lemma EncodeFileMeta_bytes:
  assumes io: "io_ok os written (wf_filename f) m'" and f: "wf_ok f" and sz: "length (file_meta_bytes m) \<le> m'" "length (file_meta_bytes m) < 2 ^ 64"
  shows "\<exists>s f1 w1 s2 f2 w2. EncodeFileMeta os m f w = Inr (f2, w2) \<and>
    WritableFile_Append os (Slice_string (file_meta_bytes m)) f w = Inr (s, f1, w1) \<and>
    WritableFile_Flush os f1 w1 = Inr (s2, f2, w2)"
proof -
  have c: "sl_size (Slice_string (file_meta_bytes m)) \<le> m'" "slice_ok (Slice_string (file_meta_bytes m))" using sz by simp_all
  obtain s f1 w1 where ap: "WritableFile_Append os (Slice_string (file_meta_bytes m)) f w = Inr (s, f1, w1)"
    using Append_returns [OF io c(1) f c(2)] by blast
  have f1: "wf_ok f1" "wf_filename f1 = wf_filename f"
    using Append_stream [OF io_okD(1) [OF io] f c(2) ap] by (simp_all add: wf_after_def)
  obtain s2 f2 w2 where fl: "WritableFile_Flush os f1 w1 = Inr (s2, f2, w2)"
    using Flush_returns [of os written f1 m' w1] io f1 by auto
  have "Slice_buf (string_data (file_meta_bytes m)) (length (file_meta_bytes m)) = Slice_string (file_meta_bytes m)"
    by (simp add: Slice_buf_def Slice_string_def)
  then have "EncodeFileMeta os m f w = Inr (f2, w2)"
    using ap fl by (simp add: EncodeFileMeta_def Let_def PutVarint64_append InternalKey_ToSlice_def Slice_string_def
        string_data_def file_meta_bytes_def Slice_buf_def add.assoc)
  then show ?thesis using ap fl by blast
qed

section \<open>Properties\<close>

text \<open>A footer with both handles set is encoded in exactly 40 bytes, and decoding the handles' bytes
  (the padding does not matter) gives the same footer; a handle that was never set makes the
  encoding stop at an assertion.\<close>

theorem footer_roundtrip:
  assumes "handle_set (ft_index f)" "handle_set (ft_filter f)"
  shows "\<exists>enc s'. Footer_EncodeTo f dst = Inr (dst @ enc) \<and> length enc = kFixedFooterSize \<and>
    Footer_DecodeFrom (Slice_buf (enc @ rest) kFixedFooterSize) f0 = Inr (Status_OK, f, s') \<and>
    Footer_EncodeTo (f\<lparr>ft_index := BlockHandle_make\<rparr>) dst = Inl AssertFail"
proof -
  have "sl_mem (Slice_buf (footer_bytes f @ rest) kFixedFooterSize) = handle_bytes (ft_index f) @ handle_bytes (ft_filter f) @
      replicate (kFixedFooterSize - length (handle_bytes (ft_index f) @ handle_bytes (ft_filter f))) 0 @ rest"
    by (simp add: Slice_buf_def footer_bytes_def Let_def)
  from Footer_DecodeFrom_bytes [OF this, of f0]
  have "\<exists>s'. Footer_DecodeFrom (Slice_buf (footer_bytes f @ rest) kFixedFooterSize) f0 = Inr (Status_OK, f, s')"
    using handle_bytes_le [of "ft_index f"] handle_bytes_le [of "ft_filter f"] by (simp add: Slice_buf_def kFixedFooterSize_def)
  moreover have "Footer_EncodeTo (f\<lparr>ft_index := BlockHandle_make\<rparr>) dst = Inl AssertFail"
    by (simp add: Footer_EncodeTo_def BlockHandle_EncodeTo_bytes handle_set_def BlockHandle_make_def Let_def)
  ultimately show ?thesis using Footer_EncodeTo_bytes [OF assms] by auto
qed

theorem footer_roundtrip_witness:
  "let f = \<lparr>ft_index = \<lparr>bh_offset = 300, bh_size = 20\<rparr>, ft_filter = \<lparr>bh_offset = 200, bh_size = 100\<rparr>\<rparr> in
   \<exists>enc s'. Footer_EncodeTo f [] = Inr ([] @ enc) \<and> length enc = kFixedFooterSize \<and>
    Footer_DecodeFrom (Slice_buf (enc @ []) kFixedFooterSize) Footer_make = Inr (Status_OK, f, s') \<and>
    Footer_EncodeTo (f\<lparr>ft_index := BlockHandle_make\<rparr>) [] = Inl AssertFail"
  unfolding Let_def by (rule footer_roundtrip) (simp_all add: handle_set_def)

text \<open>The metadata of a table file that \<^verbatim>\<open>EncodeFileMeta\<close> appends to the manifest is read back by
  \<^verbatim>\<open>DecodeFileMeta\<close>, which leaves the slice at the bytes that follow: when appending and flushing
  succeed, the bytes written to the file are those that decode to the same metadata.\<close>

theorem file_meta_roundtrip:
  assumes io: "io_ok os written (wf_filename f) n" and f: "wf_ok f"
    and sz: "length (file_meta_bytes m) \<le> n" "length (file_meta_bytes m) + length rest < 2 ^ 64"
  shows "\<exists>enc f' w' s1 f1 w1 s2. EncodeFileMeta os m f w = Inr (f', w') \<and>
    WritableFile_Append os (Slice_string enc) f w = Inr (s1, f1, w1) \<and> WritableFile_Flush os f1 w1 = Inr (s2, f', w') \<and>
    (Status_ok s1 \<and> Status_ok s2 \<longrightarrow> stream written f' w' = stream written f w @ enc) \<and>
    DecodeFileMeta (Slice_string (enc @ rest)) = Inr (m, Slice_string rest)"
proof -
  let ?enc = "file_meta_bytes m"
  have l: "length ?enc < 2 ^ 64" using sz(2) by simp
  obtain s1 f1 w1 s2 f' w' where run: "EncodeFileMeta os m f w = Inr (f', w')"
    "WritableFile_Append os (Slice_string ?enc) f w = Inr (s1, f1, w1)" "WritableFile_Flush os f1 w1 = Inr (s2, f', w')"
    using EncodeFileMeta_bytes [OF io f sz(1) l, of w] by blast
  have a: "wf_after written f (stream written f w @ ?enc) (s1, f1, w1)"
    using Append_stream [OF io_okD(1) [OF io] f _ run(2)] l by simp
  then have "wf_after written f1 (stream written f1 w1) (s2, f', w')"
    using Flush_stream(2) [OF io_okD(1) [OF io] _ run(3)] by (simp add: wf_after_def)
  then have "Status_ok s1 \<and> Status_ok s2 \<longrightarrow> stream written f' w' = stream written f w @ ?enc"
    using a by (simp add: wf_after_def)
  moreover have "DecodeFileMeta (Slice_string (?enc @ rest)) = Inr (m, Slice_string rest)"
    using DecodeFileMeta_bytes [of m "length ?enc + length rest" "rest @ [0]"] sz(2) by (simp add: Slice_string_def string_data_def)
  ultimately show ?thesis using run by blast
qed

theorem file_meta_roundtrip_witness:
  "let m = \<lparr>fm_file_size = 300, fm_number = 1, fm_smallest_key = \<lparr>ik_rep = internal_bytes [97] 257\<rparr>, fm_largest_key = \<lparr>ik_rep = internal_bytes [98] 513\<rparr>\<rparr>;
       f = WritableFile_make 3 [109] (replicate kWritableFileBuffer 0) in
   \<exists>enc f' w' s1 f1 w1 s2. EncodeFileMeta slow_os m f [] = Inr (f', w') \<and>
    WritableFile_Append slow_os (Slice_string enc) f [] = Inr (s1, f1, w1) \<and> WritableFile_Flush slow_os f1 w1 = Inr (s2, f', w') \<and>
    (Status_ok s1 \<and> Status_ok s2 \<longrightarrow> stream (\<lambda>w fd. w) f' w' = stream (\<lambda>w fd. w) f [] @ enc) \<and>
    DecodeFileMeta (Slice_string (enc @ [5])) = Inr (m, Slice_string [5])"
proof -
  let ?m = "\<lparr>fm_file_size = 300, fm_number = 1, fm_smallest_key = \<lparr>ik_rep = internal_bytes [97] 257\<rparr>, fm_largest_key = \<lparr>ik_rep = internal_bytes [98] 513\<rparr>\<rparr>"
  have "length (file_meta_bytes ?m) \<le> 58"
    using EncodeVarint64_le_10 [of 300] EncodeVarint64_le_10 [of 1] EncodeVarint64_le_10 [of 9] by (simp add: file_meta_bytes_def)
  then show ?thesis
    unfolding Let_def
    by (intro file_meta_roundtrip [of slow_os "\<lambda>w fd. w" _ 58])
       (simp_all add: slow_os_ok WritableFile_make_def wf_ok_def kWritableFileBuffer_def)
qed

end
