(* ===== verification/Blocks.thy ===== *)
theory Blocks
  imports Keys
begin

text \<open>
  Data and index blocks: \<^verbatim>\<open>BlockBuilder\<close> (\<^verbatim>\<open>disk/block_builder.h\<close>, \<^verbatim>\<open>disk/block_builder.cc\<close>),
  \<^verbatim>\<open>Block\<close> (\<^verbatim>\<open>disk/block.h\<close>) and \<^verbatim>\<open>BlockIterator\<close> (\<^verbatim>\<open>disk/block_iterator.h\<close>,
  \<^verbatim>\<open>disk/block_iterator.cc\<close>). A block is a sequence of length-prefixed keys and values in
  ascending order of the keys; the comparator of the \<^verbatim>\<open>Option\<close> is an argument.
\<close>

section \<open>The builder\<close>

text \<open>The constructor does not set \<^verbatim>\<open>is_finished_\<close>.\<close>

record BlockBuilder =
  bb_rep :: bytes
  bb_last_key :: bytes
  bb_is_finished :: "bool option"

definition BlockBuilder_make :: BlockBuilder where
  "BlockBuilder_make = \<lparr>bb_rep = [], bb_last_key = [], bb_is_finished = None\<rparr>"

definition BlockBuilder_Add ::
  "(slice \<Rightarrow> slice \<Rightarrow> int res) \<Rightarrow> slice \<Rightarrow> slice \<Rightarrow> BlockBuilder \<Rightarrow> BlockBuilder res" where
  "BlockBuilder_Add cmp key value b =
     (let last_key = Slice_string (bb_last_key b) in
      rbind (if Slice_empty last_key then Inr True else rbind (cmp key last_key) (\<lambda>c. Inr (c = 1))) (\<lambda>ok.
      rbind (assert_that ok) (\<lambda>_.
      rbind (PutVarint32 (word_of_nat (sl_size key)) (bb_rep b)) (\<lambda>rep.
      rbind (read_mem (sl_mem key) (sl_size key)) (\<lambda>k.
      rbind (PutVarint32 (word_of_nat (sl_size value)) (rep @ k)) (\<lambda>rep.
      rbind (read_mem (sl_mem value) (sl_size value)) (\<lambda>v.
        Inr (b\<lparr>bb_rep := rep @ v, bb_last_key := k\<rparr>))))))))"

definition BlockBuilder_EstimatedSize :: "BlockBuilder \<Rightarrow> nat" where
  "BlockBuilder_EstimatedSize b = length (bb_rep b)"

definition BlockBuilder_Reset :: "BlockBuilder \<Rightarrow> BlockBuilder" where
  "BlockBuilder_Reset b = b\<lparr>bb_is_finished := Some False, bb_rep := [], bb_last_key := []\<rparr>"

definition BlockBuilder_Finish :: "BlockBuilder \<Rightarrow> slice \<times> BlockBuilder" where
  "BlockBuilder_Finish b = (Slice_string (bb_rep b), b\<lparr>bb_is_finished := Some True\<rparr>)"

definition BlockBuilder_Empty :: "BlockBuilder \<Rightarrow> bool" where
  "BlockBuilder_Empty b \<longleftrightarrow> BlockBuilder_EstimatedSize b = 0"

section \<open>The iterator\<close>

record Block =
  blk_data :: bytes
  blk_size :: nat

definition Block_make :: "slice \<Rightarrow> Block" where
  "Block_make block_data = \<lparr>blk_data = sl_mem block_data, blk_size = sl_size block_data\<rparr>"

text \<open>The slice \<^verbatim>\<open>value_\<close> points into the block: \<open>bi_voff\<close> is its distance from \<^verbatim>\<open>data_\<close>.\<close>

record BlockIterator =
  bi_key :: bytes
  bi_data :: bytes
  bi_size :: nat
  bi_offset :: u32
  bi_voff :: nat
  bi_vsize :: nat

definition BlockIterator_SeekToFirst :: "BlockIterator \<Rightarrow> BlockIterator" where
  "BlockIterator_SeekToFirst it = it\<lparr>bi_offset := 0, bi_key := [], bi_voff := 0, bi_vsize := 0\<rparr>"

definition BlockIterator_make :: "Block \<Rightarrow> BlockIterator" where
  "BlockIterator_make block =
     BlockIterator_SeekToFirst \<lparr>bi_key = [], bi_data = blk_data block, bi_size = blk_size block,
       bi_offset = 0, bi_voff = 0, bi_vsize = 0\<rparr>"

definition BlockIterator_Valid :: "BlockIterator \<Rightarrow> bool" where
  "BlockIterator_Valid it \<longleftrightarrow> unat (bi_offset it) < bi_size it"

definition BlockIterator_Key :: "BlockIterator \<Rightarrow> slice" where
  "BlockIterator_Key it = Slice_string (bi_key it)"

definition BlockIterator_Value :: "BlockIterator \<Rightarrow> slice" where
  "BlockIterator_Value it = Slice_buf (drop (bi_voff it) (bi_data it)) (bi_vsize it)"

definition BlockIterator_Next :: "BlockIterator \<Rightarrow> BlockIterator res" where
  "BlockIterator_Next it =
     (let it = it\<lparr>bi_offset := word_of_nat (bi_voff it + bi_vsize it)\<rparr> in
      if \<not> BlockIterator_Valid it then Inr it
      else
        let off = unat (bi_offset it); rest_entries = Slice_buf (drop off (bi_data it)) (bi_size it - off) in
        rbind (GetVarint32 rest_entries) (\<lambda>(internal_key_len, rest_entries).
        rbind (read_mem (sl_mem rest_entries) (unat internal_key_len)) (\<lambda>key.
        rbind (Slice_Advance rest_entries (unat internal_key_len)) (\<lambda>rest_entries.
        rbind (GetVarint32 rest_entries) (\<lambda>(value_len, rest_entries).
          Inr (it\<lparr>bi_key := key, bi_voff := length (bi_data it) - length (sl_mem rest_entries),
                  bi_vsize := unat value_len\<rparr>))))))"

fun BlockIterator_Seek_loop ::
  "nat \<Rightarrow> (slice \<Rightarrow> slice \<Rightarrow> int res) \<Rightarrow> slice \<Rightarrow> BlockIterator \<Rightarrow> BlockIterator res" where
  "BlockIterator_Seek_loop fuel cmp target it =
     (if BlockIterator_Valid it then
        rbind (cmp (BlockIterator_Key it) target) (\<lambda>c.
          if c = -1 then
            (case fuel of 0 \<Rightarrow> Inl Diverged
             | Suc fuel \<Rightarrow> rbind (BlockIterator_Next it) (\<lambda>it. BlockIterator_Seek_loop fuel cmp target it))
          else Inr it)
      else Inr it)"

declare BlockIterator_Seek_loop.simps [simp del]

text \<open>The code has empty bodies for these two.\<close>

definition BlockIterator_Prev :: "BlockIterator \<Rightarrow> BlockIterator" where
  "BlockIterator_Prev it = it"

definition BlockIterator_SeekToLast :: "BlockIterator \<Rightarrow> BlockIterator" where
  "BlockIterator_SeekToLast it = it"

text \<open>An entry takes at least two bytes, so as many rounds as the block has bytes are enough.\<close>

definition BlockIterator_Seek ::
  "(slice \<Rightarrow> slice \<Rightarrow> int res) \<Rightarrow> slice \<Rightarrow> BlockIterator \<Rightarrow> (bool \<times> BlockIterator) res" where
  "BlockIterator_Seek cmp target it =
     rbind (BlockIterator_Next (BlockIterator_SeekToFirst it)) (\<lambda>it.
     rbind (BlockIterator_Seek_loop (bi_size it) cmp target it) (\<lambda>it.
       if BlockIterator_Valid it then
         rbind (cmp (BlockIterator_Key it) target) (\<lambda>c. Inr (c = 0, it))
       else Inr (False, it)))"

section \<open>Iterating over a block\<close>

type_synonym kv = "bytes \<times> bytes"

definition block_bytes :: "kv list \<Rightarrow> bytes" where
  "block_bytes es = concat (map (\<lambda>(k, v). entry_bytes k v) es)"

lemma block_bytes_simps [simp]:
  "block_bytes [] = []" "block_bytes ((k, v) # es) = entry_bytes k v @ block_bytes es"
  "block_bytes (xs @ ys) = block_bytes xs @ block_bytes ys"
  by (simp_all add: block_bytes_def)

lemma block_bytes_length: "length es \<le> length (block_bytes es)"
proof (induction es)
  case (Cons e es)
  obtain k v where e: "e = (k, v)" by (cases e)
  have "entry_bytes k v \<noteq> []" by simp
  then have "1 \<le> length (entry_bytes k v)" by (cases "entry_bytes k v") simp_all
  then show ?case using Cons e by simp
qed simp

text \<open>
  The iterator over the block of the entries \<open>es\<close> that has read the entries \<open>pre\<close>; the next one to
  read is the first of \<open>post\<close>.
\<close>

definition block_at :: "kv list \<Rightarrow> kv list \<Rightarrow> BlockIterator \<Rightarrow> bool" where
  "block_at pre post it \<longleftrightarrow>
     (\<exists>rest. bi_data it = block_bytes (pre @ post) @ rest) \<and>
     bi_size it = length (block_bytes (pre @ post)) \<and> bi_size it < 2 ^ 32 \<and>
     bi_voff it + bi_vsize it = length (block_bytes pre)"

text \<open>The iterator shows an entry.\<close>

definition shows_entry :: "kv \<Rightarrow> BlockIterator \<Rightarrow> bool" where
  "shows_entry e it \<longleftrightarrow>
     BlockIterator_Valid it \<and> bi_key it = fst e \<and> slice_ok (BlockIterator_Value it) \<and>
     slice_content (BlockIterator_Value it) = snd e"

lemma Next_at_end:
  assumes "block_at pre [] it"
  shows "\<exists>it'. BlockIterator_Next it = Inr it' \<and> \<not> BlockIterator_Valid it' \<and> block_at pre [] it'"
  using assms by (auto simp: block_at_def BlockIterator_Next_def BlockIterator_Valid_def Let_def)

lemma Next_at_entry:
  assumes "block_at pre ((k, v) # post) it"
  shows "\<exists>it'. BlockIterator_Next it = Inr it' \<and> shows_entry (k, v) it' \<and> block_at (pre @ [(k, v)]) post it'"
proof -
  obtain rest where d: "bi_data it = block_bytes pre @ entry_bytes k v @ block_bytes post @ rest"
    using assms by (auto simp: block_at_def)
  define p where "p = length (block_bytes pre)"
  have sz: "bi_size it = p + length (entry_bytes k v) + length (block_bytes post)" "bi_size it < 2 ^ 32"
    and p: "bi_voff it + bi_vsize it = p"
    using assms by (auto simp: block_at_def p_def)
  have e: "length (entry_bytes k v) = prefix_len k + length k + prefix_len v + length v"
    by (rule length_entry_bytes)
  have kv: "length k < 2 ^ 32" "length v < 2 ^ 32" "p < 2 ^ 32" using sz e by simp_all
  have u: "unat (word_of_nat p :: u32) = p" "unat (word_of_nat (length k) :: u32) = length k"
    "unat (word_of_nat (length v) :: u32) = length v"
    using kv by simp_all
  have nz: "0 < length (entry_bytes k v)" by simp
  then have lt: "p < bi_size it" using sz(1) by linarith
  let ?r = "block_bytes post @ rest"
  have rd: "GetVarint32 \<lparr>sl_mem = entry_bytes k v @ ?r, sl_size = bi_size it - p\<rparr> =
      Inr (word_of_nat (length k), \<lparr>sl_mem = k @ EncodeVarint32 (word_of_nat (length v)) @ v @ ?r, sl_size = bi_size it - p - prefix_len k\<rparr>)"
    using sz by (intro GetVarint32_entry) simp_all
  have rd2: "GetVarint32 \<lparr>sl_mem = EncodeVarint32 (word_of_nat (length v)) @ v @ ?r, sl_size = bi_size it - p - prefix_len k - length k\<rparr> =
      Inr (word_of_nat (length v), \<lparr>sl_mem = v @ ?r, sl_size = bi_size it - p - prefix_len k - length k - prefix_len v\<rparr>)"
    using sz e by (intro GetVarint32_value) simp_all
  have adv: "Slice_Advance \<lparr>sl_mem = k @ EncodeVarint32 (word_of_nat (length v)) @ v @ ?r, sl_size = bi_size it - p - prefix_len k\<rparr> (length k) =
      Inr \<lparr>sl_mem = EncodeVarint32 (word_of_nat (length v)) @ v @ ?r, sl_size = bi_size it - p - prefix_len k - length k\<rparr>"
    using sz e by (intro Slice_Advance_prefix) simp
  have drop: "drop p (bi_data it) = entry_bytes k v @ ?r" by (simp add: d p_def)
  have vo: "length (bi_data it) - length (v @ ?r) = p + prefix_len k + length k + prefix_len v"
    by (simp add: d e p_def)
  let ?it = "it\<lparr>bi_offset := word_of_nat p, bi_key := k, bi_voff := p + prefix_len k + length k + prefix_len v, bi_vsize := length v\<rparr>"
  have "BlockIterator_Next it = Inr ?it"
    using lt unfolding BlockIterator_Next_def Let_def p
    by (simp add: BlockIterator_Valid_def u drop Slice_buf_def rd adv rd2 vo del: length_append diff_diff_left)
  moreover have dv: "drop (p + prefix_len k + length k + prefix_len v) (bi_data it) = v @ ?r"
  proof -
    have "bi_data it = (block_bytes pre @ EncodeVarint32 (word_of_nat (length k)) @ k @ EncodeVarint32 (word_of_nat (length v))) @ v @ ?r"
      by (simp add: d entry_bytes_def)
    then show ?thesis by (simp add: p_def)
  qed
  then have "shows_entry (k, v) ?it"
    using sz nz u kv by (simp add: shows_entry_def BlockIterator_Valid_def BlockIterator_Value_def Slice_buf_def slice_ok_def slice_content_def)
  moreover have "block_at (pre @ [(k, v)]) post ?it"
    using sz e d by (auto simp: block_at_def p_def)
  ultimately show ?thesis by blast
qed

lemma SeekToFirst_at:
  assumes "block_at pre post it"
  shows "block_at [] (pre @ post) (BlockIterator_SeekToFirst it)"
  using assms by (auto simp: block_at_def BlockIterator_SeekToFirst_def)

lemma Block_make_at:
  assumes "slice_content s = block_bytes es" "slice_ok s" "sl_size s < 2 ^ 32"
  shows "block_at [] es (BlockIterator_make (Block_make s))"
proof -
  have "sl_mem s = block_bytes es @ drop (sl_size s) (sl_mem s)"
    using assms(1) by (metis append_take_drop_id slice_content_def)
  moreover have "sl_size s = length (block_bytes es)" using assms by (metis length_slice_content)
  ultimately show ?thesis
    using assms(3) by (auto simp: block_at_def BlockIterator_make_def BlockIterator_SeekToFirst_def Block_make_def)
qed

section \<open>Ordered blocks\<close>

text \<open>
  What a block relies on: a comparator of slices whose order depends on the content of the slices only.
\<close>

locale block_order = comparator cmp valid rank
  for cmp :: "slice \<Rightarrow> slice \<Rightarrow> int res" and valid :: "slice \<Rightarrow> bool" and rank :: "slice \<Rightarrow> 'o::linorder" +
  assumes valid_ok: "valid s \<Longrightarrow> slice_ok s"
    and valid_nonempty: "valid s \<Longrightarrow> sl_size s \<noteq> 0"
    and valid_string: "valid s \<Longrightarrow> valid (Slice_string (slice_content s))"
    and rank_string: "valid s \<Longrightarrow> rank (Slice_string (slice_content s)) = rank s"
begin

definition krank :: "bytes \<Rightarrow> 'o" where
  "krank k = rank (Slice_string k)"

definition entries_ok :: "kv list \<Rightarrow> bool" where
  "entries_ok es \<longleftrightarrow> (\<forall>e\<in>set es. valid (Slice_string (fst e))) \<and> sorted_wrt (<) (map (krank \<circ> fst) es)"

definition not_below :: "slice \<Rightarrow> kv \<Rightarrow> bool" where
  "not_below t e \<longleftrightarrow> \<not> krank (fst e) < rank t"

lemma Key_valid: "shows_entry e it \<Longrightarrow> valid (Slice_string (fst e)) \<Longrightarrow> valid t \<Longrightarrow>
    cmp (BlockIterator_Key it) t = Inr (order_cmp (krank (fst e)) (rank t))"
  by (simp add: BlockIterator_Key_def shows_entry_def cmp_rank krank_def)

text \<open>The loop of \<^verbatim>\<open>Seek\<close> stops at the first entry that is not smaller than the target.\<close>

lemma Seek_loop_find:
  assumes "valid t"
  shows "block_at (pre @ [e]) post it \<Longrightarrow> shows_entry e it \<Longrightarrow> entries_ok (e # post) \<Longrightarrow> length post < fuel \<Longrightarrow>
    \<exists>it'. BlockIterator_Seek_loop fuel cmp t it = Inr it' \<and>
      (case List.find (not_below t) (e # post) of
         None \<Rightarrow> \<not> BlockIterator_Valid it' \<and> block_at (pre @ e # post) [] it'
       | Some e' \<Rightarrow> shows_entry e' it' \<and> (\<exists>p' s'. pre @ e # post = p' @ e' # s' \<and> block_at (p' @ [e']) s' it'))"
proof (induction post arbitrary: pre e it fuel)
  case Nil
  have v: "valid (Slice_string (fst e))" using Nil.prems by (auto simp: entries_ok_def)
  obtain f where f: "fuel = Suc f" using Nil.prems by (cases fuel) auto
  note c = Key_valid [OF Nil.prems(2) v assms]
  have val: "BlockIterator_Valid it" using Nil.prems by (simp add: shows_entry_def)
  show ?case
  proof (cases "krank (fst e) < rank t")
    case True
    obtain it' where "BlockIterator_Next it = Inr it'" "\<not> BlockIterator_Valid it'" "block_at (pre @ [e]) [] it'"
      using Next_at_end [OF Nil.prems(1)] by blast
    then show ?thesis
      using True c val f by (subst BlockIterator_Seek_loop.simps)
        (auto simp: order_cmp_def not_below_def BlockIterator_Seek_loop.simps [of f])
  next
    case False
    then show ?thesis
      using c val Nil.prems by (subst BlockIterator_Seek_loop.simps) (auto simp: not_below_def)
  qed
next
  case (Cons e2 post)
  have v: "valid (Slice_string (fst e))" using Cons.prems by (auto simp: entries_ok_def)
  obtain f where f: "fuel = Suc f" using Cons.prems by (cases fuel) auto
  note c = Key_valid [OF Cons.prems(2) v assms]
  have val: "BlockIterator_Valid it" using Cons.prems by (simp add: shows_entry_def)
  show ?case
  proof (cases "krank (fst e) < rank t")
    case True
    obtain it2 where it2: "BlockIterator_Next it = Inr it2" "shows_entry e2 it2" "block_at ((pre @ [e]) @ [e2]) post it2"
      using Next_at_entry [of "pre @ [e]" "fst e2" "snd e2" post it] Cons.prems(1) by auto
    have skip: "List.find (not_below t) (e # e2 # post) = List.find (not_below t) (e2 # post)"
      using True by (simp add: not_below_def)
    have "entries_ok (e2 # post)" "length post < f" using Cons.prems f by (auto simp: entries_ok_def)
    from Cons.IH [OF it2(3,2) this, unfolded append_assoc append_Cons append_Nil] show ?thesis
      using True c val f it2(1)
      by (subst BlockIterator_Seek_loop.simps) (simp add: order_cmp_def skip del: find.simps(2))
  next
    case False
    then show ?thesis
      using c val Cons.prems by (subst BlockIterator_Seek_loop.simps) (auto simp: not_below_def)
  qed
qed

lemma Seek_find:
  assumes t: "valid t" and it: "block_at pre post it" and es: "entries_ok (pre @ post)"
  shows "\<exists>it'. case List.find (not_below t) (pre @ post) of
      None \<Rightarrow> BlockIterator_Seek cmp t it = Inr (False, it') \<and> \<not> BlockIterator_Valid it' \<and> block_at (pre @ post) [] it'
    | Some e \<Rightarrow> BlockIterator_Seek cmp t it = Inr (krank (fst e) = rank t, it') \<and> shows_entry e it' \<and>
        (\<exists>p s. pre @ post = p @ e # s \<and> block_at (p @ [e]) s it')"
proof -
  note at = SeekToFirst_at [OF it]
  show ?thesis
  proof (cases "pre @ post")
    case Nil
    then obtain it' where "BlockIterator_Next (BlockIterator_SeekToFirst it) = Inr it'" "\<not> BlockIterator_Valid it'" "block_at [] [] it'"
      using Next_at_end [of "[]" "BlockIterator_SeekToFirst it"] at by auto
    then show ?thesis
      using Nil by (auto simp: BlockIterator_Seek_def BlockIterator_Seek_loop.simps [of _ cmp t it'])
  next
    case (Cons e es')
    obtain it1 where it1: "BlockIterator_Next (BlockIterator_SeekToFirst it) = Inr it1" "shows_entry e it1" "block_at ([] @ [e]) es' it1"
      using Next_at_entry [of "[]" "fst e" "snd e" es' "BlockIterator_SeekToFirst it"] at Cons by auto
    have "length (e # es') \<le> bi_size it1"
      using block_bytes_length [of "e # es'"] it1(3) by (simp add: block_at_def)
    then have "length es' < bi_size it1" by simp
    from Seek_loop_find [OF t it1(3,2) _ this] obtain it2 where it2: "BlockIterator_Seek_loop (bi_size it1) cmp t it1 = Inr it2"
      "case List.find (not_below t) (e # es') of
         None \<Rightarrow> \<not> BlockIterator_Valid it2 \<and> block_at ([] @ e # es') [] it2
       | Some e' \<Rightarrow> shows_entry e' it2 \<and> (\<exists>p' s'. [] @ e # es' = p' @ e' # s' \<and> block_at (p' @ [e']) s' it2)"
      using es Cons by auto
    show ?thesis
    proof (cases "List.find (not_below t) (e # es')")
      case None
      then show ?thesis using it1(1) it2 Cons by (auto simp: BlockIterator_Seek_def)
    next
      case (Some e')
      then have "e' \<in> set (pre @ post)" using find_SomeD [OF Some] Cons by auto
      then have "valid (Slice_string (fst e'))" using es by (auto simp: entries_ok_def)
      moreover have "shows_entry e' it2" using it2(2) Some by simp
      ultimately have "cmp (BlockIterator_Key it2) t = Inr (order_cmp (krank (fst e')) (rank t))" "BlockIterator_Valid it2"
        using Key_valid t by (auto simp: shows_entry_def)
      then show ?thesis using it1(1) it2 Cons Some by (auto simp: BlockIterator_Seek_def)
    qed
  qed
qed

section \<open>Building an ordered block\<close>

definition bbuilder_rep :: "BlockBuilder \<Rightarrow> kv list \<Rightarrow> bool" where
  "bbuilder_rep b es \<longleftrightarrow>
     bb_rep b = block_bytes es \<and> bb_last_key b = (if es = [] then [] else fst (last es)) \<and> entries_ok es"

lemma Add_entry:
  assumes rep: "bbuilder_rep b es" and k: "valid key" and v: "slice_ok value"
  shows "BlockBuilder_Add cmp key value b =
    (if es = [] \<or> krank (fst (last es)) < rank key
     then Inr (b\<lparr>bb_rep := block_bytes (es @ [(slice_content key, slice_content value)]), bb_last_key := slice_content key\<rparr>)
     else Inl AssertFail)"
proof -
  have m: "read_mem (sl_mem key) (sl_size key) = Inr (slice_content key)"
    "read_mem (sl_mem value) (sl_size value) = Inr (slice_content value)"
    using valid_ok [OF k] v by (auto simp: slice_content_def)
  have e: "bb_rep b @ EncodeVarint32 (word_of_nat (sl_size key)) @ slice_content key @
      EncodeVarint32 (word_of_nat (sl_size value)) @ slice_content value = block_bytes (es @ [(slice_content key, slice_content value)])"
    using rep valid_ok [OF k] v by (simp add: bbuilder_rep_def entry_bytes_def)
  have ok: "(if Slice_empty (Slice_string (bb_last_key b)) then Inr True
       else rbind (cmp key (Slice_string (bb_last_key b))) (\<lambda>c. Inr (c = 1))) =
      Inr (es = [] \<or> krank (fst (last es)) < rank key)"
  proof (cases "es = []")
    case False
    then have "valid (Slice_string (fst (last es)))"
      using rep by (auto simp: bbuilder_rep_def entries_ok_def dest: last_in_set)
    then show ?thesis
      using False rep valid_nonempty [of "Slice_string (fst (last es))"] k
      by (auto simp: bbuilder_rep_def Slice_empty_def cmp_rank krank_def)
  qed (use rep in \<open>simp add: bbuilder_rep_def Slice_empty_def\<close>)
  show ?thesis
    unfolding BlockBuilder_Add_def Let_def ok
    using e m by (simp add: PutVarint32_append)
qed

lemma Add_rep:
  assumes "bbuilder_rep b es" "valid key" "slice_ok value" "es = [] \<or> krank (fst (last es)) < rank key"
  shows "\<exists>b'. BlockBuilder_Add cmp key value b = Inr b' \<and>
    bbuilder_rep b' (es @ [(slice_content key, slice_content value)])"
proof -
  have "krank (fst x) < rank key" if "x \<in> set es" for x
  proof -
    from that obtain ys y where es: "es = ys @ [y]" by (metis append_butlast_last_id empty_iff list.set(1))
    then have "krank (fst x) \<le> krank (fst y)" using that assms(1) by (auto simp: bbuilder_rep_def entries_ok_def sorted_wrt_append)
    also have "\<dots> < rank key" using assms(4) es by simp
    finally show ?thesis .
  qed
  then have "entries_ok (es @ [(slice_content key, slice_content value)])"
    using assms(1) valid_string [OF assms(2)] rank_string [OF assms(2)]
    by (auto simp: bbuilder_rep_def entries_ok_def sorted_wrt_append krank_def)
  then show ?thesis
    using Add_entry [OF assms(1-3)] assms(4) by (simp add: bbuilder_rep_def)
qed

lemma make_rep: "bbuilder_rep BlockBuilder_make []"
  by (simp add: bbuilder_rep_def BlockBuilder_make_def entries_ok_def)

end

lemma Slice_string_content_ok: "slice_ok s \<Longrightarrow> slice_ok (Slice_string (slice_content s))"
  by (intro Slice_string_ok) (simp add: slice_ok_def slice_content_def)

definition valid_bkey :: "slice \<Rightarrow> bool" where
  "valid_bkey s \<longleftrightarrow> valid_ikey s \<and> slice_ok s"

lemma valid_ikey_size: "valid_ikey s \<Longrightarrow> 8 \<le> sl_size s"
  by (auto simp: valid_ikey_def internal_ikey_def ExtractUserKey_def split: if_splits)

lemma internal_ikey_string:
  assumes "valid_bkey s"
  shows "internal_ikey (Slice_string (slice_content s)) = internal_ikey s"
proof -
  have n: "8 \<le> sl_size s" "sl_size s \<le> length (sl_mem s)" "sl_size s < 2 ^ 64"
    using assms valid_ikey_size by (auto simp: valid_bkey_def slice_ok_def)
  then have len: "length (slice_content s) = sl_size s" by (simp add: slice_content_def)
  have "read_mem (drop (sl_size s - 8) (slice_content s) @ [0]) 8 = read_mem (drop (sl_size s - 8) (sl_mem s)) 8"
    using n by (simp add: read_mem_def slice_content_def drop_take)
  then have "DecodeFixed64 (drop (sl_size s - 8) (slice_content s) @ [0]) = DecodeFixed64 (drop (sl_size s - 8) (sl_mem s))"
    by (simp add: DecodeFixed64_def)
  moreover have "take (sl_size s - 8) (slice_content s) = take (sl_size s - 8) (sl_mem s)"
    using n by (simp add: slice_content_def min_def)
  ultimately show ?thesis
    using n by (cases "DecodeFixed64 (drop (sl_size s - 8) (sl_mem s))")
      (simp_all add: internal_ikey_def ExtractUserKey_def Slice_string_def string_data_def len Slice_buf_def Let_def
        slice_ok_def slice_content_def [of "\<lparr>sl_mem = _, sl_size = _\<rparr>"])
qed

interpretation internal_block: block_order InternalKeyComparator_Compare valid_bkey ikey_rank
proof
  fix a b s
  show "InternalKeyComparator_Compare a b = Inr (order_cmp (ikey_rank a) (ikey_rank b))" if "valid_bkey a" "valid_bkey b"
    using that by (intro internal_cmp.cmp_rank) (simp_all add: valid_bkey_def)
  assume s: "valid_bkey s"
  then show "slice_ok s" "sl_size s \<noteq> 0" using valid_ikey_size [of s] by (auto simp: valid_bkey_def)
  show "valid_bkey (Slice_string (slice_content s))" "ikey_rank (Slice_string (slice_content s)) = ikey_rank s"
    using s internal_ikey_string [OF s] by (auto simp: valid_bkey_def valid_ikey_def ikey_rank_def Slice_string_content_ok)
qed

section \<open>Whole blocks\<close>

text \<open>\<open>n\<close> calls of \<^verbatim>\<open>Next\<close>, and the calls of \<^verbatim>\<open>Add\<close> for a list of entries.\<close>

fun Next_times :: "nat \<Rightarrow> BlockIterator \<Rightarrow> BlockIterator res" where
  "Next_times 0 it = Inr it"
| "Next_times (Suc n) it = rbind (BlockIterator_Next it) (Next_times n)"

fun Add_all :: "(slice \<Rightarrow> slice \<Rightarrow> int res) \<Rightarrow> kv list \<Rightarrow> BlockBuilder \<Rightarrow> BlockBuilder res" where
  "Add_all cmp [] b = Inr b"
| "Add_all cmp ((k, v) # es) b =
     rbind (BlockBuilder_Add cmp (Slice_string k) (Slice_string v) b) (Add_all cmp es)"

lemma Next_times_entries:
  "block_at pre post it \<Longrightarrow> n < length post \<Longrightarrow>
     \<exists>it'. Next_times (Suc n) it = Inr it' \<and> shows_entry (post ! n) it' \<and>
       block_at (pre @ take (Suc n) post) (drop (Suc n) post) it'"
proof (induction n arbitrary: pre post it)
  case 0
  then show ?case using Next_at_entry [of pre _ _ "tl post" it] by (cases post) fastforce+
next
  case (Suc n)
  then obtain k v post' where post: "post = (k, v) # post'" by (cases post) auto
  obtain it1 where it1: "BlockIterator_Next it = Inr it1" "block_at (pre @ [(k, v)]) post' it1"
    using Next_at_entry Suc.prems(1) post by blast
  then show ?case using Suc.IH [OF it1(2)] Suc.prems(2) post by simp
qed

lemma Next_times_end:
  "block_at pre post it \<Longrightarrow> \<exists>it'. Next_times (Suc (length post)) it = Inr it' \<and> \<not> BlockIterator_Valid it'"
proof (induction post arbitrary: pre it)
  case Nil
  then show ?case using Next_at_end by fastforce
next
  case (Cons e post)
  then obtain it1 where "BlockIterator_Next it = Inr it1" "block_at (pre @ [e]) post it1"
    using Next_at_entry [of pre "fst e" "snd e" post it] by auto
  then show ?case using Cons.IH by simp
qed

text \<open>Keys that are internal keys, in strictly ascending order.\<close>

definition ikeys_ok :: "kv list \<Rightarrow> bool" where
  "ikeys_ok es \<longleftrightarrow>
     (\<forall>e\<in>set es. valid_bkey (Slice_string (fst e))) \<and> sorted_wrt (<) (map (\<lambda>e. ikey_rank (Slice_string (fst e))) es)"

lemma ikeys_ok_entries: "internal_block.entries_ok es \<longleftrightarrow> ikeys_ok es"
  by (simp add: internal_block.entries_ok_def ikeys_ok_def internal_block.krank_def comp_def)

lemma Add_all_rep:
  "internal_block.bbuilder_rep b pre \<Longrightarrow> ikeys_ok (pre @ es) \<Longrightarrow> \<forall>e\<in>set es. length (snd e) < 2 ^ 64 \<Longrightarrow>
     \<exists>b'. Add_all InternalKeyComparator_Compare es b = Inr b' \<and> internal_block.bbuilder_rep b' (pre @ es)"
proof (induction es arbitrary: pre b)
  case (Cons e es)
  obtain k v where e: "e = (k, v)" by (cases e)
  have "pre = [] \<or> internal_block.krank (fst (last pre)) < ikey_rank (Slice_string k)"
    using Cons.prems(2) e by (cases "pre = []") (auto simp: ikeys_ok_def sorted_wrt_append internal_block.krank_def)
  moreover have "valid_bkey (Slice_string k)" "slice_ok (Slice_string v)"
    using Cons.prems e by (auto simp: ikeys_ok_def)
  ultimately obtain b1 where b1: "BlockBuilder_Add InternalKeyComparator_Compare (Slice_string k) (Slice_string v) b = Inr b1"
    "internal_block.bbuilder_rep b1 (pre @ [(k, v)])"
    using internal_block.Add_rep [OF Cons.prems(1)] by fastforce
  then show ?case using Cons.IH [OF b1(2)] Cons.prems e by simp
qed simp

lemma block_value_length: "e \<in> set es \<Longrightarrow> length (snd e) \<le> length (block_bytes es)"
proof (induction es)
  case (Cons e' es)
  then show ?case by (cases e') (auto simp: length_entry_bytes)
qed simp

lemma Add_all_make:
  assumes "ikeys_ok es" "length (block_bytes es) < 2 ^ 32"
  shows "\<exists>b. Add_all InternalKeyComparator_Compare es BlockBuilder_make = Inr b \<and>
    internal_block.bbuilder_rep b es \<and> bb_rep b = block_bytes es"
proof -
  have "\<forall>e\<in>set es. length (snd e) < 2 ^ 64" using assms(2) block_value_length by fastforce
  then show ?thesis
    using Add_all_rep [OF internal_block.make_rep, of es] assms(1) by (auto simp: internal_block.bbuilder_rep_def)
qed

lemma internal_bytes_key:
  assumes "length uk + 8 < 2 ^ 64"
  shows "valid_bkey (Slice_string (internal_bytes uk t))" "ikey_rank (Slice_string (internal_bytes uk t)) = IKey uk (drop_bit 8 t)"
  using internal_ikey_bytes [of "Slice_string (internal_bytes uk t)" uk t "[0]"] assms
  by (simp_all add: valid_bkey_def valid_ikey_def ikey_rank_def Slice_string_def string_data_def slice_ok_def)

section \<open>Properties\<close>

text \<open>C36: a block built by \<^verbatim>\<open>BlockBuilder\<close> from entries in ascending order is iterated in the same order:
  the \<open>n\<close>-th \<^verbatim>\<open>Next\<close> shows the \<open>n\<close>-th key and value, and the one after the last leaves the iterator
  invalid. No read leaves the block.\<close>

theorem block_roundtrip:
  assumes "ikeys_ok es" "length (block_bytes es) < 2 ^ 32"
  shows "\<exists>b. Add_all InternalKeyComparator_Compare es BlockBuilder_make = Inr b \<and>
    (let it = BlockIterator_make (Block_make (fst (BlockBuilder_Finish b))) in
     (\<forall>n<length es. \<exists>it'. Next_times (Suc n) it = Inr it' \<and> BlockIterator_Valid it' \<and>
        slice_content (BlockIterator_Key it') = fst (es ! n) \<and> slice_content (BlockIterator_Value it') = snd (es ! n)) \<and>
     (\<exists>it'. Next_times (Suc (length es)) it = Inr it' \<and> \<not> BlockIterator_Valid it'))"
proof -
  obtain b where b: "Add_all InternalKeyComparator_Compare es BlockBuilder_make = Inr b" "bb_rep b = block_bytes es"
    using Add_all_make [OF assms] by blast
  have "block_at [] es (BlockIterator_make (Block_make (fst (BlockBuilder_Finish b))))"
    using assms(2) by (intro Block_make_at) (simp_all add: BlockBuilder_Finish_def b(2))
  from Next_times_entries [OF this] Next_times_end [OF this] show ?thesis
    using b(1) by (fastforce simp: Let_def shows_entry_def BlockIterator_Key_def)
qed

theorem block_roundtrip_witness:
  "\<exists>b. Add_all InternalKeyComparator_Compare [(internal_bytes [97] 257, [98])] BlockBuilder_make = Inr b \<and>
    (let it = BlockIterator_make (Block_make (fst (BlockBuilder_Finish b))); es = [(internal_bytes [97] 257, [98])] in
     (\<forall>n<length es. \<exists>it'. Next_times (Suc n) it = Inr it' \<and> BlockIterator_Valid it' \<and>
        slice_content (BlockIterator_Key it') = fst (es ! n) \<and> slice_content (BlockIterator_Value it') = snd (es ! n)) \<and>
     (\<exists>it'. Next_times (Suc (length es)) it = Inr it' \<and> \<not> BlockIterator_Valid it'))"
proof -
  have "ikeys_ok [(internal_bytes [97] 257, [98])]" by (simp add: ikeys_ok_def internal_bytes_key)
  moreover have "length (block_bytes [(internal_bytes [97] 257, [98])]) < 2 ^ 32"
    using length_entry_bytes_le [of "internal_bytes [97] 257" "[98]"] by simp
  ultimately show ?thesis using block_roundtrip [of "[(internal_bytes [97] 257, [98])]"] by (simp only: Let_def)
qed

text \<open>on such a block \<^verbatim>\<open>BlockIterator::Seek\<close> returns, stops at the first entry whose key is not smaller
  than the target, or behind the last entry if there is none, and returns true exactly when that
  entry's key equals the target in the order of internal keys.\<close>

theorem block_seek:
  assumes "ikeys_ok es" "length (block_bytes es) < 2 ^ 32" "valid_bkey t"
  shows "\<exists>b found it'. Add_all InternalKeyComparator_Compare es BlockBuilder_make = Inr b \<and>
    BlockIterator_Seek InternalKeyComparator_Compare t (BlockIterator_make (Block_make (fst (BlockBuilder_Finish b)))) = Inr (found, it') \<and>
    (case List.find (\<lambda>e. \<not> ikey_rank (Slice_string (fst e)) < ikey_rank t) es of
       None \<Rightarrow> \<not> found \<and> \<not> BlockIterator_Valid it'
     | Some e \<Rightarrow> (found \<longleftrightarrow> ikey_rank (Slice_string (fst e)) = ikey_rank t) \<and> BlockIterator_Valid it' \<and>
         slice_content (BlockIterator_Key it') = fst e \<and> slice_content (BlockIterator_Value it') = snd e)"
proof -
  obtain b where b: "Add_all InternalKeyComparator_Compare es BlockBuilder_make = Inr b" "bb_rep b = block_bytes es"
    using Add_all_make [OF assms(1,2)] by blast
  let ?it = "BlockIterator_make (Block_make (fst (BlockBuilder_Finish b)))"
  have at: "block_at [] es ?it"
    using assms(2) by (intro Block_make_at) (simp_all add: BlockBuilder_Finish_def b(2))
  have "internal_block.not_below t = (\<lambda>e. \<not> ikey_rank (Slice_string (fst e)) < ikey_rank t)"
    by (simp add: internal_block.not_below_def internal_block.krank_def fun_eq_iff)
  then show ?thesis
    using internal_block.Seek_find [OF assms(3) at] assms(1) b(1)
    by (fastforce simp: ikeys_ok_entries shows_entry_def BlockIterator_Key_def internal_block.krank_def split: option.splits)
qed

theorem block_seek_witness:
  "\<exists>b found it'. Add_all InternalKeyComparator_Compare [(internal_bytes [97] 257, [98])] BlockBuilder_make = Inr b \<and>
    BlockIterator_Seek InternalKeyComparator_Compare (Slice_string (internal_bytes [97] 257))
      (BlockIterator_make (Block_make (fst (BlockBuilder_Finish b)))) = Inr (found, it') \<and> found \<and>
    slice_content (BlockIterator_Value it') = [98]"
proof -
  let ?k = "internal_bytes [97] 257"
  have v: "valid_bkey (Slice_string ?k)" by (simp add: internal_bytes_key)
  then have "ikeys_ok [(?k, [98])]" by (simp add: ikeys_ok_def)
  moreover have "length (block_bytes [(?k, [98])]) < 2 ^ 32"
    using length_entry_bytes_le [of ?k "[98]"] by simp
  ultimately show ?thesis using block_seek [of "[(?k, [98])]" "Slice_string ?k"] v by auto
qed

text \<open>\<^verbatim>\<open>BlockBuilder::Add\<close> of a key that is not larger than the last one stops at the assertion; the
  order of a block cannot be broken.\<close>

theorem block_add_out_of_order:
  assumes "ikeys_ok (es @ [e])" "length (block_bytes (es @ [e])) < 2 ^ 32" "valid_bkey key" "slice_ok v"
    "ikey_rank key \<le> ikey_rank (Slice_string (fst e))"
  shows "\<exists>b. Add_all InternalKeyComparator_Compare (es @ [e]) BlockBuilder_make = Inr b \<and>
    BlockBuilder_Add InternalKeyComparator_Compare key v b = Inl AssertFail"
proof -
  obtain b where "Add_all InternalKeyComparator_Compare (es @ [e]) BlockBuilder_make = Inr b" "internal_block.bbuilder_rep b (es @ [e])"
    using Add_all_make [OF assms(1,2)] by blast
  then show ?thesis
    using internal_block.Add_entry [of b "es @ [e]" key v] assms(3-5) by (auto simp: internal_block.krank_def)
qed

theorem block_add_out_of_order_witness:
  "\<exists>b. Add_all InternalKeyComparator_Compare ([] @ [(internal_bytes [98] 257, [1])]) BlockBuilder_make = Inr b \<and>
    BlockBuilder_Add InternalKeyComparator_Compare (Slice_string (internal_bytes [97] 257)) (Slice_string []) b = Inl AssertFail"
proof -
  have "ikeys_ok ([] @ [(internal_bytes [98] 257, [1])])" by (simp add: ikeys_ok_def internal_bytes_key)
  moreover have "length (block_bytes ([] @ [(internal_bytes [98] 257, [1])])) < 2 ^ 32"
    using length_entry_bytes_le [of "internal_bytes [98] 257" "[1]"] by simp
  ultimately show ?thesis
    by (rule block_add_out_of_order) (simp_all add: internal_bytes_key less_eq_ikey_def)
qed

end
