(* ===== verification/BloomFilters.thy ===== *)
theory BloomFilters
  imports Encode
begin

text \<open>
  \<^verbatim>\<open>BloomFilter\<close> (\<^verbatim>\<open>util/bloom_filter.h\<close>, \<^verbatim>\<open>util/bloom_filter.cc\<close>): the hash function, the
  construction of a filter from a list of keys, and the query.
\<close>

section \<open>Hashing\<close>

text \<open>The loop over the groups of four bytes: \<open>left\<close> is \<^verbatim>\<open>limit - data\<close>.\<close>

fun Hash_loop :: "bytes \<Rightarrow> nat \<Rightarrow> u32 \<Rightarrow> (bytes \<times> nat \<times> u32) res" where
  "Hash_loop data left h =
     (if 4 \<le> left then
        rbind (DecodeFixed32 data) (\<lambda>w.
          let h = (h + w) * 0xc6a4a793 in
          Hash_loop (drop 4 data) (left - 4) (h XOR drop_bit 16 h))
      else Inr (data, left, h))"

declare Hash_loop.simps [simp del]

definition mem_at :: "bytes \<Rightarrow> nat \<Rightarrow> byte res" where
  "mem_at mem n = (if n < length mem then Inr (mem ! n) else Inl OutOfBounds)"

text \<open>The \<^verbatim>\<open>switch\<close> over the one to three bytes that are left, with its cases falling through.\<close>

definition Hash_tail :: "bytes \<Rightarrow> nat \<Rightarrow> u32 \<Rightarrow> u32 res" where
  "Hash_tail data left h =
     (if left = 0 then Inr h
      else
        rbind (if 3 \<le> left then rbind (mem_at data 2) (\<lambda>b. Inr (h + push_bit 16 (ucast b))) else Inr h) (\<lambda>h.
        rbind (if 2 \<le> left then rbind (mem_at data 1) (\<lambda>b. Inr (h + push_bit 8 (ucast b))) else Inr h) (\<lambda>h.
        rbind (mem_at data 0) (\<lambda>b.
          let h = (h + ucast b) * 0xc6a4a793 in
          Inr (h XOR drop_bit 24 h)))))"

definition Hash :: "bytes \<Rightarrow> nat \<Rightarrow> u32 \<Rightarrow> u32 res" where
  "Hash data n seed =
     (let h = seed XOR (word_of_nat n * 0xc6a4a793) in
      rbind (Hash_loop data n h) (\<lambda>(data, left, h). Hash_tail data left h))"

definition BloomHash :: "slice \<Rightarrow> u32 res" where
  "BloomHash key = Hash (sl_mem key) (sl_size key) 0x66ccff"

section \<open>The filter\<close>

record BloomFilter =
  bf_bits_per_key :: int
  bf_k :: nat

text \<open>
  The number of probes is \<^verbatim>\<open>bits_per_key * 0.69\<close>, cut to an integer and then to the range from 1 to
  30. Below the upper bound the product is never within \<open>0.01\<close> of an integer other than 0, so the
  rounding of the \<^verbatim>\<open>double\<close> does not change the integer part.
\<close>

definition BloomFilter_make :: "nat \<Rightarrow> BloomFilter" where
  "BloomFilter_make bits_per_key =
     (let k = bits_per_key * 69 div 100;
          k = (if k < 1 then 1 else k);
          k = (if k > 30 then 30 else k)
      in \<lparr>bf_bits_per_key = int bits_per_key, bf_k = k\<rparr>)"

definition int_mul :: "int \<Rightarrow> int \<Rightarrow> int res" where
  "int_mul a b = (if -(2 ^ 31) \<le> a * b \<and> a * b < 2 ^ 31 then Inr (a * b) else Inl SignedOverflow)"

text \<open>Conversion of an \<^verbatim>\<open>int\<close> to \<^verbatim>\<open>size_t\<close>.\<close>

definition int_to_size :: "int \<Rightarrow> nat" where
  "int_to_size i = nat (i mod 2 ^ 64)"

definition bloom_delta :: "u32 \<Rightarrow> u32" where
  "bloom_delta h = drop_bit 17 h OR push_bit 15 h"

text \<open>The probes of one key, written at \<open>array\<close> = \<open>init_size\<close> of the string.\<close>

fun CreateFilter_probes :: "nat \<Rightarrow> u32 \<Rightarrow> u32 \<Rightarrow> nat \<Rightarrow> nat \<Rightarrow> bytes \<Rightarrow> bytes res" where
  "CreateFilter_probes 0 h delta bits init_size dst = Inr dst"
| "CreateFilter_probes (Suc k) h delta bits init_size dst =
     (let bitpos = unat h mod bits; i = init_size + bitpos div 8 in
      rbind (mem_at dst i) (\<lambda>b.
        CreateFilter_probes k (h + delta) delta bits init_size (dst[i := b OR push_bit (bitpos mod 8) 1])))"

fun CreateFilter_loop :: "nat \<Rightarrow> nat \<Rightarrow> nat \<Rightarrow> slice list \<Rightarrow> bytes \<Rightarrow> bytes res" where
  "CreateFilter_loop k bits init_size [] dst = Inr dst"
| "CreateFilter_loop k bits init_size (key # keys) dst =
     rbind (BloomHash key) (\<lambda>h.
     rbind (CreateFilter_probes k h (bloom_delta h) bits init_size dst) (\<lambda>dst.
       CreateFilter_loop k bits init_size keys dst))"

text \<open>
  \<open>keys\<close> is the array behind the pointer; reading more than its elements is an error. A negative
  number of keys makes no iteration.
\<close>

definition CreateFilter :: "BloomFilter \<Rightarrow> slice list \<Rightarrow> int \<Rightarrow> bytes \<Rightarrow> bytes res" where
  "CreateFilter bf keys n dst =
     rbind (int_mul n (bf_bits_per_key bf)) (\<lambda>b.
       let bits = int_to_size b;
           bits = (if bits < 64 then 64 else bits);
           nbytes = (bits + 7) div 8;
           bits = nbytes * 8;
           init_size = length dst;
           dst = dst @ replicate nbytes 0 @ [word_of_nat (bf_k bf)] in
       if nat n \<le> length keys
       then CreateFilter_loop (bf_k bf) bits init_size (take (nat n) keys) dst
       else Inl OutOfBounds)"

section \<open>The query\<close>

text \<open>Conversion of a (signed) \<^verbatim>\<open>char\<close> to \<^verbatim>\<open>size_t\<close>.\<close>

definition char_to_size :: "byte \<Rightarrow> nat" where
  "char_to_size b = int_to_size (sint b)"

fun KeyMayMatch_probes :: "nat \<Rightarrow> u32 \<Rightarrow> u32 \<Rightarrow> nat \<Rightarrow> bytes \<Rightarrow> bool res" where
  "KeyMayMatch_probes 0 h delta bits array = Inr True"
| "KeyMayMatch_probes (Suc k) h delta bits array =
     (let bitpos = unat h mod bits in
      rbind (mem_at array (bitpos div 8)) (\<lambda>b.
        if b AND push_bit (bitpos mod 8) 1 = 0 then Inr False
        else KeyMayMatch_probes k (h + delta) delta bits array))"

definition BloomFilter_KeyMayMatch :: "slice \<Rightarrow> slice \<Rightarrow> bool res" where
  "BloomFilter_KeyMayMatch key bloom_filter =
     (let len = sl_size bloom_filter in
      if len < 2 then Inr False
      else
        let array = sl_mem bloom_filter; bits = (len - 1) * 8 in
        rbind (mem_at array (len - 1)) (\<lambda>b.
          let k = char_to_size b in
          if k > 30 then Inr True
          else rbind (BloomHash key) (\<lambda>h. KeyMayMatch_probes k h (bloom_delta h) bits array)))"

section \<open>The hash depends on the content of the key only\<close>

lemma mem_at_ok [simp]: "n < length mem \<Longrightarrow> mem_at mem n = Inr (mem ! n)"
  by (simp add: mem_at_def)

lemma DecodeFixed32_take:
  "4 \<le> length mem \<Longrightarrow> 4 \<le> n \<Longrightarrow> DecodeFixed32 (take n mem) = DecodeFixed32 mem"
  by (simp add: DecodeFixed32_def min_def)

lemma DecodeFixed32_ok: "4 \<le> length mem \<Longrightarrow> \<exists>w. DecodeFixed32 mem = Inr w"
  by (simp add: DecodeFixed32_def)

lemma Hash_loop_take:
  "left \<le> length data \<Longrightarrow>
     \<exists>left' h'. left' < 4 \<and> left' \<le> left \<and>
       Hash_loop data left h = Inr (drop (left - left') data, left', h') \<and>
       Hash_loop (take left data) left h = Inr (drop (left - left') (take left data), left', h')"
proof (induction data left h rule: Hash_loop.induct)
  case (1 data left h)
  show ?case
  proof (cases "4 \<le> left")
    case True
    then obtain w where w: "DecodeFixed32 data = Inr w" using "1.prems" DecodeFixed32_ok by (meson le_trans)
    then have w': "DecodeFixed32 (take left data) = Inr w" using True "1.prems" by (simp add: DecodeFixed32_take)
    let ?h = "(h + w) * 0xc6a4a793"
    have "left - 4 \<le> length (drop 4 data)" using "1.prems" True by simp
    from "1.IH" [OF True w refl this] obtain left' h' where ih: "left' < 4" "left' \<le> left - 4"
      "Hash_loop (drop 4 data) (left - 4) (?h XOR drop_bit 16 ?h) = Inr (drop (left - 4 - left') (drop 4 data), left', h')"
      "Hash_loop (take (left - 4) (drop 4 data)) (left - 4) (?h XOR drop_bit 16 ?h) =
         Inr (drop (left - 4 - left') (take (left - 4) (drop 4 data)), left', h')" by blast
    have "left - 4 - left' + 4 = left - left'" using ih(1,2) True by simp
    then show ?thesis
      using True w w' ih by (subst (1 2) Hash_loop.simps) (auto simp: Let_def drop_take)
  next
    case False
    then show ?thesis by (subst (1 2) Hash_loop.simps) auto
  qed
qed

lemma Hash_tail_take:
  "left \<le> length data \<Longrightarrow> \<exists>h'. Hash_tail data left h = Inr h' \<and> Hash_tail (take left data) left h = Inr h'"
  by (cases "left = 0") (auto simp: Hash_tail_def Let_def mem_at_def)

lemma Hash_take:
  assumes "n \<le> length mem"
  shows "\<exists>h. Hash mem n seed = Inr h \<and> Hash (take n mem) n seed = Inr h"
proof -
  let ?h = "seed XOR (word_of_nat n * 0xc6a4a793)"
  obtain left' h' where l: "left' < 4" "left' \<le> n" "Hash_loop mem n ?h = Inr (drop (n - left') mem, left', h')"
    "Hash_loop (take n mem) n ?h = Inr (drop (n - left') (take n mem), left', h')"
    using Hash_loop_take [OF assms] by blast
  have "take left' (drop (n - left') mem) = drop (n - left') (take n mem)"
    using l by (simp add: drop_take)
  then show ?thesis
    using l assms Hash_tail_take [of left' "drop (n - left') mem" h'] by (auto simp: Hash_def Let_def)
qed

definition bloom_hash :: "bytes \<Rightarrow> u32" where
  "bloom_hash xs = projr (Hash xs (length xs) 0x66ccff)"

lemma BloomHash_content: "slice_ok s \<Longrightarrow> BloomHash s = Inr (bloom_hash (slice_content s))"
  using Hash_take [of "sl_size s" "sl_mem s" "0x66ccff"]
  by (auto simp: BloomHash_def bloom_hash_def slice_content_def slice_ok_def min_def)

section \<open>The bits of a filter\<close>

definition bit_set :: "bytes \<Rightarrow> nat \<Rightarrow> bool" where
  "bit_set xs p \<longleftrightarrow> bit (xs ! (p div 8)) (p mod 8)"

text \<open>The positions the \<open>k\<close> probes of a hash value look at.\<close>

definition probe :: "u32 \<Rightarrow> u32 \<Rightarrow> nat \<Rightarrow> nat \<Rightarrow> nat" where
  "probe h delta bits j = unat (h + word_of_nat j * delta) mod bits"

lemma probe_Suc: "probe (h + delta) delta bits j = probe h delta bits (Suc j)"
  by (simp add: probe_def algebra_simps)

lemma bit_set_update:
  assumes "q div 8 < length xs"
  shows "bit_set (xs[q div 8 := xs ! (q div 8) OR push_bit (q mod 8) 1]) p \<longleftrightarrow> bit_set xs p \<or> p = q"
proof (cases "p div 8 = q div 8")
  case True
  have "p mod 8 = q mod 8 \<longleftrightarrow> p = q" using True by (metis mod_div_decomp)
  moreover have "q mod 8 < 8" "p mod 8 < 8" by simp_all
  ultimately show ?thesis
    using True assms by (auto simp: bit_set_def bit_or_iff bit_exp_iff)
next
  case False
  then show ?thesis by (auto simp: bit_set_def)
qed

text \<open>One filter array of \<open>nb\<close> bytes between a prefix and a suffix of the string.\<close>

lemma CreateFilter_probes_bits:
  "0 < nb \<Longrightarrow> length arr = nb \<Longrightarrow>
     \<exists>arr'. CreateFilter_probes k h delta (nb * 8) (length pre) (pre @ arr @ post) = Inr (pre @ arr' @ post) \<and>
       length arr' = nb \<and> (\<forall>p. bit_set arr' p \<longleftrightarrow> bit_set arr p \<or> (\<exists>j<k. p = probe h delta (nb * 8) j))"
proof (induction k arbitrary: h arr)
  case (Suc k)
  let ?q = "unat h mod (nb * 8)"
  have q: "?q div 8 < nb" using Suc.prems by (metis less_mult_imp_div_less mod_less_divisor mult_pos_pos zero_less_numeral)
  let ?arr = "arr[?q div 8 := arr ! (?q div 8) OR push_bit (?q mod 8) 1]"
  obtain arr' where arr': "CreateFilter_probes k (h + delta) delta (nb * 8) (length pre) (pre @ ?arr @ post) = Inr (pre @ arr' @ post)"
    "length arr' = nb" "\<And>p. bit_set arr' p \<longleftrightarrow> bit_set ?arr p \<or> (\<exists>j<k. p = probe (h + delta) delta (nb * 8) j)"
    using Suc.IH [OF Suc.prems(1), of ?arr "h + delta"] Suc.prems by auto
  have "(\<exists>j<Suc k. p = probe h delta (nb * 8) j) \<longleftrightarrow> p = ?q \<or> (\<exists>j<k. p = probe h delta (nb * 8) (Suc j))" for p
    by (auto simp: less_Suc_eq_0_disj) (auto simp: probe_def)
  then have "\<forall>p. bit_set arr' p \<longleftrightarrow> bit_set arr p \<or> (\<exists>j<Suc k. p = probe h delta (nb * 8) j)"
    using arr'(3) bit_set_update [of ?q arr] q Suc.prems by (auto simp: probe_Suc)
  moreover have "CreateFilter_probes (Suc k) h delta (nb * 8) (length pre) (pre @ arr @ post) =
      CreateFilter_probes k (h + delta) delta (nb * 8) (length pre) (pre @ ?arr @ post)"
    using q Suc.prems by (simp add: Let_def nth_append list_update_append)
  ultimately show ?case using arr'(1,2) by auto
qed simp

lemma CreateFilter_loop_bits:
  "0 < nb \<Longrightarrow> length arr = nb \<Longrightarrow> \<forall>s\<in>set keys. slice_ok s \<Longrightarrow>
     \<exists>arr'. CreateFilter_loop k (nb * 8) (length pre) keys (pre @ arr @ post) = Inr (pre @ arr' @ post) \<and>
       length arr' = nb \<and> (\<forall>p. bit_set arr' p \<longleftrightarrow> bit_set arr p \<or>
          (\<exists>s\<in>set keys. \<exists>j<k. let h = bloom_hash (slice_content s) in p = probe h (bloom_delta h) (nb * 8) j))"
proof (induction keys arbitrary: arr)
  case (Cons s keys)
  let ?h = "bloom_hash (slice_content s)"
  obtain a where a: "CreateFilter_probes k ?h (bloom_delta ?h) (nb * 8) (length pre) (pre @ arr @ post) = Inr (pre @ a @ post)"
    "length a = nb" "\<And>p. bit_set a p \<longleftrightarrow> bit_set arr p \<or> (\<exists>j<k. p = probe ?h (bloom_delta ?h) (nb * 8) j)"
    using CreateFilter_probes_bits [OF Cons.prems(1,2)] by meson
  obtain arr' where arr': "CreateFilter_loop k (nb * 8) (length pre) keys (pre @ a @ post) = Inr (pre @ arr' @ post)"
    "length arr' = nb" "\<And>p. bit_set arr' p \<longleftrightarrow> bit_set a p \<or>
          (\<exists>s\<in>set keys. \<exists>j<k. let h = bloom_hash (slice_content s) in p = probe h (bloom_delta h) (nb * 8) j)"
    using Cons.IH [OF Cons.prems(1) a(2)] Cons.prems(3) by auto
  show ?case
    using a arr' Cons.prems(3) by (intro exI [of _ arr']) (auto simp: BloomHash_content Let_def)
qed simp

lemma KeyMayMatch_probes_set:
  "0 < nb \<Longrightarrow> nb \<le> length arr \<Longrightarrow>
     KeyMayMatch_probes k h delta (nb * 8) arr = Inr (\<forall>j<k. bit_set arr (probe h delta (nb * 8) j))"
proof (induction k arbitrary: h)
  case (Suc k)
  let ?q = "unat h mod (nb * 8)"
  have "?q < nb * 8" using Suc.prems by simp
  then have q: "?q div 8 < nb" by (simp add: less_mult_imp_div_less)
  have "(arr ! (?q div 8) AND push_bit (?q mod 8) 1 = 0) \<longleftrightarrow> \<not> bit_set arr ?q"
    by (simp add: bit_set_def bit_iff_and_push_bit_not_eq_0)
  moreover have "(\<forall>j<Suc k. bit_set arr (probe h delta (nb * 8) j)) \<longleftrightarrow>
      bit_set arr ?q \<and> (\<forall>j<k. bit_set arr (probe h delta (nb * 8) (Suc j)))"
    by (auto simp: less_Suc_eq_0_disj) (auto simp: probe_def)
  ultimately show ?case using q Suc by (simp add: Let_def probe_Suc)
qed simp

section \<open>Building and querying\<close>

definition bloom_ok :: "BloomFilter \<Rightarrow> bool" where
  "bloom_ok bf \<longleftrightarrow> 0 \<le> bf_bits_per_key bf \<and> 1 \<le> bf_k bf \<and> bf_k bf \<le> 30"

lemma BloomFilter_make_ok: "bloom_ok (BloomFilter_make n)"
  by (simp add: bloom_ok_def BloomFilter_make_def Let_def)

text \<open>The size of the bit array for \<open>n\<close> keys.\<close>

definition filter_len :: "BloomFilter \<Rightarrow> nat \<Rightarrow> nat" where
  "filter_len bf n = (max 64 (n * nat (bf_bits_per_key bf)) + 7) div 8"

text \<open>Every probe of the key falls on a probe of one of the keys.\<close>

definition probes_hit :: "BloomFilter \<Rightarrow> bytes list \<Rightarrow> bytes \<Rightarrow> bool" where
  "probes_hit bf ks key \<longleftrightarrow>
     (let bits = filter_len bf (length ks) * 8; pos = (\<lambda>x. probe (bloom_hash x) (bloom_delta (bloom_hash x)) bits) in
      \<forall>j<bf_k bf. \<exists>x\<in>set ks. \<exists>i<bf_k bf. pos key j = pos x i)"

definition filter_rep :: "BloomFilter \<Rightarrow> bytes list \<Rightarrow> bytes \<Rightarrow> bool" where
  "filter_rep bf ks filt \<longleftrightarrow>
     length filt = filter_len bf (length ks) + 1 \<and>
     (\<forall>key rest. slice_ok key \<longrightarrow>
        BloomFilter_KeyMayMatch key \<lparr>sl_mem = filt @ rest, sl_size = length filt\<rparr> =
          Inr (probes_hit bf ks (slice_content key)))"

lemma filter_rep_match:
  "filter_rep bf ks filt \<Longrightarrow> slice_ok key \<Longrightarrow>
     BloomFilter_KeyMayMatch key \<lparr>sl_mem = filt @ rest, sl_size = length filt\<rparr> =
       Inr (probes_hit bf ks (slice_content key))"
  unfolding filter_rep_def by blast

lemma filter_rep_length: "filter_rep bf ks filt \<Longrightarrow> length filt = filter_len bf (length ks) + 1"
  unfolding filter_rep_def by blast

lemma char_to_size_small: "k \<le> 30 \<Longrightarrow> char_to_size (word_of_nat k) = k"
proof -
  assume k: "k \<le> 30"
  then have "sint (word_of_nat k :: byte) = int k"
    by (simp add: signed_of_nat signed_take_bit_int_eq_self_iff)
  then show ?thesis using k by (simp add: char_to_size_def int_to_size_def)
qed

lemma bit_set_replicate: "p < nb * 8 \<Longrightarrow> \<not> bit_set (replicate nb 0) p"
  by (simp add: bit_set_def less_mult_imp_div_less)

text \<open>An array with the bits of the probes of all keys, and the number of probes behind it, is a filter.\<close>

lemma bits_filter_rep:
  assumes bf: "bloom_ok bf" and len: "length arr = filter_len bf (length keys)"
    and bits: "\<And>p. p < filter_len bf (length keys) * 8 \<Longrightarrow> bit_set arr p \<longleftrightarrow>
      (\<exists>s\<in>set keys. \<exists>j<bf_k bf. let h = bloom_hash (slice_content s) in p = probe h (bloom_delta h) (filter_len bf (length keys) * 8) j)"
  shows "filter_rep bf (map slice_content keys) (arr @ [word_of_nat (bf_k bf)])"
  unfolding filter_rep_def
proof (intro conjI allI impI)
  fix key rest assume key: "slice_ok key"
  define nb where "nb = filter_len bf (length keys)"
  define k where "k = bf_k bf"
  have nb: "8 \<le> nb" by (simp add: nb_def filter_len_def)
  have k: "k \<le> 30" using bf by (simp add: k_def bloom_ok_def)
  have arr: "length arr = nb" by (simp add: nb_def len)
  let ?h = "bloom_hash (slice_content key)"
  have at: "(arr @ word_of_nat k # rest) ! nb = word_of_nat k" using arr by (simp add: nth_append)
  have "bit_set (arr @ word_of_nat k # rest) p \<longleftrightarrow>
      (\<exists>s\<in>set keys. \<exists>j<k. let h = bloom_hash (slice_content s) in p = probe h (bloom_delta h) (nb * 8) j)"
    if "p < nb * 8" for p
  proof -
    have "bit_set (arr @ word_of_nat k # rest) p = bit_set arr p"
      using that arr by (simp add: bit_set_def nth_append less_mult_imp_div_less)
    then show ?thesis using bits [of p] that by (simp add: nb_def k_def)
  qed
  moreover have "probe ?h d (nb * 8) j < nb * 8" for d j using nb by (simp add: probe_def)
  ultimately have "KeyMayMatch_probes k ?h (bloom_delta ?h) (nb * 8) (arr @ word_of_nat k # rest) =
      Inr (probes_hit bf (map slice_content keys) (slice_content key))"
    using KeyMayMatch_probes_set [of nb "arr @ word_of_nat k # rest" k ?h "bloom_delta ?h"] nb arr
    by (simp add: probes_hit_def Let_def flip: nb_def k_def)
  then show "BloomFilter_KeyMayMatch key \<lparr>sl_mem = (arr @ [word_of_nat (bf_k bf)]) @ rest, sl_size = length (arr @ [word_of_nat (bf_k bf)])\<rparr> =
      Inr (probes_hit bf (map slice_content keys) (slice_content key))"
    using nb arr k key at
    by (simp add: BloomFilter_KeyMayMatch_def Let_def char_to_size_small BloomHash_content flip: k_def)
qed (simp add: len)

lemma CreateFilter_filter:
  assumes bf: "bloom_ok bf" and ok: "\<forall>s\<in>set keys. slice_ok s"
    and n: "int (length keys) * bf_bits_per_key bf < 2 ^ 31"
  shows "\<exists>filt. CreateFilter bf keys (int (length keys)) dst = Inr (dst @ filt) \<and>
    length filt = filter_len bf (length keys) + 1 \<and> filter_rep bf (map slice_content keys) filt"
proof -
  define nb where "nb = filter_len bf (length keys)"
  define k where "k = bf_k bf"
  have nb: "8 \<le> nb" by (simp add: nb_def filter_len_def)
  have pos: "0 \<le> int (length keys) * bf_bits_per_key bf" using bf by (simp add: bloom_ok_def)
  have "nat (int (length keys) * bf_bits_per_key bf) = length keys * nat (bf_bits_per_key bf)"
    using bf by (simp add: bloom_ok_def nat_mult_distrib)
  then have bits: "int_to_size (int (length keys) * bf_bits_per_key bf) = length keys * nat (bf_bits_per_key bf)"
    using n pos by (simp add: int_to_size_def)
  have "CreateFilter bf keys (int (length keys)) dst =
      CreateFilter_loop k (nb * 8) (length dst) keys (dst @ replicate nb 0 @ [word_of_nat k])"
    using n pos bits by (simp add: CreateFilter_def int_mul_def Let_def nb_def k_def filter_len_def max_def not_le)
  moreover obtain arr where arr:
    "CreateFilter_loop k (nb * 8) (length dst) keys (dst @ replicate nb 0 @ [word_of_nat k]) = Inr (dst @ arr @ [word_of_nat k])"
    "length arr = nb" "\<And>p. bit_set arr p \<longleftrightarrow> bit_set (replicate nb 0) p \<or>
        (\<exists>s\<in>set keys. \<exists>j<k. let h = bloom_hash (slice_content s) in p = probe h (bloom_delta h) (nb * 8) j)"
    using CreateFilter_loop_bits [of nb "replicate nb 0" keys k dst "[word_of_nat k]"] ok nb by auto
  moreover have "bit_set arr p \<longleftrightarrow> (\<exists>s\<in>set keys. \<exists>j<k. let h = bloom_hash (slice_content s) in p = probe h (bloom_delta h) (nb * 8) j)"
    if "p < nb * 8" for p using arr(3) [of p] bit_set_replicate [OF that] by simp
  then have "filter_rep bf (map slice_content keys) (arr @ [word_of_nat k])"
    using bits_filter_rep [OF bf, of arr keys] arr(2) unfolding nb_def k_def by blast
  ultimately show ?thesis by (auto simp: nb_def)
qed

lemma probes_hit_member: "key \<in> set ks \<Longrightarrow> probes_hit bf ks key"
  by (auto simp: probes_hit_def Let_def)

text \<open>Any filter can be asked for any key.\<close>

lemma KeyMayMatch_total:
  assumes "slice_ok key" "slice_ok filt"
  shows "\<exists>b. BloomFilter_KeyMayMatch key filt = Inr b"
proof (cases "sl_size filt < 2")
  case False
  then have n: "0 < sl_size filt - 1" "sl_size filt - 1 < length (sl_mem filt)" using assms(2) by (auto simp: slice_ok_def)
  show ?thesis
    using False n KeyMayMatch_probes_set [of "sl_size filt - 1" "sl_mem filt"] BloomHash_content [OF assms(1)]
    by (cases "30 < char_to_size (sl_mem filt ! (sl_size filt - 1))") (auto simp: BloomFilter_KeyMayMatch_def Let_def)
qed (auto simp: BloomFilter_KeyMayMatch_def)

section \<open>Properties\<close>

text \<open>C33: \<^verbatim>\<open>CreateFilter\<close> returns, writes only behind what the string held, and the filter it appends
  answers \<^verbatim>\<open>KeyMayMatch\<close> for every key: true exactly when each probe of the key falls on a probe of
  an added key. In particular an added key always matches.\<close>

theorem bloom_no_false_negative:
  assumes "\<forall>s\<in>set keys. slice_ok s" "length keys * bits_per_key < 2 ^ 31" "slice_ok key"
  shows "\<exists>filt. CreateFilter (BloomFilter_make bits_per_key) keys (int (length keys)) dst = Inr (dst @ filt) \<and>
    BloomFilter_KeyMayMatch key (Slice_string filt) =
      Inr (probes_hit (BloomFilter_make bits_per_key) (map slice_content keys) (slice_content key)) \<and>
    (slice_content key \<in> slice_content ` set keys \<longrightarrow> BloomFilter_KeyMayMatch key (Slice_string filt) = Inr True)"
proof -
  let ?bf = "BloomFilter_make bits_per_key"
  have "int (length keys) * bf_bits_per_key ?bf = int (length keys * bits_per_key)"
    by (simp add: BloomFilter_make_def Let_def)
  then have "int (length keys) * bf_bits_per_key ?bf < 2 ^ 31" using assms(2) by (simp only: of_nat_less_numeral_power_cancel_iff)
  from CreateFilter_filter [OF BloomFilter_make_ok assms(1) this, of dst]
  obtain filt where f: "CreateFilter ?bf keys (int (length keys)) dst = Inr (dst @ filt)"
    "filter_rep ?bf (map slice_content keys) filt" by blast
  have "BloomFilter_KeyMayMatch key (Slice_string filt) = Inr (probes_hit ?bf (map slice_content keys) (slice_content key))"
    using filter_rep_match [OF f(2) assms(3)] by (simp add: Slice_string_def string_data_def)
  then show ?thesis using f(1) probes_hit_member [of "slice_content key" "map slice_content keys" ?bf] by auto
qed

theorem bloom_no_false_negative_witness:
  "\<exists>filt. CreateFilter (BloomFilter_make 10) [Slice_string [97], Slice_string [98, 99]] (int (length [Slice_string [97], Slice_string [98, 99]])) [7] = Inr ([7] @ filt) \<and>
    BloomFilter_KeyMayMatch (Slice_string [97]) (Slice_string filt) =
      Inr (probes_hit (BloomFilter_make 10) (map slice_content [Slice_string [97], Slice_string [98, 99]]) (slice_content (Slice_string [97]))) \<and>
    (slice_content (Slice_string [97]) \<in> slice_content ` set [Slice_string [97], Slice_string [98, 99]] \<longrightarrow>
      BloomFilter_KeyMayMatch (Slice_string [97]) (Slice_string filt) = Inr True)"
  by (rule bloom_no_false_negative) simp_all

end
