(* ===== verification/FilterBlocks.thy ===== *)
theory FilterBlocks
  imports BloomFilters
begin

text \<open>
  The filter block of a table: \<^verbatim>\<open>FilterBlockBuilder\<close> (\<^verbatim>\<open>disk/filterblock_builder.h\<close>,
  \<^verbatim>\<open>disk/filterblock_builder.cc\<close>) and \<^verbatim>\<open>FilterBlockReader\<close> (\<^verbatim>\<open>disk/filterblock_reader.h\<close>,
  \<^verbatim>\<open>disk/filterblock_reader.cc\<close>). The block holds one Bloom filter for each 2048 bytes of data
  block offsets, then the offsets of the filters, the offset of that array and the base.
\<close>

definition kBloomFilterPerKeySize :: nat where
  "kBloomFilterPerKeySize = 10"

definition kFilterBaseLg :: nat where
  "kFilterBaseLg = 11"

definition kFilterBase :: nat where
  "kFilterBase = 2 ^ kFilterBaseLg"

section \<open>The builder\<close>

text \<open>The scratch vector \<^verbatim>\<open>tmp_keys_\<close> is empty outside of \<^verbatim>\<open>GenerateFilter\<close> and is a local value here.\<close>

record FilterBlockBuilder =
  fb_bloom :: BloomFilter
  fb_keys :: bytes
  fb_start :: "u32 list"
  fb_filter_offsets :: "u32 list"
  fb_result :: bytes

definition FilterBlockBuilder_make :: FilterBlockBuilder where
  "FilterBlockBuilder_make =
     \<lparr>fb_bloom = BloomFilter_make kBloomFilterPerKeySize, fb_keys = [], fb_start = [],
      fb_filter_offsets = [], fb_result = []\<rparr>"

definition AddKey :: "slice \<Rightarrow> FilterBlockBuilder \<Rightarrow> FilterBlockBuilder res" where
  "AddKey key b =
     rbind (read_mem (sl_mem key) (sl_size key)) (\<lambda>d.
       Inr (b\<lparr>fb_start := fb_start b @ [word_of_nat (length (fb_keys b))], fb_keys := fb_keys b @ d\<rparr>))"

text \<open>The keys of the flattened string, from their starts and the final end.\<close>

fun tmp_keys :: "bytes \<Rightarrow> u32 list \<Rightarrow> slice list" where
  "tmp_keys keys (s # e # start) =
     Slice_buf (drop (unat s) (string_data keys)) (unat (e - s)) # tmp_keys keys (e # start)"
| "tmp_keys keys start = []"

definition GenerateFilter :: "FilterBlockBuilder \<Rightarrow> FilterBlockBuilder res" where
  "GenerateFilter b =
     (let num_keys = length (fb_start b) in
      if num_keys = 0 then
        Inr (b\<lparr>fb_filter_offsets := fb_filter_offsets b @ [word_of_nat (length (fb_result b))]\<rparr>)
      else
        let start = fb_start b @ [word_of_nat (length (fb_keys b))];
            tmp = tmp_keys (fb_keys b) start;
            offsets = fb_filter_offsets b @ [word_of_nat (length (fb_result b))] in
        rbind (CreateFilter (fb_bloom b) tmp (sint (word_of_nat num_keys :: u32)) (fb_result b)) (\<lambda>result.
          Inr (b\<lparr>fb_filter_offsets := offsets, fb_result := result, fb_keys := [], fb_start := []\<rparr>)))"

fun StartBlock_loop :: "nat \<Rightarrow> nat \<Rightarrow> FilterBlockBuilder \<Rightarrow> FilterBlockBuilder res" where
  "StartBlock_loop fuel filter_index b =
     (if filter_index > length (fb_filter_offsets b) then
        (case fuel of 0 \<Rightarrow> Inl Diverged
         | Suc fuel \<Rightarrow> rbind (GenerateFilter b) (\<lambda>b. StartBlock_loop fuel filter_index b))
      else Inr b)"

declare StartBlock_loop.simps [simp del]

text \<open>Each round adds an offset, so \<open>filter_index\<close> rounds are enough.\<close>

definition StartBlock :: "u64 \<Rightarrow> FilterBlockBuilder \<Rightarrow> FilterBlockBuilder res" where
  "StartBlock block_offset b =
     (let filter_index = unat block_offset div kFilterBase in
      rbind (assert_that (filter_index \<ge> length (fb_filter_offsets b))) (\<lambda>_.
        StartBlock_loop filter_index filter_index b))"

definition FilterBlockBuilder_Finish :: "FilterBlockBuilder \<Rightarrow> (slice \<times> FilterBlockBuilder) res" where
  "FilterBlockBuilder_Finish b =
     rbind (if fb_start b \<noteq> [] then GenerateFilter b else Inr b) (\<lambda>b.
       let array_offset = word_of_nat (length (fb_result b)) :: u32;
           result = fold (\<lambda>off r. PutFixed32 r off) (fb_filter_offsets b) (fb_result b);
           result = PutFixed32 result array_offset @ [word_of_nat kFilterBaseLg] in
       Inr (Slice_string result, b\<lparr>fb_result := result\<rparr>))"

section \<open>The reader\<close>

text \<open>\<^verbatim>\<open>data_\<close> and \<^verbatim>\<open>offset_\<close> are null until the contents are accepted; \<open>fr_offset\<close> is \<^verbatim>\<open>offset_ - data_\<close>.\<close>

record FilterBlockReader =
  fr_data :: "bytes option"
  fr_offset :: nat
  fr_num :: nat
  fr_base_lg :: nat

definition FilterBlockReader_make :: "slice \<Rightarrow> FilterBlockReader res" where
  "FilterBlockReader_make contents =
     (let r = \<lparr>fr_data = None, fr_offset = 0, fr_num = 0, fr_base_lg = 0\<rparr>; n = sl_size contents in
      if n < 5 then Inr r
      else
        rbind (Slice_index contents (n - 1)) (\<lambda>base_lg.
        let r = r\<lparr>fr_base_lg := char_to_size base_lg\<rparr> in
        rbind (DecodeFixed32 (drop (n - 5) (sl_mem contents))) (\<lambda>last_word.
          if unat last_word > n - 5 then Inr r
          else Inr (r\<lparr>fr_data := Some (sl_mem contents), fr_offset := unat last_word,
                      fr_num := (n - 5 - unat last_word) div 4\<rparr>))))"

definition FilterBlockReader_KeyMayMatch :: "FilterBlockReader \<Rightarrow> u64 \<Rightarrow> slice \<Rightarrow> bool res" where
  "FilterBlockReader_KeyMayMatch r block_offset key =
     (if fr_base_lg r \<ge> 64 then Inl BadShift
      else
        let index = unat (drop_bit (fr_base_lg r) block_offset) in
        if index < fr_num r then
          (case fr_data r of
             None \<Rightarrow> Inl NullDeref
           | Some data \<Rightarrow>
               rbind (DecodeFixed32 (drop (fr_offset r + index * 4) data)) (\<lambda>start.
               rbind (DecodeFixed32 (drop (fr_offset r + index * 4 + 4) data)) (\<lambda>limit.
                 if start \<le> limit \<and> unat limit \<le> fr_offset r
                 then BloomFilter_KeyMayMatch key (Slice_buf (drop (unat start) data) (unat (limit - start)))
                 else if start = limit then Inr False
                 else Inr True)))
        else Inr True)"

section \<open>The keys and filters a builder holds\<close>

text \<open>The start offsets of a list of strings laid out one after the other.\<close>

fun starts :: "nat \<Rightarrow> bytes list \<Rightarrow> u32 list" where
  "starts n [] = []"
| "starts n (x # xs) = word_of_nat n # starts (n + length x) xs"

lemma starts_snoc: "starts n (xs @ [x]) = starts n xs @ [word_of_nat (n + length (concat xs))]"
  by (induction xs arbitrary: n) (simp_all add: add.assoc)

lemma length_starts [simp]: "length (starts n xs) = length xs"
  by (induction xs arbitrary: n) simp_all

lemma starts_Nil_iff [simp]: "starts n xs = [] \<longleftrightarrow> xs = []"
  by (cases xs) simp_all

lemma starts_nth:
  "i \<le> length xs \<Longrightarrow>
     (starts n xs @ [word_of_nat (n + length (concat xs))]) ! i = word_of_nat (n + length (concat (take i xs)))"
proof (induction xs arbitrary: n i)
  case (Cons x xs)
  then show ?case by (cases i) (simp_all add: add.assoc [symmetric] del: of_nat_add)
qed simp

lemma unat_diff_32:
  "a \<le> b \<Longrightarrow> b < 2 ^ 32 \<Longrightarrow> unat (word_of_nat b - word_of_nat a :: u32) = b - a"
  by (metis of_nat_diff less_imp_diff_less unat_word_of_nat_32)

lemma tmp_keys_starts:
  "keys = pre @ concat ks \<Longrightarrow> length keys < 2 ^ 32 \<Longrightarrow>
     map slice_content (tmp_keys keys (starts (length pre) ks @ [word_of_nat (length keys)])) = ks \<and>
     (\<forall>s\<in>set (tmp_keys keys (starts (length pre) ks @ [word_of_nat (length keys)])). slice_ok s)"
proof (induction ks arbitrary: pre)
  case (Cons k ks)
  obtain e rest where st: "starts (length pre + length k) ks @ [word_of_nat (length keys)] = e # rest"
    by (cases "starts (length pre + length k) ks @ [word_of_nat (length keys)]") auto
  have e: "e = word_of_nat (length pre + length k)"
    using st Cons.prems(1) by (cases ks) auto
  have p: "unat (word_of_nat (length pre) :: u32) = length pre" using Cons.prems by simp
  have d: "unat (e - word_of_nat (length pre)) = length k"
    using Cons.prems e unat_diff_32 [of "length pre" "length pre + length k"] by simp
  have "tmp_keys keys (starts (length pre) (k # ks) @ [word_of_nat (length keys)]) =
      Slice_buf (k @ concat ks @ [0]) (length k) # tmp_keys keys (e # rest)"
    using st p d Cons.prems(1) by (simp add: string_data_def)
  moreover have "slice_ok (Slice_buf (k @ concat ks @ [0]) (length k))" "slice_content (Slice_buf (k @ concat ks @ [0]) (length k)) = k"
    using Cons.prems by (simp_all add: slice_ok_def slice_content_def Slice_buf_def)
  ultimately show ?case
    using Cons.IH [of "pre @ k"] Cons.prems st by simp
qed simp

lemma length_tmp_keys: "length (tmp_keys keys (starts n ks @ [e])) = length ks"
proof (induction ks arbitrary: n)
  case (Cons k ks)
  then show ?case using Cons [of "n + length k"] by (cases ks) (simp_all del: of_nat_add)
qed simp

abbreviation the_bloom :: BloomFilter where
  "the_bloom \<equiv> BloomFilter_make kBloomFilterPerKeySize"

text \<open>
  The builder has finished the filters of the key lists \<open>fs\<close> and holds the keys \<open>ks\<close> for the next one.
\<close>

definition filters_rep :: "bytes list list \<Rightarrow> bytes list \<Rightarrow> bool" where
  "filters_rep fs filts \<longleftrightarrow>
     list_all2 (\<lambda>ks f. if ks = [] then f = [] else filter_rep the_bloom ks f) fs filts"

definition builder_rep :: "FilterBlockBuilder \<Rightarrow> bytes list list \<Rightarrow> bytes list \<Rightarrow> bool" where
  "builder_rep b fs ks \<longleftrightarrow>
     fb_bloom b = the_bloom \<and> fb_keys b = concat ks \<and> fb_start b = starts 0 ks \<and>
     length (concat ks) < 2 ^ 32 \<and> length ks * kBloomFilterPerKeySize < 2 ^ 31 \<and>
     (\<exists>filts. filters_rep fs filts \<and> fb_result b = concat filts \<and> fb_filter_offsets b = starts 0 filts)"

lemma builder_rep_make: "builder_rep FilterBlockBuilder_make [] []"
  by (simp add: builder_rep_def FilterBlockBuilder_make_def filters_rep_def)

lemma builder_rep_AddKey:
  assumes "builder_rep b fs ks" "slice_ok key" "length (concat ks) + sl_size key < 2 ^ 32"
    "(length ks + 1) * kBloomFilterPerKeySize < 2 ^ 31"
  shows "\<exists>b'. AddKey key b = Inr b' \<and> builder_rep b' fs (ks @ [slice_content key])"
proof -
  have "read_mem (sl_mem key) (sl_size key) = Inr (slice_content key)"
    using assms(2) by (auto simp: slice_content_def)
  then show ?thesis
    using assms by (simp add: AddKey_def builder_rep_def starts_snoc)
qed

lemma sint_num_keys: "n * kBloomFilterPerKeySize < 2 ^ 31 \<Longrightarrow> sint (word_of_nat n :: u32) = int n"
  by (simp add: kBloomFilterPerKeySize_def signed_of_nat signed_take_bit_int_eq_self_iff)

lemma filters_rep_snoc:
  "filters_rep fs filts \<Longrightarrow> (if ks = [] then f = [] else filter_rep the_bloom ks f) \<Longrightarrow>
     filters_rep (fs @ [ks]) (filts @ [f])"
  by (simp add: filters_rep_def list_all2_appendI)

lemma builder_rep_GenerateFilter:
  assumes "builder_rep b fs ks"
  shows "\<exists>b'. GenerateFilter b = Inr b' \<and> builder_rep b' (fs @ [ks]) []"
proof -
  obtain filts where f: "filters_rep fs filts" "fb_result b = concat filts" "fb_filter_offsets b = starts 0 filts"
    using assms by (auto simp: builder_rep_def)
  show ?thesis
  proof (cases "ks = []")
    case True
    then show ?thesis
      using assms f filters_rep_snoc [OF f(1), of ks "[]"]
      by (auto simp: GenerateFilter_def builder_rep_def starts_snoc intro!: exI [of _ "filts @ [[]]"])
  next
    case False
    let ?tmp = "tmp_keys (fb_keys b) (starts 0 ks @ [word_of_nat (length (fb_keys b))])"
    have t: "map slice_content ?tmp = ks" "\<forall>s\<in>set ?tmp. slice_ok s" "length ?tmp = length ks"
      using tmp_keys_starts [of "fb_keys b" "[]" ks] assms by (simp_all add: builder_rep_def length_tmp_keys)
    have "length ks * kBloomFilterPerKeySize < 2 ^ 31" using assms by (simp add: builder_rep_def)
    then have "int (length ?tmp) * bf_bits_per_key the_bloom < 2 ^ 31"
      unfolding t(3) by (simp add: BloomFilter_make_def Let_def kBloomFilterPerKeySize_def)
    from CreateFilter_filter [OF BloomFilter_make_ok t(2) this, of "fb_result b"]
    obtain filt where filt: "CreateFilter the_bloom ?tmp (int (length ks)) (fb_result b) = Inr (fb_result b @ filt)"
      "filter_rep the_bloom ks filt" using t by auto
    then have "filters_rep (fs @ [ks]) (filts @ [filt])"
      using False filters_rep_snoc [OF f(1), of ks filt] by simp
    then show ?thesis
      using False assms f filt
      by (auto simp: GenerateFilter_def Let_def builder_rep_def starts_snoc sint_num_keys intro!: exI [of _ "filts @ [filt]"])
  qed
qed

lemma builder_rep_length: "builder_rep b fs ks \<Longrightarrow> length (fb_filter_offsets b) = length fs"
  by (auto simp: builder_rep_def filters_rep_def list_all2_lengthD)

text \<open>The filters that \<^verbatim>\<open>StartBlock\<close> adds to reach a filter index.\<close>

definition added_filters :: "nat \<Rightarrow> bytes list list \<Rightarrow> bytes list \<Rightarrow> bytes list list" where
  "added_filters n fs ks = (if n = 0 then fs else fs @ ks # replicate (n - 1) [])"

lemma StartBlock_loop_rep:
  "builder_rep b fs ks \<Longrightarrow> n \<le> fuel \<Longrightarrow>
     \<exists>b'. StartBlock_loop fuel (length fs + n) b = Inr b' \<and>
       builder_rep b' (added_filters n fs ks) (if n = 0 then ks else [])"
proof (induction n arbitrary: b fs ks fuel)
  case 0
  then show ?case
    by (subst StartBlock_loop.simps) (simp add: builder_rep_length added_filters_def)
next
  case (Suc n)
  obtain f where fuel: "fuel = Suc f" using Suc.prems(2) by (cases fuel) auto
  obtain b1 where b1: "GenerateFilter b = Inr b1" "builder_rep b1 (fs @ [ks]) []"
    using builder_rep_GenerateFilter [OF Suc.prems(1)] by blast
  have "n \<le> f" using Suc.prems(2) fuel by simp
  from Suc.IH [OF b1(2) this] obtain b' where
    b': "StartBlock_loop f (length (fs @ [ks]) + n) b1 = Inr b'" "builder_rep b' (added_filters n (fs @ [ks]) []) []"
    by auto
  have "added_filters n (fs @ [ks]) [] = added_filters (Suc n) fs ks"
    by (cases n) (simp_all add: added_filters_def)
  then show ?case
    using b1 b' builder_rep_length [OF Suc.prems(1)] fuel by (subst StartBlock_loop.simps) simp
qed

lemma builder_rep_StartBlock:
  assumes "builder_rep b fs ks" "length fs \<le> unat off div kFilterBase"
  shows "\<exists>b'. StartBlock off b = Inr b' \<and>
    (let n = unat off div kFilterBase - length fs in
     builder_rep b' (added_filters n fs ks) (if n = 0 then ks else []))"
  using StartBlock_loop_rep [OF assms(1), of "unat off div kFilterBase - length fs" "unat off div kFilterBase"] assms
  by (simp add: StartBlock_def Let_def builder_rep_length)

section \<open>Reading the block back\<close>

lemma fold_PutFixed32: "fold (\<lambda>off r. PutFixed32 r off) ws r = r @ concat (map EncodeFixed32 ws)"
  by (induction ws arbitrary: r) (simp_all add: PutFixed32_def)

lemma DecodeFixed32_nth:
  "i < length ws \<Longrightarrow> DecodeFixed32 (drop (length pre + i * 4) (pre @ concat (map EncodeFixed32 ws) @ rest)) = Inr (ws ! i)"
proof (induction ws arbitrary: pre i)
  case (Cons w ws)
  show ?case
  proof (cases i)
    case 0
    then show ?thesis by (simp add: DecodeFixed32_EncodeFixed32)
  next
    case (Suc j)
    then show ?thesis using Cons.IH [of j "pre @ EncodeFixed32 w"] Cons.prems by (simp add: algebra_simps)
  qed
qed simp

text \<open>The bytes of a finished block.\<close>

definition filter_block :: "bytes list \<Rightarrow> bytes" where
  "filter_block filts =
     concat filts @ concat (map EncodeFixed32 (starts 0 filts @ [word_of_nat (length (concat filts))])) @ [11]"

lemma Finish_block:
  assumes "builder_rep b fs ks"
  defines "fs' \<equiv> if ks = [] then fs else fs @ [ks]"
  shows "\<exists>b' filts. FilterBlockBuilder_Finish b = Inr (Slice_string (filter_block filts), b') \<and> filters_rep fs' filts"
proof -
  obtain b1 where b1: "(if fb_start b \<noteq> [] then GenerateFilter b else Inr b) = Inr b1" "builder_rep b1 fs' []"
    using builder_rep_GenerateFilter [OF assms(1)] assms(1)
    by (cases "ks = []") (auto simp: builder_rep_def fs'_def)
  then obtain filts where "filters_rep fs' filts" "fb_result b1 = concat filts" "fb_filter_offsets b1 = starts 0 filts"
    by (auto simp: builder_rep_def)
  then show ?thesis
    using b1(1) by (auto simp: FilterBlockBuilder_Finish_def Let_def fold_PutFixed32 [unfolded PutFixed32_def] PutFixed32_def filter_block_def kFilterBaseLg_def)
qed

lemma length_concat_Fixed32: "length (concat (map EncodeFixed32 ws)) = length ws * 4"
  by (induction ws) simp_all

lemma reader_make_block:
  assumes "length (concat filts) < 2 ^ 32"
  shows "FilterBlockReader_make (Slice_string (filter_block filts)) =
    Inr \<lparr>fr_data = Some (filter_block filts @ [0]), fr_offset = length (concat filts), fr_num = length filts, fr_base_lg = 11\<rparr>"
proof -
  define L where "L = length (concat filts)"
  let ?ws = "starts 0 filts @ [word_of_nat L :: u32]"
  have blk: "filter_block filts = concat filts @ concat (map EncodeFixed32 ?ws) @ [11]"
    by (simp add: filter_block_def L_def)
  have n: "length (filter_block filts) = L + length filts * 4 + 5"
    by (simp add: blk length_concat_Fixed32 flip: L_def)
  have "DecodeFixed32 (drop (L + length filts * 4) (concat filts @ concat (map EncodeFixed32 ?ws) @ [11, 0])) = Inr (?ws ! length filts)"
    using DecodeFixed32_nth [of "length filts" ?ws "concat filts" "[11, 0]"] by (simp only: L_def [symmetric]) simp
  then have dec: "DecodeFixed32 (drop (L + length filts * 4) (filter_block filts @ [0])) = Inr (word_of_nat L)"
    by (simp add: blk nth_append)
  have last: "(filter_block filts @ [0]) ! (4 + (L + length filts * 4)) = 11"
    by (simp add: blk nth_append length_concat_Fixed32 flip: L_def)
  have c: "char_to_size 11 = 11" using char_to_size_small [of 11] by simp
  show ?thesis
    using assms last
    by (simp add: FilterBlockReader_make_def Let_def Slice_string_def string_data_def n dec Slice_index_def c flip: L_def del: drop_append)
qed

lemma nth_concat_split:
  "i < length xs \<Longrightarrow> concat xs = concat (take i xs) @ xs ! i @ concat (drop (Suc i) xs)"
  by (metis append_take_drop_id concat.simps(2) concat_append Cons_nth_drop_Suc)

lemma empty_filter: "BloomFilter_KeyMayMatch key \<lparr>sl_mem = mem, sl_size = 0\<rparr> = Inr False"
  by (simp add: BloomFilter_KeyMayMatch_def)

text \<open>The part of a filter block that belongs to one filter, as the reader finds it.\<close>

lemma filter_block_part:
  assumes i: "i < length filts" and L: "length (concat filts) < 2 ^ 32"
  obtains s rest where "DecodeFixed32 (drop (length (concat filts) + i * 4) (filter_block filts @ [0])) = Inr (word_of_nat s)"
    "DecodeFixed32 (drop (length (concat filts) + i * 4 + 4) (filter_block filts @ [0])) = Inr (word_of_nat (s + length (filts ! i)))"
    "s + length (filts ! i) \<le> length (concat filts)" "drop s (filter_block filts @ [0]) = filts ! i @ rest"
proof -
  let ?ws = "starts 0 filts @ [word_of_nat (length (concat filts)) :: u32]"
  have blk: "filter_block filts @ [0] = concat filts @ concat (map EncodeFixed32 ?ws) @ [11, 0]"
    by (simp add: filter_block_def)
  have at: "?ws ! j = word_of_nat (length (concat (take j filts)))" if "j \<le> length filts" for j
    using starts_nth [OF that, of 0] by simp
  let ?s = "length (concat (take i filts))" and ?f = "filts ! i"
  have sp: "concat filts = concat (take i filts) @ ?f @ concat (drop (Suc i) filts)"
    by (rule nth_concat_split [OF i])
  have e: "length (concat (take (Suc i) filts)) = ?s + length ?f"
    using i by (simp add: take_Suc_conv_app_nth)
  show thesis
  proof (rule that [of ?s "concat (drop (Suc i) filts) @ concat (map EncodeFixed32 ?ws) @ [11, 0]"])
    show "DecodeFixed32 (drop (length (concat filts) + i * 4) (filter_block filts @ [0])) = Inr (word_of_nat ?s)"
      using DecodeFixed32_nth [of i ?ws "concat filts" "[11, 0]"] i at [of i] unfolding blk by (simp add: ac_simps)
    show "DecodeFixed32 (drop (length (concat filts) + i * 4 + 4) (filter_block filts @ [0])) = Inr (word_of_nat (?s + length ?f))"
      using DecodeFixed32_nth [of "Suc i" ?ws "concat filts" "[11, 0]"] i at [of "Suc i"] e unfolding blk by (simp add: ac_simps)
    show "?s + length ?f \<le> length (concat filts)" using sp by (metis le_add1 length_append add.assoc)
    show "drop ?s (filter_block filts @ [0]) = ?f @ concat (drop (Suc i) filts) @ concat (map EncodeFixed32 ?ws) @ [11, 0]"
      unfolding blk by (subst sp) simp
  qed
qed

lemma reader_lookup:
  assumes fs: "filters_rep fs filts" and L: "length (concat filts) < 2 ^ 32" and key: "slice_ok key"
    and r: "r = \<lparr>fr_data = Some (filter_block filts @ [0]), fr_offset = length (concat filts), fr_num = length filts, fr_base_lg = 11\<rparr>"
  shows "FilterBlockReader_KeyMayMatch r off key =
    (let i = unat off div kFilterBase in
     Inr (i < length fs \<longrightarrow> fs ! i \<noteq> [] \<and> probes_hit the_bloom (fs ! i) (slice_content key)))"
proof (cases "unat off div kFilterBase < length fs")
  case True
  define i where "i = unat off div kFilterBase"
  have len: "length filts = length fs" using fs by (simp add: filters_rep_def list_all2_lengthD)
  have i: "i < length filts" using True len by (simp add: i_def)
  have idx: "unat (drop_bit 11 off) = i" by (simp add: i_def unat_drop_bit_div kFilterBase_def kFilterBaseLg_def)
  let ?f = "filts ! i"
  obtain s rest where part: "DecodeFixed32 (drop (length (concat filts) + i * 4) (filter_block filts @ [0])) = Inr (word_of_nat s)"
    "DecodeFixed32 (drop (length (concat filts) + i * 4 + 4) (filter_block filts @ [0])) = Inr (word_of_nat (s + length ?f))"
    "s + length ?f \<le> length (concat filts)" "drop s (filter_block filts @ [0]) = ?f @ rest"
    by (rule filter_block_part [OF i L])
  have u: "unat (word_of_nat s :: u32) = s" "unat (word_of_nat (s + length ?f) :: u32) = s + length ?f"
    "unat (word_of_nat (s + length ?f) - word_of_nat s :: u32) = length ?f"
    using L part(3) unat_diff_32 [of s "s + length ?f"] by (simp_all del: of_nat_add)
  have "FilterBlockReader_KeyMayMatch r off key = BloomFilter_KeyMayMatch key (Slice_buf (?f @ rest) (length ?f))"
    using i part u by (simp add: FilterBlockReader_KeyMayMatch_def Let_def r idx word_le_nat_alt del: of_nat_add)
  moreover have "if fs ! i = [] then ?f = [] else filter_rep the_bloom (fs ! i) ?f"
    using fs i len by (simp add: filters_rep_def list_all2_conv_all_nth)
  ultimately have "FilterBlockReader_KeyMayMatch r off key = Inr (fs ! i \<noteq> [] \<and> probes_hit the_bloom (fs ! i) (slice_content key))"
    using key by (cases "fs ! i = []") (simp_all add: empty_filter filter_rep_match Slice_buf_def)
  then show ?thesis using True by (simp add: Let_def flip: i_def)
next
  case False
  moreover have "length filts = length fs" using fs by (simp add: filters_rep_def list_all2_lengthD)
  ultimately show ?thesis
    by (simp add: FilterBlockReader_KeyMayMatch_def r Let_def unat_drop_bit_div kFilterBase_def kFilterBaseLg_def)
qed

lemma filter_block_size: "length (concat filts) < length (filter_block filts)"
  by (simp add: filter_block_def)

section \<open>Properties\<close>

text \<open>\<^verbatim>\<open>AddKey\<close> adds one key to the filter under construction; \<^verbatim>\<open>StartBlock\<close>, for an offset that does
  not lie before the filters already written, returns after finitely many rounds, closes the filter
  of the keys added so far and leaves empty filters up to the index of the offset.\<close>

theorem filter_builder_steps:
  assumes "builder_rep b fs ks" "slice_ok key" "length (concat ks) + sl_size key < 2 ^ 32"
    "(length ks + 1) * kBloomFilterPerKeySize < 2 ^ 31" "length fs \<le> unat off div kFilterBase"
  shows "(\<exists>b'. AddKey key b = Inr b' \<and> builder_rep b' fs (ks @ [slice_content key])) \<and>
    (\<exists>b'. StartBlock off b = Inr b' \<and>
      (let n = unat off div kFilterBase - length fs in
       builder_rep b' (if n = 0 then fs else fs @ ks # replicate (n - 1) []) (if n = 0 then ks else [])))"
  using builder_rep_AddKey [OF assms(1-4)] builder_rep_StartBlock [OF assms(1,5)]
  by (simp add: added_filters_def)

theorem filter_builder_steps_witness:
  "(\<exists>b'. AddKey (Slice_string [97]) FilterBlockBuilder_make = Inr b' \<and> builder_rep b' [] ([] @ [slice_content (Slice_string [97])])) \<and>
    (\<exists>b'. StartBlock 5000 FilterBlockBuilder_make = Inr b' \<and>
      (let n = unat (5000 :: u64) div kFilterBase - length ([] :: bytes list list) in
       builder_rep b' (if n = 0 then [] else [] @ [] # replicate (n - 1) []) (if n = 0 then [] else [])))"
  by (rule filter_builder_steps) (simp_all add: builder_rep_make kBloomFilterPerKeySize_def)

text \<open>C34: the block that \<^verbatim>\<open>Finish\<close> returns is read by \<^verbatim>\<open>FilterBlockReader\<close>: at an offset whose filter
  exists, \<^verbatim>\<open>KeyMayMatch\<close> answers from the Bloom filter of exactly the keys of that filter, so it is
  true for each of them and false when there are none; past the last filter it answers true.\<close>

theorem filter_block_roundtrip:
  assumes "builder_rep b fs ks" "slice_ok key"
  shows "\<exists>block b'. FilterBlockBuilder_Finish b = Inr (block, b') \<and>
    (sl_size block < 2 ^ 32 \<longrightarrow>
      (\<exists>r. FilterBlockReader_make block = Inr r \<and>
        (let fs' = (if ks = [] then fs else fs @ [ks]); i = unat off div kFilterBase in
         FilterBlockReader_KeyMayMatch r off key =
           Inr (i < length fs' \<longrightarrow> fs' ! i \<noteq> [] \<and> probes_hit the_bloom (fs' ! i) (slice_content key)) \<and>
         (i < length fs' \<longrightarrow> slice_content key \<in> set (fs' ! i) \<longrightarrow>
           FilterBlockReader_KeyMayMatch r off key = Inr True))))"
proof -
  let ?fs = "if ks = [] then fs else fs @ [ks]"
  obtain b' filts where f: "FilterBlockBuilder_Finish b = Inr (Slice_string (filter_block filts), b')" "filters_rep ?fs filts"
    using Finish_block [OF assms(1)] by blast
  show ?thesis
  proof (intro exI conjI impI)
    show "FilterBlockBuilder_Finish b = Inr (Slice_string (filter_block filts), b')" by (rule f)
    assume "sl_size (Slice_string (filter_block filts)) < 2 ^ 32"
    then have L: "length (concat filts) < 2 ^ 32" using filter_block_size [of filts] by simp
    show "FilterBlockReader_make (Slice_string (filter_block filts)) = Inr \<lparr>fr_data = Some (filter_block filts @ [0]),
        fr_offset = length (concat filts), fr_num = length filts, fr_base_lg = 11\<rparr>" by (rule reader_make_block [OF L])
    show "let fs' = ?fs; i = unat off div kFilterBase in
         FilterBlockReader_KeyMayMatch \<lparr>fr_data = Some (filter_block filts @ [0]),
             fr_offset = length (concat filts), fr_num = length filts, fr_base_lg = 11\<rparr> off key =
           Inr (i < length fs' \<longrightarrow> fs' ! i \<noteq> [] \<and> probes_hit the_bloom (fs' ! i) (slice_content key)) \<and>
         (i < length fs' \<longrightarrow> slice_content key \<in> set (fs' ! i) \<longrightarrow>
           FilterBlockReader_KeyMayMatch \<lparr>fr_data = Some (filter_block filts @ [0]),
             fr_offset = length (concat filts), fr_num = length filts, fr_base_lg = 11\<rparr> off key = Inr True)"
      using reader_lookup [OF f(2) L assms(2) refl, of off] by (auto simp: Let_def probes_hit_member)
  qed
qed

theorem filter_block_roundtrip_witness:
  "\<exists>b block b' r. AddKey (Slice_string [97]) FilterBlockBuilder_make = Inr b \<and>
     FilterBlockBuilder_Finish b = Inr (block, b') \<and> FilterBlockReader_make block = Inr r \<and>
     FilterBlockReader_KeyMayMatch r 7 (Slice_string [97]) = Inr True"
proof -
  obtain b where b: "AddKey (Slice_string [97]) FilterBlockBuilder_make = Inr b" "builder_rep b [] [[97]]"
    using builder_rep_AddKey [OF builder_rep_make, of "Slice_string [97]"] by (auto simp: kBloomFilterPerKeySize_def)
  obtain b' filts where f: "FilterBlockBuilder_Finish b = Inr (Slice_string (filter_block filts), b')" "filters_rep [[[97]]] filts"
    using Finish_block [OF b(2)] by auto
  then obtain x where "filts = [x]" "length x = 9"
    by (auto simp: filters_rep_def list_all2_Cons1 filter_rep_length filter_len_def BloomFilter_make_def kBloomFilterPerKeySize_def Let_def)
  then have "length (filter_block filts) = 18" by (simp add: filter_block_def)
  then show ?thesis
    using b f(1) filter_block_roundtrip [OF b(2), of "Slice_string [97]" 7]
    by (auto simp: Let_def kFilterBase_def kFilterBaseLg_def)
qed

end
