(* ===== verification/TableBuilders.thy ===== *)
theory TableBuilders
  imports Formats Blocks FilterBlocks
begin

text \<open>
  \<^verbatim>\<open>TableBuilder\<close> (\<^verbatim>\<open>disk/table_builder.h\<close>, \<^verbatim>\<open>disk/table_builder.cc\<close>): it writes the data blocks, the
  filter block, the index block and the footer of a table to a writable file. The comparator of the
  option is an argument; the file the builder points to is a field of its state.
\<close>

definition kBlockSize :: nat where
  "kBlockSize = 4096"

record TableBuilder =
  tb_file :: WritableFile
  tb_data_block :: BlockBuilder
  tb_index_block :: BlockBuilder
  tb_filter_block :: FilterBlockBuilder
  tb_offset :: u64
  tb_num_entries :: u64
  tb_closed :: bool
  tb_block_handle :: BlockHandle
  tb_pending_index_block :: bool
  tb_last_key :: bytes
  tb_status :: Status

definition TableBuilder_make :: "WritableFile \<Rightarrow> TableBuilder" where
  "TableBuilder_make f =
     \<lparr>tb_file = f, tb_data_block = BlockBuilder_make, tb_index_block = BlockBuilder_make,
      tb_filter_block = FilterBlockBuilder_make, tb_offset = 0, tb_num_entries = 0, tb_closed = False,
      tb_block_handle = BlockHandle_make, tb_pending_index_block = False, tb_last_key = [],
      tb_status = Status_OK\<rparr>"

definition TableBuilder_ok :: "TableBuilder \<Rightarrow> bool" where
  "TableBuilder_ok r \<longleftrightarrow> Status_ok (tb_status r)"

text \<open>\<^verbatim>\<open>WriteBlock\<close> returns the finished block builder and the handle it filled in.\<close>

definition WriteBlock ::
  "'w posix \<Rightarrow> BlockBuilder \<Rightarrow> BlockHandle \<Rightarrow> TableBuilder \<Rightarrow> 'w \<Rightarrow>
     (BlockBuilder \<times> BlockHandle \<times> TableBuilder \<times> 'w) res" where
  "WriteBlock os block_builder block_handle r w =
     (let (block_content, block_builder) = BlockBuilder_Finish block_builder in
      rbind (WritableFile_Append os block_content (tb_file r) w) (\<lambda>(s, f, w).
        let r = r\<lparr>tb_file := f, tb_status := s\<rparr> in
        if Status_ok s then
          Inr (block_builder,
               block_handle\<lparr>bh_offset := tb_offset r, bh_size := word_of_nat (sl_size block_content)\<rparr>,
               r\<lparr>tb_offset := tb_offset r + word_of_nat (sl_size block_content)\<rparr>, w)
        else Inr (block_builder, block_handle, r, w)))"

text \<open>The comment in the code announces to clear the data block here; the code does not.\<close>

definition TableBuilder_Flush :: "'w posix \<Rightarrow> TableBuilder \<Rightarrow> 'w \<Rightarrow> (TableBuilder \<times> 'w) res" where
  "TableBuilder_Flush os r w =
     rbind (assert_that (\<not> tb_closed r)) (\<lambda>_.
       if BlockBuilder_Empty (tb_data_block r) then Inr (r, w)
       else
         rbind (WriteBlock os (tb_data_block r) (tb_block_handle r) r w) (\<lambda>(block, handle, r, w).
           let r = r\<lparr>tb_data_block := block, tb_block_handle := handle\<rparr> in
           if TableBuilder_ok r then
             rbind (WritableFile_Flush os (tb_file r) w) (\<lambda>(s, f, w).
             rbind (StartBlock (tb_offset r) (tb_filter_block r)) (\<lambda>fb.
               Inr (r\<lparr>tb_pending_index_block := True, tb_file := f, tb_status := s, tb_filter_block := fb\<rparr>, w)))
           else Inr (r, w)))"

text \<open>The index entry of the last data block: its last key and its handle.\<close>

definition AddIndexEntry :: "(slice \<Rightarrow> slice \<Rightarrow> int res) \<Rightarrow> TableBuilder \<Rightarrow> TableBuilder res" where
  "AddIndexEntry cmp r =
     rbind (BlockHandle_EncodeTo (tb_block_handle r) []) (\<lambda>block_handle.
     rbind (BlockBuilder_Add cmp (Slice_string (tb_last_key r)) (Slice_string block_handle) (tb_index_block r)) (\<lambda>b.
       Inr (r\<lparr>tb_index_block := b, tb_pending_index_block := False\<rparr>)))"

text \<open>The last key is handed to the comparator as a C string, so it is cut at its first zero byte.\<close>

definition TableBuilder_Add ::
  "'w posix \<Rightarrow> (slice \<Rightarrow> slice \<Rightarrow> int res) \<Rightarrow> slice \<Rightarrow> slice \<Rightarrow> TableBuilder \<Rightarrow> 'w \<Rightarrow> (TableBuilder \<times> 'w) res" where
  "TableBuilder_Add os cmp key value r w =
     rbind (assert_that (\<not> tb_closed r)) (\<lambda>_.
     rbind (if tb_last_key r = [] then Inr True
            else rbind (Slice_cstr (string_data (tb_last_key r))) (\<lambda>last.
                 rbind (cmp key last) (\<lambda>c. Inr (c = 1)))) (\<lambda>ok.
     rbind (assert_that ok) (\<lambda>_.
     rbind (if tb_pending_index_block r
            then rbind (assert_that (BlockBuilder_Empty (tb_data_block r))) (\<lambda>_. AddIndexEntry cmp r)
            else Inr r) (\<lambda>r.
     rbind (AddKey key (tb_filter_block r)) (\<lambda>fb.
     rbind (BlockBuilder_Add cmp key value (tb_data_block r)) (\<lambda>b.
     rbind (read_mem (sl_mem key) (sl_size key)) (\<lambda>k.
       let r = r\<lparr>tb_filter_block := fb, tb_data_block := b, tb_last_key := k,
                 tb_num_entries := tb_num_entries r + 1\<rparr> in
       if BlockBuilder_EstimatedSize (tb_data_block r) \<ge> kBlockSize then TableBuilder_Flush os r w
       else Inr (r, w))))))))"

text \<open>The footer is appended as a C string, too.\<close>

definition TableBuilder_WriteFooter ::
  "'w posix \<Rightarrow> BlockHandle \<Rightarrow> BlockHandle \<Rightarrow> TableBuilder \<Rightarrow> 'w \<Rightarrow> (Status \<times> TableBuilder \<times> 'w) res" where
  "TableBuilder_WriteFooter os index_block_handle filter_block_handle r w =
     (let footer = Footer_set_filter filter_block_handle (Footer_set_index index_block_handle Footer_make) in
      rbind (Footer_EncodeTo footer []) (\<lambda>footer_encoded.
      rbind (Slice_cstr (string_data footer_encoded)) (\<lambda>c.
      rbind (WritableFile_Append os c (tb_file r) w) (\<lambda>(s, f, w).
        let r = r\<lparr>tb_file := f, tb_status := s\<rparr> in
        if \<not> TableBuilder_ok r then Inr (tb_status r, r, w)
        else
          let r = r\<lparr>tb_offset := tb_offset r + word_of_nat (length footer_encoded)\<rparr> in
          rbind (WritableFile_Flush os (tb_file r) w) (\<lambda>(_, f, w).
            let r = r\<lparr>tb_file := f\<rparr> in Inr (tb_status r, r, w))))))"

text \<open>The index block and the footer, behind the filter block.\<close>

definition TableBuilder_WriteIndex ::
  "'w posix \<Rightarrow> (slice \<Rightarrow> slice \<Rightarrow> int res) \<Rightarrow> BlockHandle \<Rightarrow> TableBuilder \<Rightarrow> 'w \<Rightarrow> (Status \<times> TableBuilder \<times> 'w) res" where
  "TableBuilder_WriteIndex os cmp filter_block_handle r w =
     rbind (if tb_pending_index_block r then AddIndexEntry cmp r else Inr r) (\<lambda>r.
     rbind (WriteBlock os (tb_index_block r) BlockHandle_make r w) (\<lambda>(block, index_block_handle, r, w).
       let r = r\<lparr>tb_index_block := block\<rparr> in
       if \<not> TableBuilder_ok r then Inr (tb_status r, r, w)
       else TableBuilder_WriteFooter os index_block_handle filter_block_handle r w))"

definition TableBuilder_Finish ::
  "'w posix \<Rightarrow> (slice \<Rightarrow> slice \<Rightarrow> int res) \<Rightarrow> TableBuilder \<Rightarrow> 'w \<Rightarrow> (Status \<times> TableBuilder \<times> 'w) res" where
  "TableBuilder_Finish os cmp r w =
     rbind (assert_that (\<not> tb_closed r)) (\<lambda>_.
     rbind (TableBuilder_Flush os r w) (\<lambda>(r, w).
       let r = r\<lparr>tb_closed := True\<rparr> in
       if \<not> TableBuilder_ok r then Inr (tb_status r, r, w)
       else
         rbind (FilterBlockBuilder_Finish (tb_filter_block r)) (\<lambda>(filter_block_contents, fb).
         rbind (WritableFile_Append os filter_block_contents (tb_file r) w) (\<lambda>(s, f, w).
         let r = r\<lparr>tb_filter_block := fb, tb_file := f, tb_status := s\<rparr> in
         if \<not> Status_ok s then Inr (s, r, w)
         else
           let filter_block_handle = BlockHandle_make\<lparr>bh_offset := tb_offset r,
                 bh_size := word_of_nat (sl_size filter_block_contents)\<rparr>;
               r = r\<lparr>tb_offset := tb_offset r + word_of_nat (sl_size filter_block_contents)\<rparr> in
           TableBuilder_WriteIndex os cmp filter_block_handle r w))))"

definition TableBuilder_Abandon :: "TableBuilder \<Rightarrow> TableBuilder res" where
  "TableBuilder_Abandon r = rbind (assert_that (\<not> tb_closed r)) (\<lambda>_. Inr (r\<lparr>tb_closed := True\<rparr>))"

definition TableBuilder_NumEntries :: "TableBuilder \<Rightarrow> u64" where
  "TableBuilder_NumEntries r = tb_num_entries r"

definition TableBuilder_FileSize :: "TableBuilder \<Rightarrow> u64" where
  "TableBuilder_FileSize r = tb_offset r"

definition TableBuilder_status :: "TableBuilder \<Rightarrow> Status" where
  "TableBuilder_status r = tb_status r"

section \<open>Files on a system whose writes succeed\<close>

definition reliable :: "'w posix \<Rightarrow> ('w \<Rightarrow> int \<Rightarrow> bytes) \<Rightarrow> bytes \<Rightarrow> bool" where
  "reliable os written name \<longleftrightarrow>
     io_ok os written name kWritableFileBuffer \<and> (\<forall>fd d w e w'. sys_write os fd d w \<noteq> (WriteError e, w'))"

lemma Status_ok_iff: "Status_ok s \<longleftrightarrow> s = Status_OK"
  by (cases s) (simp add: Status_ok_def Status_OK_def)

lemma reliable_io: "reliable os written name \<Longrightarrow> io_ok os written name kWritableFileBuffer"
  by (simp add: reliable_def)

lemma reliable_ok: "reliable os written name \<Longrightarrow> \<forall>fd d w e w'. sys_write os fd d w \<noteq> (WriteError e, w')"
  by (simp add: reliable_def)

lemma WriteUnbuffered_loop_reliable:
  assumes "\<forall>fd d w e w'. sys_write os fd d w \<noteq> (WriteError e, w')"
  shows "WriteUnbuffered_loop fuel os f data w = Inr (s, w') \<Longrightarrow> s = Status_OK"
proof (induction fuel arbitrary: data w)
  case 0
  then show ?case by (auto simp: WriteUnbuffered_loop.simps [of 0] split: if_splits)
next
  case (Suc fuel)
  obtain r w1 where r: "sys_write os (wf_fd f) data w = (r, w1)" by fastforce
  then obtain n where "r = Wrote n" using assms by (cases r) auto
  then show ?case using Suc r by (auto simp: WriteUnbuffered_loop.simps [of "Suc fuel"] split: if_splits)
qed

lemma Flush_reliable:
  assumes "reliable os written (wf_filename f)" "wf_ok f"
  obtains f' w' where "WritableFile_Flush os f w = Inr (Status_OK, f', w')" "wf_ok f'" "wf_fd f' = wf_fd f"
    "wf_filename f' = wf_filename f" "wf_pos f' = 0" "stream written f' w' = stream written f w"
proof -
  note io = reliable_io [OF assms(1)]
  obtain s f' w' where run: "WritableFile_Flush os f w = Inr (s, f', w')" using Flush_returns [OF io assms(2)] by blast
  then have "WriteUnbuffered_loop (sys_fuel os) os f (take (wf_pos f) (wf_buf f)) w = Inr (s, w')"
    using assms(2) by (auto simp: WritableFile_Flush_def WriteUnbuffered_def wf_ok_def)
  then have "s = Status_OK" by (rule WriteUnbuffered_loop_reliable [OF reliable_ok [OF assms(1)]])
  then show thesis
    using that run Flush_stream [OF io_okD(1) [OF io] assms(2) run] by (auto simp: wf_after_def)
qed

lemma WriteUnbuffered_reliable:
  assumes "\<forall>fd d w e w'. sys_write os fd d w \<noteq> (WriteError e, w')" "WriteUnbuffered os f d n w = Inr (s, w')"
  shows "s = Status_OK"
  using assms(2) unfolding WriteUnbuffered_def rbind_eq_Inr by (elim exE conjE) (rule WriteUnbuffered_loop_reliable [OF assms(1)])

lemma Append_rest_reliable:
  assumes ok: "\<forall>fd d w e w'. sys_write os fd d w \<noteq> (WriteError e, w')"
    and run: "Append_rest os data n f w = Inr (s, f', w')"
  shows "s = Status_OK"
proof (cases "n = 0")
  case True
  then show ?thesis using run by (simp add: Append_rest_def)
next
  case False
  then obtain s2 f2 w2 where fl: "WritableFile_Flush os f w = Inr (s2, f2, w2)"
    and run2: "(if \<not> Status_ok s2 then Inr (s2, f2, w2)
       else if n < kWritableFileBuffer
            then rbind (read_mem data n) (\<lambda>d. rbind (overwrite (wf_buf f2) 0 d)
              (\<lambda>buf. Inr (Status_OK, f2\<lparr>wf_buf := buf, wf_pos := n\<rparr>, w2)))
            else rbind (WriteUnbuffered os f2 data n w2) (\<lambda>(status, w). Inr (status, f2, w))) = Inr (s, f', w')"
    using run by (auto simp: Append_rest_def)
  obtain w3 where "WriteUnbuffered os f (wf_buf f) (wf_pos f) w = Inr (s2, w3)"
    using fl by (auto simp: WritableFile_Flush_def)
  then have s2: "s2 = Status_OK" by (rule WriteUnbuffered_reliable [OF ok])
  show ?thesis
  proof (cases "n < kWritableFileBuffer")
    case False
    then have "WriteUnbuffered os f2 data n w2 = Inr (s, w')" using run2 s2 by auto
    then show ?thesis by (rule WriteUnbuffered_reliable [OF ok])
  qed (use run2 s2 in auto)
qed

lemma Append_reliable:
  assumes "reliable os written (wf_filename f)" "wf_ok f" "slice_ok c" "sl_size c \<le> kWritableFileBuffer"
  obtains f' w' where "WritableFile_Append os c f w = Inr (Status_OK, f', w')" "wf_ok f'" "wf_fd f' = wf_fd f"
    "wf_filename f' = wf_filename f" "stream written f' w' = stream written f w @ slice_content c"
proof -
  note io = reliable_io [OF assms(1)]
  obtain s f' w' where run: "WritableFile_Append os c f w = Inr (s, f', w')"
    using Append_returns [OF io assms(4,2,3)] by blast
  obtain n f1 where "WritableFile_Append os c f w = Append_rest os (drop n (sl_mem c)) (sl_size c - n) f1 w"
    by (rule Append_copy [OF assms(2,3), of os w written])
  then have "Append_rest os (drop n (sl_mem c)) (sl_size c - n) f1 w = Inr (s, f', w')" using run by simp
  then have "s = Status_OK" by (rule Append_rest_reliable [OF reliable_ok [OF assms(1)]])
  then show thesis
    using that run Append_stream [OF io_okD(1) [OF io] assms(2,3) run] by (auto simp: wf_after_def)
qed

section \<open>Adding entries to the first block\<close>

abbreviation icmp :: "slice \<Rightarrow> slice \<Rightarrow> int res" where
  "icmp \<equiv> InternalKeyComparator_Compare"

text \<open>The check of the order that compares the new key with the last key cut at its first zero byte.\<close>

definition cut_check :: "bytes \<Rightarrow> slice \<Rightarrow> bool" where
  "cut_check last_key key \<longleftrightarrow> rbind (Slice_cstr (string_data last_key)) (\<lambda>s. icmp key s) = Inr 1"

text \<open>A builder with the entries \<open>es\<close> that has not written a block yet.\<close>

definition tb_rep :: "TableBuilder \<Rightarrow> kv list \<Rightarrow> bool" where
  "tb_rep r es \<longleftrightarrow>
     internal_block.bbuilder_rep (tb_data_block r) es \<and> tb_index_block r = BlockBuilder_make \<and>
     builder_rep (tb_filter_block r) [] (map fst es) \<and> tb_offset r = 0 \<and> \<not> tb_closed r \<and>
     tb_block_handle r = BlockHandle_make \<and> \<not> tb_pending_index_block r \<and>
     tb_last_key r = (if es = [] then [] else fst (last es)) \<and> tb_status r = Status_OK \<and>
     wf_ok (tb_file r) \<and> length (block_bytes es) < kBlockSize \<and> tb_num_entries r = word_of_nat (length es)"

lemma tb_rep_make: "wf_ok f \<Longrightarrow> tb_rep (TableBuilder_make f) []"
  by (simp add: tb_rep_def TableBuilder_make_def internal_block.make_rep builder_rep_make kBlockSize_def)

lemma block_keys_length: "length (concat (map fst es)) + length es \<le> length (block_bytes es)"
proof (induction es)
  case (Cons e es)
  obtain k v where "e = (k, v)" by (cases e)
  moreover have "EncodeVarint32 (word_of_nat (length k)) \<noteq> []" by simp
  then have "1 \<le> prefix_len k" by (simp add: Suc_le_eq)
  ultimately show ?case using Cons by (simp add: length_entry_bytes)
qed simp

lemma Add_small:
  assumes r: "tb_rep r es" and key: "valid_bkey key" and v: "slice_ok v"
    and ord: "es = [] \<or> ikey_rank (Slice_string (fst (last es))) < ikey_rank key \<and> cut_check (fst (last es)) key"
    and small: "length (block_bytes (es @ [(slice_content key, slice_content v)])) < kBlockSize"
  shows "\<exists>r'. TableBuilder_Add os icmp key v r w = Inr (r', w) \<and> tb_rep r' (es @ [(slice_content key, slice_content v)]) \<and>
    tb_file r' = tb_file r"
proof -
  let ?e = "(slice_content key, slice_content v)"
  have kok: "slice_ok key" using key by (simp add: valid_bkey_def)
  obtain b where b: "BlockBuilder_Add icmp key v (tb_data_block r) = Inr b" "internal_block.bbuilder_rep b (es @ [?e])"
    using internal_block.Add_rep [of "tb_data_block r" es key v] r key v ord
    by (auto simp: tb_rep_def internal_block.krank_def)
  have len: "length (concat (map fst (es @ [?e]))) + length (es @ [?e]) < 4096"
    using block_keys_length [of "es @ [?e]"] small by (simp add: kBlockSize_def)
  obtain fb where fb: "AddKey key (tb_filter_block r) = Inr fb" "builder_rep fb [] (map fst es @ [slice_content key])"
    using builder_rep_AddKey [of "tb_filter_block r" "[]" "map fst es" key] r kok len
    by (auto simp: tb_rep_def kBloomFilterPerKeySize_def)
  have chk: "(if tb_last_key r = [] then Inr True
            else rbind (Slice_cstr (string_data (tb_last_key r))) (\<lambda>last. rbind (icmp key last) (\<lambda>c. Inr (c = 1)))) = Inr True"
    using r ord by (auto simp: tb_rep_def cut_check_def)
  have "bb_rep b = block_bytes (es @ [?e])" using b(2) by (simp only: internal_block.bbuilder_rep_def)
  then have est: "\<not> kBlockSize \<le> BlockBuilder_EstimatedSize b" using small by (simp add: BlockBuilder_EstimatedSize_def)
  have rd: "read_mem (sl_mem key) (sl_size key) = Inr (slice_content key)" using kok by (auto simp: slice_content_def)
  let ?r = "r\<lparr>tb_filter_block := fb, tb_data_block := b, tb_last_key := slice_content key, tb_num_entries := tb_num_entries r + 1\<rparr>"
  have "TableBuilder_Add os icmp key v r w = Inr (?r, w)"
    using r unfolding TableBuilder_Add_def chk by (simp add: tb_rep_def fb b rd est)
  moreover have "tb_rep ?r (es @ [?e])"
    using r b(2) fb(2) small by (simp add: tb_rep_def add.commute)
  ultimately show ?thesis by auto
qed

section \<open>Finishing a table\<close>

lemma WriteBlock_reliable:
  assumes "reliable os written (wf_filename (tb_file r))" "wf_ok (tb_file r)" "length (bb_rep b) \<le> kWritableFileBuffer"
  obtains f' w' where
    "WriteBlock os b h r w = Inr (b\<lparr>bb_is_finished := Some True\<rparr>,
       h\<lparr>bh_offset := tb_offset r, bh_size := word_of_nat (length (bb_rep b))\<rparr>,
       r\<lparr>tb_file := f', tb_status := Status_OK, tb_offset := tb_offset r + word_of_nat (length (bb_rep b))\<rparr>, w')"
    "wf_ok f'" "wf_fd f' = wf_fd (tb_file r)" "wf_filename f' = wf_filename (tb_file r)"
    "stream written f' w' = stream written (tb_file r) w @ bb_rep b"
proof -
  have c: "slice_ok (Slice_string (bb_rep b))" "sl_size (Slice_string (bb_rep b)) \<le> kWritableFileBuffer"
    using assms(3) by (simp_all add: kWritableFileBuffer_def)
  obtain f' w' where "WritableFile_Append os (Slice_string (bb_rep b)) (tb_file r) w = Inr (Status_OK, f', w')" "wf_ok f'"
    "wf_fd f' = wf_fd (tb_file r)" "wf_filename f' = wf_filename (tb_file r)"
    "stream written f' w' = stream written (tb_file r) w @ slice_content (Slice_string (bb_rep b))"
    by (rule Append_reliable [OF assms(1,2) c])
  then show thesis
    by (intro that [of f' w']) (simp_all add: WriteBlock_def BlockBuilder_Finish_def)
qed

text \<open>The handles and the bytes of a table with one data block.\<close>

definition data_handle :: "kv list \<Rightarrow> BlockHandle" where
  "data_handle es = \<lparr>bh_offset = 0, bh_size = word_of_nat (length (block_bytes es))\<rparr>"

definition index_entry :: "kv list \<Rightarrow> kv" where
  "index_entry es = (fst (last es), handle_bytes (data_handle es))"

definition filter_handle :: "kv list \<Rightarrow> bytes \<Rightarrow> BlockHandle" where
  "filter_handle es filt = \<lparr>bh_offset = word_of_nat (length (block_bytes es)), bh_size = word_of_nat (length filt)\<rparr>"

definition index_handle :: "kv list \<Rightarrow> bytes \<Rightarrow> BlockHandle" where
  "index_handle es filt = \<lparr>bh_offset = word_of_nat (length (block_bytes es) + length filt),
     bh_size = word_of_nat (length (block_bytes [index_entry es]))\<rparr>"

definition table_bytes :: "kv list \<Rightarrow> bytes \<Rightarrow> bytes" where
  "table_bytes es filt =
     block_bytes es @ filt @ block_bytes [index_entry es] @
     handle_bytes (index_handle es filt) @ handle_bytes (filter_handle es filt)"

definition table_size :: "kv list \<Rightarrow> bytes \<Rightarrow> nat" where
  "table_size es filt =
     length (block_bytes es) + length filt + length (block_bytes [index_entry es]) + kFixedFooterSize"

lemma last_key_le: "es \<noteq> [] \<Longrightarrow> length (fst (last es)) \<le> length (block_bytes es)"
  using block_keys_length [of es] by (cases es rule: rev_cases) auto

lemma index_entry_le: "es \<noteq> [] \<Longrightarrow> length (block_bytes [index_entry es]) \<le> length (block_bytes es) + 30"
  using last_key_le [of es] length_entry_bytes_le [of "fst (last es)" "handle_bytes (data_handle es)"] handle_bytes_le [of "data_handle es"]
  by (simp add: index_entry_def)

lemma block_bytes_pos: "es \<noteq> [] \<Longrightarrow> 0 < length (block_bytes es)"
  using block_bytes_length [of es] by (cases es) auto

lemma Flush_first:
  assumes rel: "reliable os written (wf_filename (tb_file r))" and r: "tb_rep r es" and ne: "es \<noteq> []"
  obtains f' fb fs ks w' where
    "TableBuilder_Flush os r w = Inr (r\<lparr>tb_data_block := (tb_data_block r)\<lparr>bb_is_finished := Some True\<rparr>,
       tb_block_handle := data_handle es, tb_offset := word_of_nat (length (block_bytes es)),
       tb_pending_index_block := True, tb_file := f', tb_status := Status_OK, tb_filter_block := fb\<rparr>, w')"
    "wf_ok f'" "wf_fd f' = wf_fd (tb_file r)" "wf_filename f' = wf_filename (tb_file r)"
    "stream written f' w' = stream written (tb_file r) w @ block_bytes es"
    "builder_rep fb fs ks" "(if ks = [] then fs else fs @ [ks]) = [map fst es]"
proof -
  let ?D = "length (block_bytes es)"
  have rep: "bb_rep (tb_data_block r) = block_bytes es" and off: "tb_offset r = 0" and D: "?D < 4096"
    and wf: "wf_ok (tb_file r)"
    using r by (simp_all add: tb_rep_def internal_block.bbuilder_rep_def kBlockSize_def)
  obtain f1 w1 where wb: "WriteBlock os (tb_data_block r) (tb_block_handle r) r w = Inr ((tb_data_block r)\<lparr>bb_is_finished := Some True\<rparr>,
       (tb_block_handle r)\<lparr>bh_offset := tb_offset r, bh_size := word_of_nat (length (bb_rep (tb_data_block r)))\<rparr>,
       r\<lparr>tb_file := f1, tb_status := Status_OK, tb_offset := tb_offset r + word_of_nat (length (bb_rep (tb_data_block r)))\<rparr>, w1)"
    "wf_ok f1" "wf_fd f1 = wf_fd (tb_file r)" "wf_filename f1 = wf_filename (tb_file r)"
    "stream written f1 w1 = stream written (tb_file r) w @ bb_rep (tb_data_block r)"
    by (rule WriteBlock_reliable [OF rel wf, of "tb_data_block r"]) (use D in \<open>simp add: rep kWritableFileBuffer_def\<close>)
  have rel1: "reliable os written (wf_filename f1)" using rel wb(4) by simp
  obtain f2 w2 where fl: "WritableFile_Flush os f1 w1 = Inr (Status_OK, f2, w2)" "wf_ok f2" "wf_fd f2 = wf_fd f1"
    "wf_filename f2 = wf_filename f1" "stream written f2 w2 = stream written f1 w1"
    by (rule Flush_reliable [OF rel1 wb(2)])
  let ?off = "word_of_nat ?D :: u64" and ?n = "?D div kFilterBase"
  have u: "unat ?off = ?D" using D by simp
  have fbr: "builder_rep (tb_filter_block r) [] (map fst es)" using r by (simp add: tb_rep_def)
  obtain fb where fb: "StartBlock ?off (tb_filter_block r) = Inr fb"
    "builder_rep fb (added_filters ?n [] (map fst es)) (if ?n = 0 then map fst es else [])"
    using builder_rep_StartBlock [OF fbr, of ?off] by (auto simp: u Let_def)
  have n: "?n = 0 \<or> ?n = 1" using D by (simp add: kFilterBase_def kFilterBaseLg_def) linarith
  have ne': "\<not> BlockBuilder_Empty (tb_data_block r)" "bb_rep (tb_data_block r) \<noteq> []"
    using block_bytes_pos [OF ne] by (auto simp: BlockBuilder_Empty_def BlockBuilder_EstimatedSize_def rep)
  have "\<not> tb_closed r" "tb_block_handle r = BlockHandle_make" using r by (simp_all add: tb_rep_def)
  then show thesis
    using wb fl fb ne' ne n off
    by (intro that [where f' = f2 and fb = fb and w' = w2 and fs = "added_filters ?n [] (map fst es)" and
         ks = "if ?n = 0 then map fst es else []"])
       (auto simp: TableBuilder_Flush_def TableBuilder_ok_def rep data_handle_def BlockHandle_make_def added_filters_def)
qed

text \<open>The index entry is added with a nonempty index key.\<close>

lemma AddIndexEntry_first:
  assumes "tb_index_block r = BlockBuilder_make" "tb_last_key r = fst (last es)" "tb_block_handle r = data_handle es"
    "valid_bkey (Slice_string (fst (last es)))" "length (block_bytes es) < 2 ^ 32"
  shows "\<exists>b. AddIndexEntry icmp r = Inr (r\<lparr>tb_index_block := b, tb_pending_index_block := False\<rparr>) \<and>
    bb_rep b = block_bytes [index_entry es]"
proof -
  have hs: "handle_set (data_handle es)"
  proof -
    have "unat (word_of_nat (length (block_bytes es)) :: u64) \<noteq> unat (- 1 :: u64)"
      using assms(5) by (simp add: unsigned_minus_1_eq_mask mask_eq_exp_minus_1)
    then show ?thesis by (auto simp: handle_set_def data_handle_def)
  qed
  have "slice_ok (Slice_string (handle_bytes (data_handle es)))"
    using handle_bytes_le [of "data_handle es"] by simp
  then show ?thesis
    using internal_block.Add_entry [OF internal_block.make_rep assms(4), of "Slice_string (handle_bytes (data_handle es))"] hs assms(1-3)
    by (intro exI [of _ "BlockBuilder_make\<lparr>bb_rep := block_bytes [index_entry es], bb_last_key := fst (last es)\<rparr>"])
       (simp add: AddIndexEntry_def BlockHandle_EncodeTo_bytes index_entry_def)
qed

lemma word_64_inject: "a < 2 ^ 64 \<Longrightarrow> b < 2 ^ 64 \<Longrightarrow> (word_of_nat a :: u64) = word_of_nat b \<longleftrightarrow> a = b"
  by (metis unat_word_of_nat_64)

lemma handle_of_nats:
  assumes "a < 2 ^ 32" "b < 2 ^ 32" "0 < a" "0 < b"
  shows "handle_set \<lparr>bh_offset = word_of_nat a, bh_size = word_of_nat b\<rparr>"
    "0 \<notin> set (handle_bytes \<lparr>bh_offset = word_of_nat a, bh_size = word_of_nat b\<rparr>)"
proof -
  have m: "(NOT 0 :: u64) = word_of_nat (2 ^ 64 - 1)" by simp
  have z: "(0 :: u64) = word_of_nat 0" by simp
  show "handle_set \<lparr>bh_offset = word_of_nat a, bh_size = word_of_nat b\<rparr>"
    using assms unfolding handle_set_def m by (simp add: word_64_inject del: of_nat_numeral)
  have "(word_of_nat a :: u64) \<noteq> 0" "(word_of_nat b :: u64) \<noteq> 0"
    using assms word_64_inject [of a 0] word_64_inject [of b 0] by simp_all
  then show "0 \<notin> set (handle_bytes \<lparr>bh_offset = word_of_nat a, bh_size = word_of_nat b\<rparr>)"
    using EncodeVarint64_zero_free by (simp add: handle_bytes_def)
qed

lemma WriteFooter_reliable:
  assumes rel: "reliable os written (wf_filename (tb_file r))" and wf: "wf_ok (tb_file r)"
    and set: "handle_set ih" "handle_set fh" and z: "0 \<notin> set (handle_bytes ih)" "0 \<notin> set (handle_bytes fh)"
  obtains f' w' where
    "TableBuilder_WriteFooter os ih fh r w = Inr (Status_OK, r\<lparr>tb_file := f', tb_status := Status_OK,
       tb_offset := tb_offset r + word_of_nat kFixedFooterSize\<rparr>, w')"
    "wf_fd f' = wf_fd (tb_file r)"
    "written w' (wf_fd (tb_file r)) = stream written (tb_file r) w @ handle_bytes ih @ handle_bytes fh"
proof -
  let ?H = "handle_bytes ih @ handle_bytes fh" and ?F = "\<lparr>ft_index = ih, ft_filter = fh\<rparr>"
  have "takeWhile (\<lambda>b. b \<noteq> 0) (footer_bytes ?F) = ?H"
  proof (cases "kFixedFooterSize - length ?H")
    case 0
    then show ?thesis using z by (simp add: footer_bytes_def Let_def takeWhile_append2) (metis takeWhile_eq_all_conv Un_iff set_append)
  next
    case (Suc n)
    then show ?thesis using takeWhile_no_zero [of ?H "replicate n 0"] z by (simp add: footer_bytes_def Let_def)
  qed
  then have c: "Slice_cstr (string_data (footer_bytes ?F)) = Inr \<lparr>sl_mem = string_data (footer_bytes ?F), sl_size = length ?H\<rparr>"
    by (simp add: Slice_cstr_string)
  let ?c = "\<lparr>sl_mem = string_data (footer_bytes ?F), sl_size = length ?H\<rparr>"
  have H: "length ?H \<le> 40" using handle_bytes_le [of ih] handle_bytes_le [of fh] by simp
  have "take (length ?H) (footer_bytes ?F) = ?H" by (simp add: footer_bytes_def Let_def)
  then have cont: "slice_content ?c = ?H" using H by (simp add: slice_content_def string_data_def kFixedFooterSize_def)
  have ok: "slice_ok ?c" "sl_size ?c \<le> kWritableFileBuffer"
    using H by (simp_all add: slice_ok_def string_data_def kFixedFooterSize_def kWritableFileBuffer_def)
  obtain f1 w1 where ap: "WritableFile_Append os ?c (tb_file r) w = Inr (Status_OK, f1, w1)" "wf_ok f1" "wf_fd f1 = wf_fd (tb_file r)"
    "wf_filename f1 = wf_filename (tb_file r)" "stream written f1 w1 = stream written (tb_file r) w @ slice_content ?c"
    by (rule Append_reliable [OF rel wf ok])
  have rel1: "reliable os written (wf_filename f1)" using rel ap(4) by simp
  obtain f2 w2 where fl: "WritableFile_Flush os f1 w1 = Inr (Status_OK, f2, w2)" "wf_fd f2 = wf_fd f1" "wf_pos f2 = 0"
    "stream written f2 w2 = stream written f1 w1"
    by (rule Flush_reliable [OF rel1 ap(2)])
  have "Footer_EncodeTo ?F [] = Inr (footer_bytes ?F)" using Footer_EncodeTo_bytes [of ?F "[]"] set by simp
  then show thesis
    using ap fl c cont
    by (intro that [where f' = f2 and w' = w2])
       (simp_all add: TableBuilder_WriteFooter_def Footer_set_filter_def Footer_set_index_def Footer_make_def
         TableBuilder_ok_def stream_def)
qed

lemma filter_block_length:
  assumes "filter_rep the_bloom ks x"
  shows "length (filter_block [x]) = (max 64 (length ks * 10) + 7) div 8 + 10"
  using filter_rep_length [OF assms]
  by (simp add: filter_block_def filter_len_def BloomFilter_make_def kBloomFilterPerKeySize_def Let_def)

lemma WriteIndex_reliable:
  assumes rel: "reliable os written (wf_filename (tb_file r))" "wf_ok (tb_file r)"
    and r: "tb_index_block r = BlockBuilder_make" "tb_last_key r = fst (last es)" "tb_block_handle r = data_handle es"
      "tb_pending_index_block r" "tb_offset r = word_of_nat (length (block_bytes es) + length filt)"
    and key: "valid_bkey (Slice_string (fst (last es)))" and ne: "es \<noteq> []"
    and D: "length (block_bytes es) < kBlockSize" and F: "0 < length filt" "length filt \<le> kWritableFileBuffer"
  obtains r' w' where
    "TableBuilder_WriteIndex os icmp (filter_handle es filt) r w = Inr (Status_OK, r', w')"
    "written w' (wf_fd (tb_file r)) = stream written (tb_file r) w @ block_bytes [index_entry es] @
       handle_bytes (index_handle es filt) @ handle_bytes (filter_handle es filt)"
    "tb_offset r' = word_of_nat (table_size es filt)" "tb_closed r' = tb_closed r" "tb_num_entries r' = tb_num_entries r"
proof -
  let ?D = "length (block_bytes es)" and ?F = "length filt" and ?I = "length (block_bytes [index_entry es])"
  have b32: "?D < 2 ^ 32" using D by (simp add: kBlockSize_def)
  obtain b where b: "AddIndexEntry icmp r = Inr (r\<lparr>tb_index_block := b, tb_pending_index_block := False\<rparr>)"
    "bb_rep b = block_bytes [index_entry es]"
    using AddIndexEntry_first [OF r(1-3) key b32] by blast
  let ?r1 = "r\<lparr>tb_index_block := b, tb_pending_index_block := False\<rparr>"
  have sz: "0 < ?D" "0 < ?I" "?I \<le> 5000"
    using index_entry_le [OF ne] D block_bytes_pos [OF ne] block_bytes_pos [of "[index_entry es]"] by (simp_all add: kBlockSize_def)
  have rel1: "reliable os written (wf_filename (tb_file ?r1))" "wf_ok (tb_file ?r1)" using rel by simp_all
  obtain f2 w2 where wb: "WriteBlock os b BlockHandle_make ?r1 w = Inr (b\<lparr>bb_is_finished := Some True\<rparr>,
       BlockHandle_make\<lparr>bh_offset := tb_offset ?r1, bh_size := word_of_nat (length (bb_rep b))\<rparr>,
       ?r1\<lparr>tb_file := f2, tb_status := Status_OK, tb_offset := tb_offset ?r1 + word_of_nat (length (bb_rep b))\<rparr>, w2)"
    "wf_ok f2" "wf_fd f2 = wf_fd (tb_file ?r1)" "wf_filename f2 = wf_filename (tb_file ?r1)"
    "stream written f2 w2 = stream written (tb_file ?r1) w @ bb_rep b"
    by (rule WriteBlock_reliable [OF rel1, of b]) (use sz in \<open>simp add: b(2) kWritableFileBuffer_def\<close>)
  let ?r2 = "?r1\<lparr>tb_file := f2, tb_status := Status_OK, tb_offset := tb_offset r + word_of_nat ?I,
      tb_index_block := b\<lparr>bb_is_finished := Some True\<rparr>\<rparr>"
  let ?ih = "index_handle es filt" and ?fh = "filter_handle es filt"
  have h: "handle_set ?ih" "0 \<notin> set (handle_bytes ?ih)" "handle_set ?fh" "0 \<notin> set (handle_bytes ?fh)"
    unfolding index_handle_def filter_handle_def using D F sz
    by (intro handle_of_nats; simp add: kBlockSize_def kWritableFileBuffer_def)+
  have rel2: "reliable os written (wf_filename (tb_file ?r2))" "wf_ok (tb_file ?r2)" using rel1 wb by simp_all
  obtain f3 w3 where ft: "TableBuilder_WriteFooter os ?ih ?fh ?r2 w2 = Inr (Status_OK, ?r2\<lparr>tb_file := f3, tb_status := Status_OK,
       tb_offset := tb_offset ?r2 + word_of_nat kFixedFooterSize\<rparr>, w3)"
    "written w3 (wf_fd (tb_file ?r2)) = stream written (tb_file ?r2) w2 @ handle_bytes ?ih @ handle_bytes ?fh"
    by (rule WriteFooter_reliable [OF rel2 h(1,3,2,4)])
  show thesis
  proof (rule that)
    show "TableBuilder_WriteIndex os icmp ?fh r w = Inr (Status_OK, ?r2\<lparr>tb_file := f3, tb_status := Status_OK,
       tb_offset := tb_offset ?r2 + word_of_nat kFixedFooterSize\<rparr>, w3)"
      using r b wb(1) ft(1) by (simp add: TableBuilder_WriteIndex_def TableBuilder_ok_def BlockHandle_make_def index_handle_def)
  qed (use ft(2) wb(3,5) b(2) r(5) in \<open>simp_all add: table_size_def\<close>)
qed

lemma Finish_table:
  assumes rel: "reliable os written (wf_filename (tb_file r))" and r: "tb_rep r es" and ne: "es \<noteq> []"
  obtains x r' w' where "TableBuilder_Finish os icmp r w = Inr (Status_OK, r', w')"
    "filter_rep the_bloom (map fst es) x"
    "written w' (wf_fd (tb_file r)) = stream written (tb_file r) w @ table_bytes es (filter_block [x])"
    "tb_offset r' = word_of_nat (table_size es (filter_block [x]))" "tb_closed r'" "tb_num_entries r' = tb_num_entries r"
proof -
  let ?D = "length (block_bytes es)"
  obtain f1 fb fs ks w1 where fl: "TableBuilder_Flush os r w = Inr (r\<lparr>tb_data_block := (tb_data_block r)\<lparr>bb_is_finished := Some True\<rparr>,
       tb_block_handle := data_handle es, tb_offset := word_of_nat ?D, tb_pending_index_block := True, tb_file := f1,
       tb_status := Status_OK, tb_filter_block := fb\<rparr>, w1)" (is "_ = Inr (?r1, w1)")
    "wf_ok f1" "wf_fd f1 = wf_fd (tb_file r)" "wf_filename f1 = wf_filename (tb_file r)"
    "stream written f1 w1 = stream written (tb_file r) w @ block_bytes es"
    "builder_rep fb fs ks" "(if ks = [] then fs else fs @ [ks]) = [map fst es]"
    by (rule Flush_first [OF rel r ne])
  obtain fb' filts where "FilterBlockBuilder_Finish fb = Inr (Slice_string (filter_block filts), fb')" "filters_rep [map fst es] filts"
    using Finish_block [OF fl(6)] fl(7) by auto
  then obtain x where fin: "FilterBlockBuilder_Finish fb = Inr (Slice_string (filter_block [x]), fb')" "filter_rep the_bloom (map fst es) x"
    using ne by (auto simp: filters_rep_def list_all2_Cons1)
  let ?filt = "filter_block [x]"
  have D: "?D < kBlockSize" using r by (simp add: tb_rep_def)
  then have "length es < 4096" using block_bytes_length [of es] by (simp add: kBlockSize_def)
  then have F: "0 < length ?filt" "length ?filt \<le> kWritableFileBuffer"
    unfolding filter_block_length [OF fin(2)] by (simp_all add: max_def kWritableFileBuffer_def) linarith
  have c: "slice_ok (Slice_string ?filt)" "sl_size (Slice_string ?filt) \<le> kWritableFileBuffer"
    using F by (simp_all add: kWritableFileBuffer_def)
  have rel1: "reliable os written (wf_filename f1)" using rel fl(4) by simp
  obtain f2 w2 where ap: "WritableFile_Append os (Slice_string ?filt) f1 w1 = Inr (Status_OK, f2, w2)" "wf_ok f2"
    "wf_fd f2 = wf_fd f1" "wf_filename f2 = wf_filename f1"
    "stream written f2 w2 = stream written f1 w1 @ slice_content (Slice_string ?filt)"
    by (rule Append_reliable [OF rel1 fl(2) c])
  let ?r2 = "?r1\<lparr>tb_closed := True, tb_filter_block := fb', tb_file := f2, tb_status := Status_OK,
      tb_offset := word_of_nat ?D + word_of_nat (length ?filt)\<rparr>"
  have key: "valid_bkey (Slice_string (fst (last es)))"
    using r ne last_in_set [OF ne] by (auto simp: tb_rep_def internal_block.bbuilder_rep_def internal_block.entries_ok_def)
  obtain r' w' where ix: "TableBuilder_WriteIndex os icmp (filter_handle es ?filt) ?r2 w2 = Inr (Status_OK, r', w')"
    "written w' (wf_fd (tb_file ?r2)) = stream written (tb_file ?r2) w2 @ block_bytes [index_entry es] @
       handle_bytes (index_handle es ?filt) @ handle_bytes (filter_handle es ?filt)"
    "tb_offset r' = word_of_nat (table_size es ?filt)" "tb_closed r' = tb_closed ?r2" "tb_num_entries r' = tb_num_entries ?r2"
    by (rule WriteIndex_reliable [where r = ?r2 and es = es and filt = ?filt and w = w2 and os = os and written = written])
       (use rel1 ap r ne D F key in \<open>simp_all add: tb_rep_def\<close>)
  show thesis
  proof (rule that)
    show "TableBuilder_Finish os icmp r w = Inr (Status_OK, r', w')"
      using r fl(1) fin(1) ap(1) ix(1)
      by (simp add: tb_rep_def TableBuilder_Finish_def TableBuilder_ok_def BlockHandle_make_def filter_handle_def)
    show "written w' (wf_fd (tb_file r)) = stream written (tb_file r) w @ table_bytes es ?filt"
      using ix(2) ap(3,5) fl(3,5) by (simp add: table_bytes_def)
  qed (use fin(2) ix in simp_all)
qed

section \<open>Whole tables\<close>

text \<open>The calls of \<^verbatim>\<open>Add\<close> for a list of entries.\<close>

fun TableBuilder_Add_all ::
  "'w posix \<Rightarrow> (slice \<Rightarrow> slice \<Rightarrow> int res) \<Rightarrow> kv list \<Rightarrow> TableBuilder \<Rightarrow> 'w \<Rightarrow> (TableBuilder \<times> 'w) res" where
  "TableBuilder_Add_all os cmp [] r w = Inr (r, w)"
| "TableBuilder_Add_all os cmp ((k, v) # es) r w =
     rbind (TableBuilder_Add os cmp (Slice_string k) (Slice_string v) r w) (\<lambda>(r, w).
       TableBuilder_Add_all os cmp es r w)"

text \<open>Every key but the first passes the check against the cut key before it.\<close>

definition cut_checks :: "kv list \<Rightarrow> bool" where
  "cut_checks es \<longleftrightarrow> successively (\<lambda>a b. cut_check (fst a) (Slice_string (fst b))) es"

lemma cut_checks_single [simp]: "cut_checks [e]"
  by (simp add: cut_checks_def)

lemma Add_all_small:
  "tb_rep r pre \<Longrightarrow> ikeys_ok (pre @ es) \<Longrightarrow> cut_checks (pre @ es) \<Longrightarrow> length (block_bytes (pre @ es)) < kBlockSize \<Longrightarrow>
     \<exists>r'. TableBuilder_Add_all os icmp es r w = Inr (r', w) \<and> tb_rep r' (pre @ es) \<and> tb_file r' = tb_file r"
proof (induction es arbitrary: pre r)
  case (Cons e es)
  obtain k v where e: "e = (k, v)" by (cases e)
  have key: "valid_bkey (Slice_string k)" using Cons.prems(2) e by (auto simp: ikeys_ok_def)
  have len: "length (entry_bytes k v) < 4096" "length (block_bytes (pre @ [e])) < kBlockSize"
    using Cons.prems(4) e by (simp_all add: kBlockSize_def)
  have v: "slice_ok (Slice_string v)" using len(1) by (simp add: length_entry_bytes)
  have ord: "pre = [] \<or> ikey_rank (Slice_string (fst (last pre))) < ikey_rank (Slice_string k) \<and> cut_check (fst (last pre)) (Slice_string k)"
  proof (cases pre rule: rev_cases)
    case (snoc ys y)
    then show ?thesis using Cons.prems(2,3) e by (auto simp: ikeys_ok_def sorted_wrt_append cut_checks_def successively_append_iff)
  qed simp
  obtain r1 where r1: "TableBuilder_Add os icmp (Slice_string k) (Slice_string v) r w = Inr (r1, w)" "tb_rep r1 (pre @ [(k, v)])"
    "tb_file r1 = tb_file r"
    using Add_small [OF Cons.prems(1) key v ord, of os w] len(2) e by auto
  then show ?case using Cons.IH [OF r1(2)] Cons.prems e by auto
qed simp

section \<open>Properties\<close>

text \<open>A table of entries in ascending order that fit into one data block is built completely: every
  \<^verbatim>\<open>Add\<close> and \<^verbatim>\<open>Finish\<close> return, \<^verbatim>\<open>Finish\<close> reports success, and what has been written to the file is
  exactly the data block, a filter block with a Bloom filter of the keys, the index block and the
  two handles of the footer. The file size the builder reports counts a footer of 40 bytes, of which
  only the handles are written. (The keys have to pass the check against the cut last key.)\<close>

theorem table_build:
  assumes "reliable os written (wf_filename f)" "wf_ok f" "es \<noteq> []" "ikeys_ok es" "cut_checks es"
    "length (block_bytes es) < kBlockSize"
  shows "\<exists>r x r' w'. TableBuilder_Add_all os icmp es (TableBuilder_make f) w = Inr (r, w) \<and>
    TableBuilder_Finish os icmp r w = Inr (Status_OK, r', w') \<and> filter_rep the_bloom (map fst es) x \<and>
    written w' (wf_fd f) = stream written f w @ table_bytes es (filter_block [x]) \<and>
    TableBuilder_FileSize r' = word_of_nat (table_size es (filter_block [x])) \<and>
    TableBuilder_NumEntries r' = word_of_nat (length es)"
proof -
  obtain r where r: "TableBuilder_Add_all os icmp es (TableBuilder_make f) w = Inr (r, w)" "tb_rep r es"
    "tb_file r = tb_file (TableBuilder_make f)"
    using Add_all_small [OF tb_rep_make [OF assms(2)], of es os w] assms(4-6) by auto
  have rel: "reliable os written (wf_filename (tb_file r))" using assms(1) r(3) by (simp add: TableBuilder_make_def)
  obtain x r' w' where "TableBuilder_Finish os icmp r w = Inr (Status_OK, r', w')" "filter_rep the_bloom (map fst es) x"
    "written w' (wf_fd (tb_file r)) = stream written (tb_file r) w @ table_bytes es (filter_block [x])"
    "tb_offset r' = word_of_nat (table_size es (filter_block [x]))" "tb_num_entries r' = tb_num_entries r"
    by (rule Finish_table [OF rel r(2) assms(3)])
  then show ?thesis
    using r by (auto simp: TableBuilder_make_def tb_rep_def TableBuilder_FileSize_def TableBuilder_NumEntries_def)
qed

lemma slow_os_reliable: "length name + 7 < 2 ^ 32 \<Longrightarrow> reliable slow_os (\<lambda>w fd. w) name"
  using slow_os_ok [of name kWritableFileBuffer] by (simp add: reliable_def slow_os_def)

theorem table_build_witness:
  "let f = WritableFile_make 3 [115] (replicate kWritableFileBuffer 0); es = [(internal_bytes [97] 257, [98])] in
   \<exists>r x r' w'. TableBuilder_Add_all slow_os icmp es (TableBuilder_make f) [] = Inr (r, []) \<and>
    TableBuilder_Finish slow_os icmp r [] = Inr (Status_OK, r', w') \<and> filter_rep the_bloom (map fst es) x \<and>
    w' = stream (\<lambda>w fd. w) f [] @ table_bytes es (filter_block [x]) \<and>
    TableBuilder_FileSize r' = word_of_nat (table_size es (filter_block [x])) \<and>
    TableBuilder_NumEntries r' = word_of_nat (length es)"
proof -
  have "ikeys_ok [(internal_bytes [97] 257, [98])]" by (simp add: ikeys_ok_def internal_bytes_key)
  moreover have "length (block_bytes [(internal_bytes [97] 257, [98])]) < kBlockSize"
    using length_entry_bytes_le [of "internal_bytes [97] 257" "[98]"] by (simp add: kBlockSize_def)
  ultimately show ?thesis
    unfolding Let_def by (intro table_build [where written = "\<lambda>w fd. w"])
      (simp_all add: slow_os_reliable WritableFile_make_def wf_ok_def)
qed

text \<open>A second \<^verbatim>\<open>Add\<close> reads outside of the last key whenever that key is shorter than eight bytes up to
  its first zero byte, as with every short user key: the last key is passed on as a C string.\<close>

theorem table_add_short_key:
  assumes "tb_rep r es" "es \<noteq> []" "length (takeWhile (\<lambda>b. b \<noteq> 0) (fst (last es))) < 8" "valid_bkey key"
  shows "TableBuilder_Add os icmp key v r w = Inl OutOfBounds"
proof -
  let ?k = "fst (last es)" and ?s = "\<lparr>sl_mem = string_data (fst (last es)), sl_size = length (takeWhile (\<lambda>b. b \<noteq> 0) (fst (last es)))\<rparr>"
  obtain u q where u: "ExtractUserKey key = Inr (u, q)"
    using assms(4) by (auto simp: valid_bkey_def valid_ikey_def not_isl_Inr internal_ikey_def)
  have "ExtractUserKey ?s = Inl OutOfBounds" using assms(3) by (simp add: ExtractUserKey_def)
  then have "icmp key ?s = Inl OutOfBounds" using u by (simp add: InternalKeyComparator_Compare_def)
  moreover have "?k \<noteq> []"
  proof -
    have "valid_bkey (Slice_string ?k)"
      using assms(1) last_in_set [OF assms(2)] by (auto simp: tb_rep_def internal_block.bbuilder_rep_def internal_block.entries_ok_def)
    then show ?thesis using internal_block.valid_nonempty by fastforce
  qed
  ultimately show ?thesis
    using assms(1,2) by (simp add: TableBuilder_Add_def tb_rep_def Slice_cstr_string)
qed

theorem table_add_short_key_witness:
  "\<exists>r. TableBuilder_Add slow_os icmp (Slice_string (internal_bytes [97] 257)) (Slice_string [1])
      (TableBuilder_make (WritableFile_make 3 [115] (replicate kWritableFileBuffer 0))) [] = Inr (r, []) \<and>
    TableBuilder_Add slow_os icmp (Slice_string (internal_bytes [98] 513)) (Slice_string [2]) r [] = Inl OutOfBounds"
proof -
  let ?k = "internal_bytes [97] 257" and ?f = "WritableFile_make 3 [115] (replicate kWritableFileBuffer 0)"
  have "length (block_bytes [(?k, [1])]) < kBlockSize"
    using length_entry_bytes_le [of ?k "[1]"] by (simp add: kBlockSize_def)
  then obtain r where r: "TableBuilder_Add slow_os icmp (Slice_string ?k) (Slice_string [1]) (TableBuilder_make ?f) [] = Inr (r, [])"
    "tb_rep r [(?k, [1])]"
    using Add_small [OF tb_rep_make [of ?f], of "Slice_string ?k" "Slice_string [1]" slow_os "[]"]
    by (auto simp: internal_bytes_key WritableFile_make_def wf_ok_def)
  have "length (takeWhile (\<lambda>b. b \<noteq> 0) ?k) < 8"
    by (simp add: internal_bytes_def EncodeFixed64_def drop_bit_eq_div)
  then have "TableBuilder_Add slow_os icmp (Slice_string (internal_bytes [98] 513)) (Slice_string [2]) r [] = Inl OutOfBounds"
    by (intro table_add_short_key [OF r(2)]) (simp_all add: internal_bytes_key)
  then show ?thesis using r(1) by blast
qed



end
