(* ===== verification/SSTables.thy ===== *)
theory SSTables
  imports TableBuilders
begin

text \<open>
  Reading tables: \<^verbatim>\<open>ReadBlock\<close> and \<^verbatim>\<open>SSTable\<close> (\<^verbatim>\<open>disk/sstable.h\<close>, \<^verbatim>\<open>disk/sstable.cc\<close>) and
  \<^verbatim>\<open>SSTableIterator\<close> (\<^verbatim>\<open>disk/sstable_iterator.h\<close>, \<^verbatim>\<open>disk/sstable_iterator.cc\<close>).
\<close>

section \<open>Opening a table\<close>

definition ReadBlock :: "'w posix \<Rightarrow> RandomAccessFile \<Rightarrow> BlockHandle \<Rightarrow> 'w \<Rightarrow> slice option res" where
  "ReadBlock os file block_handle w =
     rbind (RandomAccessFile_Read os file (unat (bh_offset block_handle)) (unat (bh_size block_handle)) w) (\<lambda>(status, result).
       if \<not> Status_ok status then Inr None
       else if sl_size result \<noteq> unat (bh_size block_handle) then Inr None
       else Inr (Some result))"

record SSTable =
  ss_file :: RandomAccessFile
  ss_filter_block_reader :: FilterBlockReader
  ss_filter_data :: bytes
  ss_index_block :: Block

text \<open>The filter data is handed to the reader as a C string.\<close>

definition SSTable_Open :: "'w posix \<Rightarrow> RandomAccessFile \<Rightarrow> nat \<Rightarrow> 'w \<Rightarrow> SSTable option res" where
  "SSTable_Open os file file_size w =
     (if file_size < kFixedFooterSize then Inr None
      else
        rbind (RandomAccessFile_Read os file (file_size - kFixedFooterSize) kFixedFooterSize w) (\<lambda>(s, footer_content).
        if \<not> Status_ok s then Inr None
        else
          rbind (Footer_DecodeFrom footer_content Footer_make) (\<lambda>(s, footer, _).
          if \<not> Status_ok s then Inr None
          else
            rbind (ReadBlock os file (ft_index footer) w) (\<lambda>index_block_content.
            case index_block_content of
              None \<Rightarrow> Inr None
            | Some index_content \<Rightarrow>
                rbind (ReadBlock os file (ft_filter footer) w) (\<lambda>filter_block_content.
                case filter_block_content of
                  None \<Rightarrow> Inr None
                | Some filter_content \<Rightarrow>
                    rbind (Slice_cstr (sl_mem filter_content)) (\<lambda>c.
                    rbind (FilterBlockReader_make c) (\<lambda>reader.
                      Inr (Some \<lparr>ss_file = file, ss_filter_block_reader = reader,
                                 ss_filter_data = sl_mem filter_content,
                                 ss_index_block = Block_make index_content\<rparr>))))))))"

section \<open>The table iterator\<close>

record SSTableIterator =
  si_index_iter :: BlockIterator
  si_data_iter :: "BlockIterator option"
  si_file :: RandomAccessFile
  si_data_block_handle :: bytes

definition SSTableIterator_make :: "Block \<Rightarrow> RandomAccessFile \<Rightarrow> SSTableIterator" where
  "SSTableIterator_make index_block file =
     \<lparr>si_index_iter = BlockIterator_make index_block, si_data_iter = None, si_file = file, si_data_block_handle = []\<rparr>"

text \<open>\<open>None\<close> is the null pointer.\<close>

definition BlockReader :: "'w posix \<Rightarrow> RandomAccessFile \<Rightarrow> slice \<Rightarrow> 'w \<Rightarrow> BlockIterator option res" where
  "BlockReader os file index_value w =
     rbind (BlockHandle_DecodeFrom index_value BlockHandle_make) (\<lambda>(s, block_handle, _).
       if \<not> Status_ok s then Inr None
       else
         rbind (ReadBlock os file block_handle w) (\<lambda>block_content. case block_content of
           None \<Rightarrow> Inr None
         | Some content \<Rightarrow> Inr (Some (BlockIterator_make (Block_make content)))))"

definition UpdateDataIterator :: "'w posix \<Rightarrow> SSTableIterator \<Rightarrow> 'w \<Rightarrow> SSTableIterator res" where
  "UpdateDataIterator os it w =
     (if \<not> BlockIterator_Valid (si_index_iter it) then Inr (it\<lparr>si_data_iter := None\<rparr>)
      else
        let block_handle = BlockIterator_Value (si_index_iter it) in
        rbind (BlockReader os (si_file it) block_handle w) (\<lambda>data_iter.
        rbind (read_mem (sl_mem block_handle) (sl_size block_handle)) (\<lambda>h.
        rbind (assert_that (data_iter \<noteq> None)) (\<lambda>_.
          Inr (it\<lparr>si_data_iter := map_option BlockIterator_SeekToFirst data_iter, si_data_block_handle := h\<rparr>)))))"

definition SSTableIterator_SeekToFirst :: "'w posix \<Rightarrow> SSTableIterator \<Rightarrow> 'w \<Rightarrow> SSTableIterator res" where
  "SSTableIterator_SeekToFirst os it w =
     rbind (BlockIterator_Next (BlockIterator_SeekToFirst (si_index_iter it))) (\<lambda>index_iter.
       UpdateDataIterator os (it\<lparr>si_index_iter := index_iter\<rparr>) w)"

fun SSTableIterator_Next_loop :: "nat \<Rightarrow> 'w posix \<Rightarrow> SSTableIterator \<Rightarrow> 'w \<Rightarrow> SSTableIterator res" where
  "SSTableIterator_Next_loop fuel os it w =
     (case si_data_iter it of
        None \<Rightarrow> Inl NullDeref
      | Some d \<Rightarrow>
          rbind (BlockIterator_Next d) (\<lambda>d.
          let it = it\<lparr>si_data_iter := Some d\<rparr> in
          if BlockIterator_Valid d then Inr it
          else
            rbind (BlockIterator_Next (si_index_iter it)) (\<lambda>index_iter.
            let it = it\<lparr>si_index_iter := index_iter\<rparr> in
            if BlockIterator_Valid index_iter then
              rbind (UpdateDataIterator os it w) (\<lambda>it.
                case fuel of 0 \<Rightarrow> Inl Diverged | Suc fuel \<Rightarrow> SSTableIterator_Next_loop fuel os it w)
            else Inr it)))"

declare SSTableIterator_Next_loop.simps [simp del]

text \<open>Each round but the last reads an entry of the index block.\<close>

definition SSTableIterator_Next :: "'w posix \<Rightarrow> SSTableIterator \<Rightarrow> 'w \<Rightarrow> SSTableIterator res" where
  "SSTableIterator_Next os it w =
     rbind (assert_that (si_data_iter it \<noteq> None)) (\<lambda>_.
       SSTableIterator_Next_loop (bi_size (si_index_iter it)) os it w)"

definition SSTableIterator_data :: "SSTableIterator \<Rightarrow> BlockIterator res" where
  "SSTableIterator_data it = (case si_data_iter it of None \<Rightarrow> Inl NullDeref | Some d \<Rightarrow> Inr d)"

definition SSTableIterator_Valid :: "SSTableIterator \<Rightarrow> bool res" where
  "SSTableIterator_Valid it = rbind (SSTableIterator_data it) (\<lambda>d. Inr (BlockIterator_Valid d))"

definition SSTableIterator_Key :: "SSTableIterator \<Rightarrow> slice res" where
  "SSTableIterator_Key it = rbind (SSTableIterator_data it) (\<lambda>d. Inr (BlockIterator_Key d))"

definition SSTableIterator_Value :: "SSTableIterator \<Rightarrow> slice res" where
  "SSTableIterator_Value it = rbind (SSTableIterator_data it) (\<lambda>d. Inr (BlockIterator_Value d))"

definition SSTableIterator_Seek ::
  "'w posix \<Rightarrow> (slice \<Rightarrow> slice \<Rightarrow> int res) \<Rightarrow> slice \<Rightarrow> SSTableIterator \<Rightarrow> 'w \<Rightarrow> (bool \<times> SSTableIterator) res" where
  "SSTableIterator_Seek os cmp target it w =
     rbind (BlockIterator_Seek cmp target (si_index_iter it)) (\<lambda>(_, index_iter).
     let it = it\<lparr>si_index_iter := index_iter\<rparr>; block_handle = BlockIterator_Value index_iter in
     rbind (read_mem (sl_mem block_handle) (sl_size block_handle)) (\<lambda>h.
     rbind (if h \<noteq> si_data_block_handle it then UpdateDataIterator os it w else Inr it) (\<lambda>it.
     case si_data_iter it of
       None \<Rightarrow> Inl AssertFail
     | Some d \<Rightarrow>
         rbind (BlockIterator_Seek cmp target d) (\<lambda>(found, d). Inr (found, it\<lparr>si_data_iter := Some d\<rparr>)))))"

definition SSTableIterator_Prev :: "SSTableIterator \<Rightarrow> SSTableIterator" where
  "SSTableIterator_Prev it = it"

definition SSTableIterator_SeekToLast :: "SSTableIterator \<Rightarrow> SSTableIterator" where
  "SSTableIterator_SeekToLast it = it\<lparr>si_index_iter := BlockIterator_SeekToLast (si_index_iter it)\<rparr>"

definition SSTable_NewIterator :: "SSTable \<Rightarrow> SSTableIterator" where
  "SSTable_NewIterator t = SSTableIterator_make (ss_index_block t) (ss_file t)"

text \<open>
  The filter data is again handed over as a C string, and as one Bloom filter. The value of a key
  that was found is read from the iterator after the iterator was deleted.
\<close>

definition SSTable_InternalGet ::
  "'w posix \<Rightarrow> (slice \<Rightarrow> slice \<Rightarrow> int res) \<Rightarrow> slice \<Rightarrow> SSTable \<Rightarrow> 'w \<Rightarrow> bytes option res" where
  "SSTable_InternalGet os cmp key t w =
     rbind (Slice_cstr (ss_filter_data t)) (\<lambda>filt.
     rbind (BloomFilter_KeyMayMatch key filt) (\<lambda>may.
       if \<not> may then Inr None
       else
         rbind (SSTableIterator_SeekToFirst os (SSTable_NewIterator t) w) (\<lambda>it.
         rbind (SSTableIterator_Seek os cmp key it w) (\<lambda>(flag, it).
         rbind (SSTableIterator_Valid it) (\<lambda>valid.
           if \<not> valid \<or> \<not> flag then Inr None else Inl UseAfterFree)))))"

section \<open>Reading a table file\<close>

text \<open>
  What the reader relies on of the system: the file is open, and \<^verbatim>\<open>pread\<close> on it gives the bytes of its
  content from the offset on, as many as asked for up to the end of the file.
\<close>

definition file_content :: "'w posix \<Rightarrow> RandomAccessFile \<Rightarrow> bytes \<Rightarrow> 'w \<Rightarrow> bool" where
  "file_content os f content w \<longleftrightarrow>
     rf_fd f \<noteq> -1 \<and> rf_status f = Status_OK \<and>
     (\<forall>n off. sys_pread os (rf_fd f) n off w = Some (take n (drop off content)))"

lemma Read_content:
  "file_content os f content w \<Longrightarrow>
     RandomAccessFile_Read os f off n w =
       Inr (Status_OK, \<lparr>sl_mem = take n (drop off content), sl_size = length (take n (drop off content))\<rparr>)"
  by (simp add: RandomAccessFile_Read_def file_content_def Slice_buf_def)

lemma ReadBlock_content:
  assumes "file_content os f (pre @ blk @ post) w" "unat (bh_offset h) = length pre" "unat (bh_size h) = length blk"
  shows "ReadBlock os f h w = Inr (Some \<lparr>sl_mem = blk, sl_size = length blk\<rparr>)"
  using assms by (simp add: ReadBlock_def Read_content)

lemma FilterBlockReader_make_total:
  assumes "slice_ok s"
  shows "\<exists>r. FilterBlockReader_make s = Inr r"
proof (cases "sl_size s < 5")
  case False
  then have "sl_size s - 1 < sl_size s" "4 \<le> length (drop (sl_size s - 5) (sl_mem s))" using assms by (auto simp: slice_ok_def)
  moreover obtain v where "Slice_index s (sl_size s - 1) = Inr v" using calculation assms by (auto simp: Slice_index_def slice_ok_def)
  moreover obtain v' where "DecodeFixed32 (drop (sl_size s - 5) (sl_mem s)) = Inr v'" using calculation by (auto simp: DecodeFixed32_def)
  ultimately show ?thesis by (simp add: FilterBlockReader_make_def Let_def)
qed (simp add: FilterBlockReader_make_def)

lemma Slice_cstr_total:
  assumes "0 \<in> set d" "length d < 2 ^ 64"
  shows "\<exists>s. Slice_cstr d = Inr s \<and> slice_ok s"
  using assms length_takeWhile_le [of "\<lambda>b. b \<noteq> 0" d] by (auto simp: Slice_cstr_def strlen_def slice_ok_def)

definition table_open :: "SSTable \<Rightarrow> RandomAccessFile \<Rightarrow> kv list \<Rightarrow> bytes \<Rightarrow> bool" where
  "table_open t f es filt \<longleftrightarrow>
     ss_file t = f \<and> ss_filter_data t = filt \<and>
     ss_index_block t = Block_make \<lparr>sl_mem = block_bytes [index_entry es], sl_size = length (block_bytes [index_entry es])\<rparr>"

lemma Open_table:
  assumes f: "file_content os f (table_bytes es filt) w" and z: "0 \<in> set filt"
    and len: "length (block_bytes es) + length filt + length (block_bytes [index_entry es]) < 2 ^ 32"
  shows "\<exists>t. SSTable_Open os f (table_size es filt) w = Inr (Some t) \<and> table_open t f es filt"
proof -
  let ?ih = "index_handle es filt" and ?fh = "filter_handle es filt" and ?I = "block_bytes [index_entry es]"
  let ?H = "handle_bytes ?ih @ handle_bytes ?fh"
  have H: "length ?H \<le> kFixedFooterSize"
    using handle_bytes_le [of ?ih] handle_bytes_le [of ?fh] by (simp add: kFixedFooterSize_def)
  have u: "unat (bh_offset ?fh) = length (block_bytes es)" "unat (bh_size ?fh) = length filt"
    "unat (bh_offset ?ih) = length (block_bytes es @ filt)" "unat (bh_size ?ih) = length ?I"
    using len by (simp_all add: filter_handle_def index_handle_def del: block_bytes_simps of_nat_add)
  have rd: "RandomAccessFile_Read os f (table_size es filt - kFixedFooterSize) kFixedFooterSize w =
      Inr (Status_OK, \<lparr>sl_mem = ?H, sl_size = length ?H\<rparr>)"
    using H by (simp add: Read_content [OF f] table_size_def table_bytes_def del: block_bytes_simps)
  obtain s' where dec: "Footer_DecodeFrom \<lparr>sl_mem = ?H, sl_size = length ?H\<rparr> Footer_make =
      Inr (Status_OK, \<lparr>ft_index = ?ih, ft_filter = ?fh\<rparr>, s')"
    using Footer_DecodeFrom_bytes [of "\<lparr>sl_mem = ?H, sl_size = length ?H\<rparr>" "\<lparr>ft_index = ?ih, ft_filter = ?fh\<rparr>" "[]" Footer_make]
    by auto
  have i: "ReadBlock os f ?ih w = Inr (Some \<lparr>sl_mem = ?I, sl_size = length ?I\<rparr>)"
    using f u by (intro ReadBlock_content [where pre = "block_bytes es @ filt" and post = ?H])
      (simp_all add: table_bytes_def del: block_bytes_simps)
  have fl: "ReadBlock os f ?fh w = Inr (Some \<lparr>sl_mem = filt, sl_size = length filt\<rparr>)"
    using f u by (intro ReadBlock_content [where pre = "block_bytes es" and post = "?I @ ?H"])
      (simp_all add: table_bytes_def del: block_bytes_simps)
  obtain c where c: "Slice_cstr filt = Inr c" "slice_ok c" using Slice_cstr_total [OF z] len by auto
  obtain rd' where "FilterBlockReader_make c = Inr rd'" using FilterBlockReader_make_total [OF c(2)] by blast
  then show ?thesis
    using rd dec i fl c(1) by (auto simp: SSTable_Open_def table_size_def table_open_def simp del: block_bytes_simps)
qed

section \<open>Iterating over a table\<close>

lemma data_block:
  assumes f: "file_content os f (table_bytes es filt) w" and len: "length (block_bytes es) < 2 ^ 32"
    and h: "sl_mem h = handle_bytes (data_handle es) @ rest" "length (handle_bytes (data_handle es)) \<le> sl_size h"
  shows "\<exists>d. BlockReader os f h w = Inr (Some d) \<and> block_at [] es d"
proof -
  let ?s = "\<lparr>sl_mem = block_bytes es, sl_size = length (block_bytes es)\<rparr>"
  have "ReadBlock os f (data_handle es) w = Inr (Some ?s)"
    using f len by (intro ReadBlock_content [where pre = "[]" and post = "drop (length (block_bytes es)) (table_bytes es filt)"])
      (simp_all add: table_bytes_def data_handle_def del: block_bytes_simps)
  moreover have "block_at [] es (BlockIterator_make (Block_make ?s))"
    using len by (intro Block_make_at) (simp_all add: slice_content_def slice_ok_def)
  ultimately show ?thesis
    using BlockHandle_DecodeFrom_bytes [OF h] by (simp add: BlockReader_def)
qed

text \<open>The index iterator behind its only entry: it shows the handle of the data block, also when it is no longer valid.\<close>

definition index_at :: "kv list \<Rightarrow> BlockIterator \<Rightarrow> bool" where
  "index_at es it \<longleftrightarrow>
     block_at [index_entry es] [] it \<and> slice_ok (BlockIterator_Value it) \<and>
     slice_content (BlockIterator_Value it) = handle_bytes (data_handle es)"

lemma index_at_first:
  assumes "block_at [] [index_entry es] it"
  shows "\<exists>it'. BlockIterator_Next it = Inr it' \<and> index_at es it' \<and> shows_entry (index_entry es) it'"
  using Next_at_entry [of "[]" "fst (index_entry es)" "snd (index_entry es)" "[]" it] assms
  by (auto simp: index_at_def shows_entry_def index_entry_def)

lemma index_at_end:
  assumes "index_at es it"
  shows "\<exists>it'. BlockIterator_Next it = Inr it' \<and> index_at es it' \<and> \<not> BlockIterator_Valid it'"
  using assms by (auto simp: index_at_def block_at_def BlockIterator_Next_def BlockIterator_Valid_def
      BlockIterator_Value_def Let_def)

lemma index_at_Seek:
  assumes "index_at es it" "valid_bkey t" "valid_bkey (Slice_string (fst (last es)))"
  shows "\<exists>b it'. BlockIterator_Seek icmp t it = Inr (b, it') \<and> index_at es it'"
proof -
  have "block_at [] [index_entry es] (BlockIterator_SeekToFirst it)"
    using SeekToFirst_at assms(1) by (force simp: index_at_def)
  then obtain i1 where i1: "BlockIterator_Next (BlockIterator_SeekToFirst it) = Inr i1" "index_at es i1" "shows_entry (index_entry es) i1"
    using index_at_first by blast
  obtain i2 where i2: "BlockIterator_Next i1 = Inr i2" "index_at es i2" "\<not> BlockIterator_Valid i2"
    using index_at_end [OF i1(2)] by blast
  have v: "BlockIterator_Valid i1" using i1(3) by (simp add: shows_entry_def)
  have c: "icmp (BlockIterator_Key i1) t = Inr (order_cmp (ikey_rank (Slice_string (fst (last es)))) (ikey_rank t))"
    using internal_block.Key_valid [OF i1(3) _ assms(2)] assms(3) by (simp add: index_entry_def internal_block.krank_def)
  have "bi_size i1 \<noteq> 0" using v by (auto simp: BlockIterator_Valid_def)
  then obtain n where n: "bi_size i1 = Suc n" by (cases "bi_size i1") auto
  have "BlockIterator_Seek_loop (bi_size i1) icmp t i1 = Inr (if ikey_rank (Slice_string (fst (last es))) < ikey_rank t then i2 else i1)"
    using v c n i2 by (simp add: BlockIterator_Seek_loop.simps [of _ _ _ i1] BlockIterator_Seek_loop.simps [of _ _ _ i2])
  then show ?thesis using i1 i2 c v by (auto simp: BlockIterator_Seek_def)
qed

text \<open>The table iterator over the entries \<open>es\<close> that has read the entries \<open>pre\<close>.\<close>

definition table_at :: "'w posix \<Rightarrow> 'w \<Rightarrow> bytes \<Rightarrow> kv list \<Rightarrow> kv list \<Rightarrow> SSTableIterator \<Rightarrow> bool" where
  "table_at os w filt pre post it \<longleftrightarrow>
     (let es = pre @ post in
      file_content os (si_file it) (table_bytes es filt) w \<and> index_at es (si_index_iter it) \<and>
      si_data_block_handle it = handle_bytes (data_handle es) \<and>
      (\<exists>d. si_data_iter it = Some d \<and> block_at pre post d))"

lemma read_mem_ok: "slice_ok s \<Longrightarrow> read_mem (sl_mem s) (sl_size s) = Inr (slice_content s)"
  by (simp add: read_mem_def slice_ok_def slice_content_def)

lemma UpdateDataIterator_index:
  assumes f: "file_content os (si_file it) (table_bytes es filt) w" "length (block_bytes es) < 2 ^ 32"
    and i: "index_at es (si_index_iter it)" "BlockIterator_Valid (si_index_iter it)"
  shows "\<exists>it'. UpdateDataIterator os it w = Inr it' \<and> table_at os w filt [] es it' \<and> si_file it' = si_file it"
proof -
  let ?h = "BlockIterator_Value (si_index_iter it)"
  have h: "slice_ok ?h" "slice_content ?h = handle_bytes (data_handle es)" using i(1) by (simp_all add: index_at_def)
  then have m: "sl_mem ?h = handle_bytes (data_handle es) @ drop (sl_size ?h) (sl_mem ?h)" "length (handle_bytes (data_handle es)) \<le> sl_size ?h"
    by (metis append_take_drop_id slice_content_def, metis length_slice_content order_refl)
  obtain d where d: "BlockReader os (si_file it) ?h w = Inr (Some d)" "block_at [] es d"
    using data_block [OF f m] by blast
  have "block_at [] es (BlockIterator_SeekToFirst d)" using SeekToFirst_at [OF d(2)] by simp
  then show ?thesis
    using d(1) h i f(1) by (simp add: UpdateDataIterator_def Let_def read_mem_ok table_at_def)
qed

lemma table_SeekToFirst:
  assumes t: "table_open t f es filt" and f: "file_content os f (table_bytes es filt) w"
    and len: "length (block_bytes es) < 2 ^ 32" "length (block_bytes [index_entry es]) < 2 ^ 32"
  shows "\<exists>it. SSTableIterator_SeekToFirst os (SSTable_NewIterator t) w = Inr it \<and> table_at os w filt [] es it"
proof -
  let ?s = "\<lparr>sl_mem = block_bytes [index_entry es], sl_size = length (block_bytes [index_entry es])\<rparr>"
  have "block_at [] [index_entry es] (BlockIterator_SeekToFirst (BlockIterator_make (Block_make ?s)))"
    using SeekToFirst_at [OF Block_make_at, of ?s "[index_entry es]"] len(2)
    by (simp add: slice_content_def slice_ok_def del: block_bytes_simps)
  then obtain i where i: "BlockIterator_Next (BlockIterator_SeekToFirst (BlockIterator_make (Block_make ?s))) = Inr i"
    "index_at es i" "shows_entry (index_entry es) i"
    using index_at_first by blast
  then have v: "BlockIterator_Valid i" by (simp add: shows_entry_def)
  show ?thesis
    using UpdateDataIterator_index [of os "(SSTable_NewIterator t)\<lparr>si_index_iter := i\<rparr>" es filt w] i v t f len
    by (simp add: SSTableIterator_SeekToFirst_def SSTable_NewIterator_def SSTableIterator_make_def table_open_def del: block_bytes_simps) blast
qed

text \<open>The table iterator shows an entry.\<close>

definition table_shows :: "kv \<Rightarrow> SSTableIterator \<Rightarrow> bool" where
  "table_shows e it \<longleftrightarrow>
     SSTableIterator_Valid it = Inr True \<and>
     (\<exists>ks vs. SSTableIterator_Key it = Inr ks \<and> slice_content ks = fst e \<and>
              SSTableIterator_Value it = Inr vs \<and> slice_ok vs \<and> slice_content vs = snd e)"

lemma table_showsI: "si_data_iter it = Some d \<Longrightarrow> shows_entry e d \<Longrightarrow> table_shows e it"
  by (simp add: table_shows_def SSTableIterator_Valid_def SSTableIterator_Key_def SSTableIterator_Value_def
      SSTableIterator_data_def shows_entry_def BlockIterator_Key_def)

lemma table_Valid: "si_data_iter it = Some d \<Longrightarrow> SSTableIterator_Valid it = Inr (BlockIterator_Valid d)"
  by (simp add: SSTableIterator_Valid_def SSTableIterator_data_def)

lemma table_Next_entry:
  assumes "table_at os w filt pre (e # post) it"
  shows "\<exists>it'. SSTableIterator_Next os it w = Inr it' \<and> table_at os w filt (pre @ [e]) post it' \<and> table_shows e it'"
proof -
  obtain d where d: "si_data_iter it = Some d" "block_at pre (e # post) d" using assms by (auto simp: table_at_def Let_def)
  obtain d' where d': "BlockIterator_Next d = Inr d'" "shows_entry e d'" "block_at (pre @ [e]) post d'"
    using Next_at_entry [of pre "fst e" "snd e" post d] d by auto
  then have "SSTableIterator_Next os it w = Inr (it\<lparr>si_data_iter := Some d'\<rparr>)"
    using d by (simp add: SSTableIterator_Next_def SSTableIterator_Next_loop.simps [of _ os it w] shows_entry_def)
  then show ?thesis
    using assms d' by (auto simp: table_at_def Let_def intro: table_showsI)
qed

lemma table_Next_end:
  assumes "table_at os w filt pre [] it"
  shows "\<exists>it'. SSTableIterator_Next os it w = Inr it' \<and> table_at os w filt pre [] it' \<and> SSTableIterator_Valid it' = Inr False"
proof -
  obtain d where d: "si_data_iter it = Some d" "block_at pre [] d" "index_at pre (si_index_iter it)"
    using assms by (auto simp: table_at_def Let_def)
  obtain d' where d': "BlockIterator_Next d = Inr d'" "\<not> BlockIterator_Valid d'" "block_at pre [] d'"
    using Next_at_end [OF d(2)] by blast
  obtain i where i: "BlockIterator_Next (si_index_iter it) = Inr i" "index_at pre i" "\<not> BlockIterator_Valid i"
    using index_at_end [OF d(3)] by blast
  have "SSTableIterator_Next os it w = Inr (it\<lparr>si_data_iter := Some d', si_index_iter := i\<rparr>)"
    using d d' i by (simp add: SSTableIterator_Next_def SSTableIterator_Next_loop.simps [of _ os it w])
  then show ?thesis
    using assms d' i by (auto simp: table_at_def Let_def table_Valid)
qed

lemma table_Seek:
  assumes it: "table_at os w filt pre post it" and t: "valid_bkey t" and es: "ikeys_ok (pre @ post)" "pre @ post \<noteq> []"
  shows "\<exists>it'. case List.find (internal_block.not_below t) (pre @ post) of
      None \<Rightarrow> SSTableIterator_Seek os icmp t it w = Inr (False, it') \<and> SSTableIterator_Valid it' = Inr False \<and>
        table_at os w filt (pre @ post) [] it'
    | Some e \<Rightarrow> SSTableIterator_Seek os icmp t it w = Inr (ikey_rank (Slice_string (fst e)) = ikey_rank t, it') \<and>
        table_shows e it' \<and> (\<exists>p s. pre @ post = p @ e # s \<and> table_at os w filt (p @ [e]) s it')"
proof -
  let ?es = "pre @ post"
  obtain d where d: "si_data_iter it = Some d" "block_at pre post d" and i: "index_at ?es (si_index_iter it)"
    and h: "si_data_block_handle it = handle_bytes (data_handle ?es)" and f: "file_content os (si_file it) (table_bytes ?es filt) w"
    using it by (auto simp: table_at_def Let_def)
  have "valid_bkey (Slice_string (fst (last ?es)))" using es last_in_set [OF es(2)] by (auto simp only: ikeys_ok_def)
  then obtain b i' where i': "BlockIterator_Seek icmp t (si_index_iter it) = Inr (b, i')" "index_at ?es i'"
    using index_at_Seek [OF i t] by blast
  have rd: "read_mem (sl_mem (BlockIterator_Value i')) (sl_size (BlockIterator_Value i')) = Inr (handle_bytes (data_handle ?es))"
    using i'(2) by (simp add: index_at_def read_mem_ok)
  have seek: "SSTableIterator_Seek os icmp t it w = rbind (BlockIterator_Seek icmp t d)
      (\<lambda>(found, d). Inr (found, it\<lparr>si_index_iter := i', si_data_iter := Some d\<rparr>))"
    using i'(1) rd d(1) h by (simp add: SSTableIterator_Seek_def Let_def)
  obtain d' where d': "case List.find (internal_block.not_below t) ?es of
      None \<Rightarrow> BlockIterator_Seek icmp t d = Inr (False, d') \<and> \<not> BlockIterator_Valid d' \<and> block_at ?es [] d'
    | Some e \<Rightarrow> BlockIterator_Seek icmp t d = Inr (internal_block.krank (fst e) = ikey_rank t, d') \<and> shows_entry e d' \<and>
        (\<exists>p s. ?es = p @ e # s \<and> block_at (p @ [e]) s d')"
    using internal_block.Seek_find [OF t d(2)] es(1) by (auto simp: ikeys_ok_entries)
  let ?it = "it\<lparr>si_index_iter := i', si_data_iter := Some d'\<rparr>"
  have at: "?es = p @ s \<Longrightarrow> block_at p s d' \<Longrightarrow> table_at os w filt p s ?it" for p s
    using f h i'(2) by (simp add: table_at_def)
  show ?thesis
  proof (cases "List.find (internal_block.not_below t) ?es")
    case None
    then show ?thesis using d' seek at [of ?es "[]"] by (auto simp: table_Valid)
  next
    case (Some e)
    then obtain p s where e: "BlockIterator_Seek icmp t d = Inr (internal_block.krank (fst e) = ikey_rank t, d')" "shows_entry e d'"
      "?es = p @ e # s" "block_at (p @ [e]) s d'" using d' by auto
    have "SSTableIterator_Seek os icmp t it w = Inr (ikey_rank (Slice_string (fst e)) = ikey_rank t, ?it)"
      using seek e(1) by (simp add: internal_block.krank_def)
    moreover have "table_at os w filt (p @ [e]) s ?it" using at [of "p @ [e]" s] e by simp
    moreover have "table_shows e ?it" using e(2) by (intro table_showsI) auto
    ultimately show ?thesis using Some e(3) by auto
  qed
qed

section \<open>Properties\<close>

fun table_Next_times :: "'w posix \<Rightarrow> 'w \<Rightarrow> nat \<Rightarrow> SSTableIterator \<Rightarrow> SSTableIterator res" where
  "table_Next_times os w 0 it = Inr it"
| "table_Next_times os w (Suc n) it = rbind (SSTableIterator_Next os it w) (table_Next_times os w n)"

lemma table_Next_times_entry:
  "table_at os w filt pre post it \<Longrightarrow> i < length post \<Longrightarrow>
     \<exists>it'. table_Next_times os w (Suc i) it = Inr it' \<and> table_shows (post ! i) it' \<and>
       table_at os w filt (pre @ take (Suc i) post) (drop (Suc i) post) it'"
proof (induction i arbitrary: pre post it)
  case 0
  then obtain e es where "post = e # es" by (cases post) auto
  then show ?case using table_Next_entry [of os w filt pre e es it] 0 by auto
next
  case (Suc i)
  then obtain e es where p: "post = e # es" by (cases post) auto
  obtain it1 where it1: "SSTableIterator_Next os it w = Inr it1" "table_at os w filt (pre @ [e]) es it1"
    using table_Next_entry [of os w filt pre e es it] Suc.prems(1) p by auto
  show ?case using Suc.IH [OF it1(2)] Suc.prems(2) it1(1) p by simp
qed

lemma table_Next_times_end:
  "table_at os w filt pre post it \<Longrightarrow>
     \<exists>it'. table_Next_times os w (Suc (length post)) it = Inr it' \<and> SSTableIterator_Valid it' = Inr False"
proof (induction post arbitrary: pre it)
  case Nil
  then show ?case using table_Next_end [of os w filt pre it] by auto
next
  case (Cons e es)
  obtain it1 where it1: "SSTableIterator_Next os it w = Inr it1" "table_at os w filt (pre @ [e]) es it1"
    using table_Next_entry [OF Cons.prems] by auto
  show ?case using Cons.IH [OF it1(2)] it1(1) by simp
qed

lemma find_not_below:
  fixes r :: "'a \<Rightarrow> 'o::linorder"
  shows "sorted_wrt (<) (map r es) \<Longrightarrow>
    (case List.find (\<lambda>e. \<not> r e < k) es of None \<Rightarrow> False | Some e \<Rightarrow> r e = k) \<longleftrightarrow> (\<exists>e\<in>set es. r e = k)"
proof (induction es)
  case (Cons a es)
  then show ?case by (cases "r a < k") force+
qed simp

lemma not_below_eq: "internal_block.not_below key = (\<lambda>e. \<not> ikey_rank (Slice_string (fst e)) < ikey_rank key)"
  by (simp add: internal_block.not_below_def internal_block.krank_def fun_eq_iff)

lemma table_shows_Valid: "table_shows e it \<Longrightarrow> SSTableIterator_Valid it = Inr True"
  by (simp add: table_shows_def)

lemma filter_block_zero: "0 \<in> set (filter_block [x])"
  by (simp add: filter_block_def EncodeFixed32_def)

lemma filter_block_le:
  assumes "filter_rep the_bloom (map fst es) x"
  shows "length (filter_block [x]) \<le> 2 * length (block_bytes es) + 19"
proof -
  have "length (map fst es) \<le> length (block_bytes es)" using block_bytes_length [of es] by simp
  then show ?thesis using filter_block_length [OF assms] by simp
qed

lemma table_size_small:
  assumes "filter_rep the_bloom (map fst es) x" "es \<noteq> []" "length (block_bytes es) < kBlockSize"
  shows "unat (word_of_nat (table_size es (filter_block [x])) :: u64) = table_size es (filter_block [x])"
proof -
  have "length (filter_block [x]) \<le> 2 * length (block_bytes es) + 19" by (rule filter_block_le [OF assms(1)])
  then have "table_size es (filter_block [x]) < 2 ^ 64"
    using index_entry_le [OF assms(2)] assms(3) by (simp add: table_size_def kBlockSize_def kFixedFooterSize_def)
  then show ?thesis by simp
qed

lemma Open_built_table:
  assumes "file_content os f (table_bytes es (filter_block [x])) w" "filter_rep the_bloom (map fst es) x" "es \<noteq> []"
    "length (block_bytes es) < 2 ^ 29"
  obtains t where "SSTable_Open os f (table_size es (filter_block [x])) w = Inr (Some t)"
    "table_open t f es (filter_block [x])" "length (block_bytes [index_entry es]) < 2 ^ 32"
proof -
  have "length (filter_block [x]) \<le> 2 * length (block_bytes es) + 19" by (rule filter_block_le [OF assms(2)])
  then have "length (block_bytes es) + length (filter_block [x]) + length (block_bytes [index_entry es]) < 2 ^ 32"
    using index_entry_le [OF assms(3)] assms(4) by simp
  then show thesis using Open_table [OF assms(1) filter_block_zero] that by (auto simp del: block_bytes_simps)
qed

lemma table_visits:
  assumes "file_content os f (table_bytes es (filter_block [x])) w" "filter_rep the_bloom (map fst es) x" "es \<noteq> []"
    "length (block_bytes es) < 2 ^ 29"
  shows "\<exists>t it. SSTable_Open os f (table_size es (filter_block [x])) w = Inr (Some t) \<and>
    SSTableIterator_SeekToFirst os (SSTable_NewIterator t) w = Inr it \<and>
    (\<forall>i < length es. \<exists>it'. table_Next_times os w (Suc i) it = Inr it' \<and> table_shows (es ! i) it') \<and>
    (\<exists>it'. table_Next_times os w (Suc (length es)) it = Inr it' \<and> SSTableIterator_Valid it' = Inr False)"
proof -
  obtain t where t: "SSTable_Open os f (table_size es (filter_block [x])) w = Inr (Some t)"
    "table_open t f es (filter_block [x])" "length (block_bytes [index_entry es]) < 2 ^ 32"
    by (rule Open_built_table [OF assms])
  have "length (block_bytes es) < 2 ^ 32" using assms(4) by simp
  then obtain it where it: "SSTableIterator_SeekToFirst os (SSTable_NewIterator t) w = Inr it" "table_at os w (filter_block [x]) [] es it"
    using table_SeekToFirst [OF t(2) assms(1) _ t(3)] by blast
  then show ?thesis using t(1) table_Next_times_entry [OF it(2)] table_Next_times_end [OF it(2)] by blast
qed

text \<open>A table file as \<^verbatim>\<open>TableBuilder\<close> writes it for one data block is opened with the file size the
  builder reports, and its iterator visits the entries in the order they were added: after
  \<^verbatim>\<open>SeekToFirst\<close> the \<open>n\<close>-th \<^verbatim>\<open>Next\<close> shows the \<open>n\<close>-th key and value, the one after the last leaves the
  iterator invalid. No read leaves the memory of a block.\<close>

theorem table_iterate:
  assumes "file_content os f (table_bytes es (filter_block [x])) w" "filter_rep the_bloom (map fst es) x" "es \<noteq> []"
    "length (block_bytes es) < 2 ^ 29"
  shows "\<exists>t it. SSTable_Open os f (table_size es (filter_block [x])) w = Inr (Some t) \<and>
    SSTableIterator_SeekToFirst os (SSTable_NewIterator t) w = Inr it \<and>
    (\<forall>i < length es. \<exists>it'. table_Next_times os w (Suc i) it = Inr it' \<and> table_shows (es ! i) it') \<and>
    (\<exists>it'. table_Next_times os w (Suc (length es)) it = Inr it' \<and> SSTableIterator_Valid it' = Inr False)"
  by (rule table_visits [OF assms])

text \<open>\<^verbatim>\<open>SSTableIterator::Seek\<close> on such a table returns, stops at the first entry whose internal key is
  not smaller than the target, or behind the last entry if there is none, and returns true exactly
  when that entry has the target's user key and sequence number.\<close>

theorem table_seek:
  assumes "file_content os f (table_bytes es (filter_block [x])) w" "filter_rep the_bloom (map fst es) x" "es \<noteq> []"
    "length (block_bytes es) < 2 ^ 29" "ikeys_ok es" "valid_bkey key"
  shows "\<exists>t it found it'. SSTable_Open os f (table_size es (filter_block [x])) w = Inr (Some t) \<and>
    SSTableIterator_SeekToFirst os (SSTable_NewIterator t) w = Inr it \<and>
    SSTableIterator_Seek os icmp key it w = Inr (found, it') \<and>
    (case List.find (\<lambda>e. \<not> ikey_rank (Slice_string (fst e)) < ikey_rank key) es of
       None \<Rightarrow> \<not> found \<and> SSTableIterator_Valid it' = Inr False
     | Some e \<Rightarrow> (found \<longleftrightarrow> ikey_rank (Slice_string (fst e)) = ikey_rank key) \<and> table_shows e it')"
proof -
  obtain t where t: "SSTable_Open os f (table_size es (filter_block [x])) w = Inr (Some t)"
    "table_open t f es (filter_block [x])" "length (block_bytes [index_entry es]) < 2 ^ 32"
    by (rule Open_built_table [OF assms(1-4)])
  have "length (block_bytes es) < 2 ^ 32" using assms(4) by simp
  then obtain it where it: "SSTableIterator_SeekToFirst os (SSTable_NewIterator t) w = Inr it" "table_at os w (filter_block [x]) [] es it"
    using table_SeekToFirst [OF t(2) assms(1) _ t(3)] by blast
  then show ?thesis
    using table_Seek [OF it(2) assms(6)] assms(3,5) t(1) by (fastforce simp: not_below_eq split: option.splits)
qed

text \<open>A lookup seeks, and is at a valid entry with the key exactly when the key is stored.\<close>

lemma table_lookup:
  assumes "table_at os w filt [] es it" "es \<noteq> []" "ikeys_ok es" "valid_bkey key"
  obtains hit it' v where "SSTableIterator_Seek os icmp key it w = Inr (hit, it')" "SSTableIterator_Valid it' = Inr v"
    "v \<and> hit \<longleftrightarrow> (\<exists>e\<in>set es. ikey_rank (Slice_string (fst e)) = ikey_rank key)"
proof -
  let ?P = "\<exists>e\<in>set es. ikey_rank (Slice_string (fst e)) = ikey_rank key"
  have P: "(case List.find (internal_block.not_below key) es of None \<Rightarrow> False | Some e \<Rightarrow> ikey_rank (Slice_string (fst e)) = ikey_rank key) = ?P"
    using find_not_below [of "\<lambda>e. ikey_rank (Slice_string (fst e))" es "ikey_rank key"] assms(3) by (simp add: ikeys_ok_def not_below_eq)
  show thesis
    using table_Seek [OF assms(1,4)] assms(2,3) that unfolding P [symmetric]
    by (cases "List.find (internal_block.not_below key) es") (auto dest: table_shows_Valid)
qed

lemma InternalGet_table:
  assumes "file_content os f (table_bytes es (filter_block [x])) w" "filter_rep the_bloom (map fst es) x" "es \<noteq> []"
    "length (block_bytes es) < 2 ^ 29" "ikeys_ok es" "valid_bkey key"
  shows "\<exists>t. SSTable_Open os f (table_size es (filter_block [x])) w = Inr (Some t) \<and>
    SSTable_InternalGet os icmp key t w =
      rbind (BloomFilter_KeyMayMatch key
          \<lparr>sl_mem = filter_block [x], sl_size = length (takeWhile (\<lambda>b. b \<noteq> 0) (filter_block [x]))\<rparr>) (\<lambda>may.
        if may \<and> (\<exists>e\<in>set es. ikey_rank (Slice_string (fst e)) = ikey_rank key) then Inl UseAfterFree else Inr None)"
proof -
  obtain t where t: "SSTable_Open os f (table_size es (filter_block [x])) w = Inr (Some t)"
    "table_open t f es (filter_block [x])" "length (block_bytes [index_entry es]) < 2 ^ 32"
    by (rule Open_built_table [OF assms(1-4)])
  have "length (block_bytes es) < 2 ^ 32" using assms(4) by simp
  then obtain it where it: "SSTableIterator_SeekToFirst os (SSTable_NewIterator t) w = Inr it" "table_at os w (filter_block [x]) [] es it"
    using table_SeekToFirst [OF t(2) assms(1) _ t(3)] by blast
  let ?P = "\<exists>e\<in>set es. ikey_rank (Slice_string (fst e)) = ikey_rank key"
  obtain hit it' v where s: "SSTableIterator_Seek os icmp key it w = Inr (hit, it')" "SSTableIterator_Valid it' = Inr v" "v \<and> hit \<longleftrightarrow> ?P"
    by (rule table_lookup [OF it(2) assms(3,5,6)])
  have "ss_filter_data t = filter_block [x]" using t(2) by (simp add: table_open_def)
  then show ?thesis
    using t(1) it(1) s(1,2) filter_block_zero [of x]
    by (auto simp: SSTable_InternalGet_def Slice_cstr_def strlen_def s(3) [symmetric] fun_eq_iff simp del: bex_simps ball_simps intro!: arg_cong2 [where f = rbind])
qed

text \<open>C37: \<^verbatim>\<open>SSTable::InternalGet\<close> on such a table never returns a stored value. The filter it asks is the part
  of the filter block before the block's first zero byte, read as one Bloom filter; where that one
  rejects the key the lookup reports it absent, stored or not, and where it does not, a stored key
  is found and its value then read from an iterator that was just deleted.\<close>

theorem table_get:
  assumes "file_content os f (table_bytes es (filter_block [x])) w" "filter_rep the_bloom (map fst es) x" "es \<noteq> []"
    "length (block_bytes es) < 2 ^ 29" "ikeys_ok es" "valid_bkey key"
  shows "\<exists>t. SSTable_Open os f (table_size es (filter_block [x])) w = Inr (Some t) \<and>
    SSTable_InternalGet os icmp key t w =
      rbind (BloomFilter_KeyMayMatch key
          \<lparr>sl_mem = filter_block [x], sl_size = length (takeWhile (\<lambda>b. b \<noteq> 0) (filter_block [x]))\<rparr>) (\<lambda>may.
        if may \<and> (\<exists>e\<in>set es. ikey_rank (Slice_string (fst e)) = ikey_rank key) then Inl UseAfterFree else Inr None)"
  by (rule InternalGet_table [OF assms])

text \<open>A table with one entry on the disk of the system \<open>slow_os\<close>, used by the witnesses.\<close>

definition small_table :: "kv list" where
  "small_table = [(internal_bytes [97] 257, [98])]"

definition open_file :: RandomAccessFile where
  "open_file = \<lparr>rf_fd = 3, rf_filename = [115], rf_status = Status_OK\<rparr>"

lemma small_table_ok:
  "small_table \<noteq> []" "length (block_bytes small_table) < 2 ^ 29" "ikeys_ok small_table"
  "file_content slow_os open_file w w"
  using length_entry_bytes_le [of "internal_bytes [97] 257" "[98]"]
  by (simp_all add: small_table_def ikeys_ok_def internal_bytes_key file_content_def open_file_def slow_os_def)

lemma small_filter: "\<exists>x. filter_rep the_bloom (map fst small_table) x"
proof -
  have "int (length [Slice_string (internal_bytes [97] 257)]) * bf_bits_per_key the_bloom < 2 ^ 31"
    by (simp add: BloomFilter_make_def kBloomFilterPerKeySize_def)
  from CreateFilter_filter [OF BloomFilter_make_ok _ this, of "[]"] show ?thesis by (auto simp: small_table_def)
qed

theorem table_iterate_witness:
  "\<exists>x t it it'. filter_rep the_bloom (map fst small_table) x \<and>
    (let w = table_bytes small_table (filter_block [x]) in
     SSTable_Open slow_os open_file (table_size small_table (filter_block [x])) w = Inr (Some t) \<and>
     SSTableIterator_SeekToFirst slow_os (SSTable_NewIterator t) w = Inr it \<and>
     SSTableIterator_Next slow_os it w = Inr it' \<and> table_shows (internal_bytes [97] 257, [98]) it')"
proof -
  obtain x where x: "filter_rep the_bloom (map fst small_table) x" using small_filter by blast
  from table_iterate [OF small_table_ok(4) x small_table_ok(1,2)] x show ?thesis
    by (force simp: small_table_def Let_def)
qed

theorem table_seek_witness:
  "\<exists>x t it it'. filter_rep the_bloom (map fst small_table) x \<and>
    (let w = table_bytes small_table (filter_block [x]) in
     SSTable_Open slow_os open_file (table_size small_table (filter_block [x])) w = Inr (Some t) \<and>
     SSTableIterator_SeekToFirst slow_os (SSTable_NewIterator t) w = Inr it \<and>
     SSTableIterator_Seek slow_os icmp (Slice_string (internal_bytes [97] 257)) it w = Inr (True, it') \<and>
     table_shows (internal_bytes [97] 257, [98]) it')"
proof -
  obtain x where x: "filter_rep the_bloom (map fst small_table) x" using small_filter by blast
  have "valid_bkey (Slice_string (internal_bytes [97] 257))" by (simp add: internal_bytes_key)
  from table_seek [OF small_table_ok(4) x small_table_ok(1,2,3) this] x show ?thesis
    by (auto simp: small_table_def Let_def)
qed

theorem table_get_witness:
  "\<exists>x t. filter_rep the_bloom (map fst small_table) x \<and>
    (let w = table_bytes small_table (filter_block [x]) in
     SSTable_Open slow_os open_file (table_size small_table (filter_block [x])) w = Inr (Some t) \<and>
     (\<nexists>v. SSTable_InternalGet slow_os icmp (Slice_string (internal_bytes [97] 257)) t w = Inr (Some v)))"
proof -
  obtain x where x: "filter_rep the_bloom (map fst small_table) x" using small_filter by blast
  have "valid_bkey (Slice_string (internal_bytes [97] 257))" by (simp add: internal_bytes_key)
  from table_get [OF small_table_ok(4) x small_table_ok(1,2,3) this] x show ?thesis
    by (force simp: small_table_def Let_def split: if_splits)
qed

end
