(* ===== verification/Memtables.thy ===== *)
theory Memtables
  imports Keys
begin

text \<open>
  \<^verbatim>\<open>Memtable\<close> and \<^verbatim>\<open>MemtableIterator\<close> (\<^verbatim>\<open>memory/memtable.h\<close>, \<^verbatim>\<open>memory/memtable.cc\<close>): a skip
  list of memtable keys and a byte count. The constructor leaves the byte count
  uninitialised, so its first value is an argument of the model.
\<close>

record Memtable =
  mt_table :: "slice skiplist"
  mt_size :: nat

definition Memtable_make :: "nat \<Rightarrow> Memtable" where
  "Memtable_make junk = \<lparr>mt_table = SkipList_make, mt_size = junk\<rparr>"

definition Memtable_EstimatedSize :: "Memtable \<Rightarrow> nat" where
  "Memtable_EstimatedSize m = mt_size m"

definition Memtable_Insert ::
  "('r \<Rightarrow> nat \<times> 'r) \<Rightarrow> slice \<Rightarrow> 'r \<Rightarrow> Memtable \<Rightarrow> ('r \<times> Memtable) res" where
  "Memtable_Insert rand memtable_key r m =
     rbind (SkipList_Insert rand MemtableKeyComparator_Compare memtable_key r (mt_table m)) (\<lambda>(r, table).
       Inr (r, m\<lparr>mt_table := table, mt_size := (mt_size m + sl_size memtable_key) mod 2 ^ 64\<rparr>))"

text \<open>\<open>None\<close> is the result \<^verbatim>\<open>false\<close>, which leaves \<^verbatim>\<open>*result\<close> as it was.\<close>

definition Memtable_Get :: "slice \<Rightarrow> Memtable \<Rightarrow> bytes option res" where
  "Memtable_Get memtable_key m =
     rbind (FindFirstGreaterOrEqual MemtableKeyComparator_Compare memtable_key (mt_table m)) (\<lambda>flag.
     case flag of
       None \<Rightarrow> Inr None
     | Some ret \<Rightarrow>
         rbind (ExtractInternalKey ret) (\<lambda>internal_key1.
         rbind (ExtractInternalKey memtable_key) (\<lambda>internal_key2.
         rbind (ExtractUserKey internal_key1) (\<lambda>(user_key1, s1).
         rbind (ExtractUserKey internal_key2) (\<lambda>(user_key2, s2).
         rbind (Slice_Compare user_key1 user_key2) (\<lambda>c.
           if c \<noteq> 0 then Inr None
           else rbind (ExtractValueFromMemtable ret) (\<lambda>result. Inr (Some result))))))))"

section \<open>The iterator\<close>

definition MemtableIterator_make :: "Memtable \<Rightarrow> nat option res" where
  "MemtableIterator_make m = SkipList_Iterator_make (mt_table m)"

definition MemtableIterator_Valid :: "nat option \<Rightarrow> bool" where
  "MemtableIterator_Valid it \<longleftrightarrow> SkipList_Iterator_Valid it"

definition MemtableIterator_Next :: "Memtable \<Rightarrow> nat option \<Rightarrow> nat option res" where
  "MemtableIterator_Next m it = SkipList_Iterator_Next (mt_table m) it"

definition MemtableIterator_SeekToFirst :: "nat option \<Rightarrow> unit res" where
  "MemtableIterator_SeekToFirst it = assert_that (MemtableIterator_Valid it)"

definition MemtableIterator_Key :: "Memtable \<Rightarrow> nat option \<Rightarrow> slice res" where
  "MemtableIterator_Key m it =
     rbind (SkipList_Iterator_Key (mt_table m) it) (\<lambda>memtable_key. ExtractInternalKey memtable_key)"

definition MemtableIterator_Value :: "Memtable \<Rightarrow> nat option \<Rightarrow> slice res" where
  "MemtableIterator_Value m it =
     rbind (SkipList_Iterator_Key (mt_table m) it) (\<lambda>memtable_key.
     rbind (GetVarint32 memtable_key) (\<lambda>(internal_key_len, memtable_key).
     rbind (Slice_Advance memtable_key (unat internal_key_len)) (\<lambda>memtable_key.
     rbind (GetVarint32 memtable_key) (\<lambda>(value_len, memtable_key).
       Inr (Slice_buf (sl_mem memtable_key) (unat value_len))))))"

text \<open>The operations that the iterator does not support.\<close>

definition MemtableIterator_Seek :: "slice \<Rightarrow> nat option \<Rightarrow> bool \<times> nat option" where
  "MemtableIterator_Seek target it = (False, it)"

definition MemtableIterator_SeekToLast :: "nat option \<Rightarrow> nat option" where
  "MemtableIterator_SeekToLast it = it"

definition MemtableIterator_Prev :: "nat option \<Rightarrow> nat option" where
  "MemtableIterator_Prev it = it"

definition Memtable_NewIterator :: "Memtable \<Rightarrow> nat option res" where
  "Memtable_NewIterator m = MemtableIterator_make m"

section \<open>The entries of a memtable\<close>

text \<open>An entry is a user key, a tag and a value.\<close>

type_synonym entry = "bytes \<times> u64 \<times> bytes"

fun entry_key :: "entry \<Rightarrow> slice" where
  "entry_key (uk, tag, v) = mkey_slice uk tag v"

fun entry_fits :: "entry \<Rightarrow> bool" where
  "entry_fits (uk, tag, v) = mkey_fits uk v"

fun entry_rank :: "entry \<Rightarrow> ikey" where
  "entry_rank (uk, tag, v) = IKey uk (drop_bit 8 tag)"

fun entry_value :: "entry \<Rightarrow> bytes" where
  "entry_value (uk, tag, v) = v"

text \<open>The memtable holds the entries \<open>es\<close>, in the order of the keys.\<close>

definition memtable_rep :: "Memtable \<Rightarrow> entry list \<Rightarrow> bool" where
  "memtable_rep m es \<longleftrightarrow>
     sk_ok valid_mkey mkey_rank (mt_table m) \<and> sk_keys (mt_table m) = map entry_key es \<and>
     (\<forall>e\<in>set es. entry_fits e)"

text \<open>The newest entry of a user key whose sequence number is at most \<open>q\<close>.\<close>

definition newest_upto :: "entry list \<Rightarrow> bytes \<Rightarrow> u64 \<Rightarrow> entry option" where
  "newest_upto es uk q = List.find (\<lambda>(u, t, v). u = uk \<and> drop_bit 8 t \<le> q) es"

lemma entry_fits_simps [simp]:
  "entry_fits e \<Longrightarrow> valid_mkey (entry_key e)"
  "entry_fits e \<Longrightarrow> mkey_rank (entry_key e) = entry_rank e"
  by (cases e; simp)+

lemma memtable_rep_ranks:
  "memtable_rep m es \<Longrightarrow> map mkey_rank (sk_keys (mt_table m)) = map entry_rank es"
  by (simp add: memtable_rep_def)

lemma memtable_rep_sorted: "memtable_rep m es \<Longrightarrow> sorted (map entry_rank es)"
  using memtable_cmp.table.keys_sorted [of "mt_table m"] memtable_rep_ranks [of m es]
  by (metis memtable_rep_def)

lemma Memtable_make_rep: "memtable_rep (Memtable_make junk) []"
  by (simp add: memtable_rep_def Memtable_make_def SkipList_make_ok)

lemma Memtable_Insert_rep:
  assumes "memtable_rep m es" "entry_fits e"
  shows "\<exists>r' m'. Memtable_Insert rand (entry_key e) r m = Inr (r', m') \<and>
    memtable_rep m' (insert_before entry_rank e es) \<and>
    mt_size m' = (mt_size m + sl_size (entry_key e)) mod 2 ^ 64"
proof -
  obtain h r' where h: "RandomHeight rand r = (h, r')" by fastforce
  then have "1 \<le> h" "h \<le> kSkipListNodeMaxLevel" using RandomHeight_bounds [of rand r] by simp_all
  then obtain t where t: "SkipList_Insert_at MemtableKeyComparator_Compare h (entry_key e) (mt_table m) = Inr t"
    "sk_ok valid_mkey mkey_rank t" "sk_keys t = insert_before mkey_rank (entry_key e) (map entry_key es)"
    using memtable_cmp.table.insert_keys [of "mt_table m" "entry_key e" h] assms
    by (auto simp: memtable_rep_def)
  moreover have "sk_keys t = map entry_key (insert_before entry_rank e es)"
    using t(3) assms by (simp add: insert_before_map memtable_rep_def)
  ultimately show ?thesis
    using h assms by (auto simp: Memtable_Insert_def SkipList_Insert_def memtable_rep_def)
qed

section \<open>Lookup\<close>

lemma newest_upto_Nil [simp]: "newest_upto [] uk q = None"
  by (simp add: newest_upto_def)

lemma newest_upto_Cons [simp]:
  "newest_upto ((u, t, v) # es) uk q =
     (if u = uk \<and> drop_bit 8 t \<le> q then Some (u, t, v) else newest_upto es uk q)"
  by (simp add: newest_upto_def)

lemma newest_upto_None:
  "newest_upto es uk q = None" if "\<forall>e\<in>set es. uk < ik_user (entry_rank e)"
  using that by (induction es) auto

lemma newest_upto_find:
  "sorted (map entry_rank es) \<Longrightarrow>
     newest_upto es uk q =
       (case List.find (\<lambda>e. \<not> entry_rank e < IKey uk q) es of
          None \<Rightarrow> None
        | Some e \<Rightarrow> if ik_user (entry_rank e) = uk then Some e else None)"
proof (induction es)
  case (Cons e es)
  obtain u t v where e: "e = (u, t, v)" by (cases e)
  show ?case
  proof (cases "entry_rank e < IKey uk q")
    case True
    then show ?thesis using Cons e by (auto simp: less_ikey_def)
  next
    case False
    show ?thesis
    proof (cases "u = uk")
      case True
      then show ?thesis using False e by (auto simp: less_ikey_def)
    next
      case neq: False
      then have "uk < u" using False e by (auto simp: less_ikey_def)
      then have "\<forall>e'\<in>set es. uk < ik_user (entry_rank e')"
        using Cons.prems e by (fastforce simp: less_eq_ikey_def)
      then show ?thesis using False e neq by (simp add: newest_upto_None)
    qed
  qed
qed simp

lemma Memtable_Get_newest:
  assumes rep: "memtable_rep m es" and dist: "distinct (map entry_rank es)" and fits: "mkey_fits uk v0"
  shows "Memtable_Get (mkey_slice uk tag v0) m =
    Inr (map_option entry_value (newest_upto es uk (drop_bit 8 tag)))"
proof -
  let ?P = "\<lambda>e. \<not> entry_rank e < IKey uk (drop_bit 8 tag)"
  have ok: "sk_ok valid_mkey mkey_rank (mt_table m)" and keys: "sk_keys (mt_table m) = map entry_key es"
    and ef: "\<forall>e\<in>set es. entry_fits e"
    using rep by (simp_all add: memtable_rep_def)
  have "distinct (map mkey_rank (sk_keys (mt_table m)))"
    using dist by (simp only: memtable_rep_ranks [OF rep])
  note lookup = memtable_cmp.table.lookup_distinct [OF ok _ this, of "mkey_slice uk tag v0"]
  have "List.find (\<lambda>x. \<not> mkey_rank x < mkey_rank (mkey_slice uk tag v0)) (map entry_key es) =
      map_option entry_key (List.find ?P es)"
    using ef fits by (induction es) auto
  then have look: "FindFirstGreaterOrEqual MemtableKeyComparator_Compare (mkey_slice uk tag v0) (mt_table m) =
      Inr (map_option entry_key (List.find ?P es))"
    using lookup fits keys by simp
  have newest: "newest_upto es uk (drop_bit 8 tag) = (case List.find ?P es of
      None \<Rightarrow> None | Some e \<Rightarrow> if ik_user (entry_rank e) = uk then Some e else None)"
    by (rule newest_upto_find [OF memtable_rep_sorted [OF rep]])
  show ?thesis
  proof (cases "List.find ?P es")
    case None
    then show ?thesis using look newest by (simp add: Memtable_Get_def)
  next
    case (Some e)
    obtain u t v where e: "e = (u, t, v)" by (cases e)
    have fe: "mkey_fits u v" using find_SomeD [OF Some] ef e by auto
    let ?s = "\<lambda>u t v. Slice_buf (internal_bytes u t @ EncodeVarint32 (word_of_nat (length v)) @ v) (length u + 8)"
    have ex: "ExtractUserKey (?s u t v) = Inr (Slice_buf (sl_mem (?s u t v)) (length u), drop_bit 8 t)" for u t v
      by (rule ExtractUserKey_internal) (simp_all add: Slice_buf_def)
    have ok': "slice_ok (Slice_buf (sl_mem (?s u t v)) (length u))"
      and cont: "slice_content (Slice_buf (sl_mem (?s u t v)) (length u)) = u" if "mkey_fits u v" for u t v
      using that by (simp_all add: Slice_buf_def slice_ok_def slice_content_def internal_bytes_def mkey_fits_def)
    show ?thesis
      using look newest Some e fe fits
      by (auto simp: Memtable_Get_def ExtractInternalKey_mkey ExtractValueFromMemtable_mkey ex
          Slice_Compare_content ok' cont)
  qed
qed

section \<open>Properties\<close>

text \<open>C27: on a memtable without duplicate keys, \<^verbatim>\<open>Memtable::Get\<close> with a lookup key of sequence number
  \<open>q\<close> returns the value of the newest entry of that user key whose sequence number is at most \<open>q\<close>,
  and \<^verbatim>\<open>false\<close> exactly when there is none.\<close>

theorem Memtable_Get_correct:
  assumes "memtable_rep m es" "distinct (map entry_rank es)" "mkey_fits uk []"
  shows "Memtable_Get (mkey_slice uk (make_tag q ty) []) m =
    Inr (map_option entry_value (newest_upto es uk (take_bit 56 q)))"
  using Memtable_Get_newest [OF assms, of "make_tag q ty"] by (simp add: make_tag_seq)

theorem Memtable_Get_correct_witness:
  "\<exists>r' m'. Memtable_Insert (\<lambda>n. (n, n + 1)) (entry_key ([97], make_tag 3 kTypeValue, [98])) (2::nat) (Memtable_make 0) = Inr (r', m') \<and>
    Memtable_Get (mkey_slice [97] (make_tag 5 kTypeValue) []) m' = Inr (Some [98])"
proof -
  let ?e = "([97], make_tag 3 kTypeValue, [98]) :: entry"
  have "entry_fits ?e" by (simp add: mkey_fits_def)
  from Memtable_Insert_rep [OF Memtable_make_rep this, of "\<lambda>n. (n, n + 1)" "2::nat" 0]
  obtain r' m' where m: "Memtable_Insert (\<lambda>n. (n, n + 1)) (entry_key ?e) (2::nat) (Memtable_make 0) = Inr (r', m')"
    "memtable_rep m' (insert_before entry_rank ?e [])" by blast
  have "insert_before entry_rank ?e [] = [?e]" by (simp add: insert_before_def)
  moreover have "newest_upto [?e] [97] (take_bit 56 5) = Some ?e"
    by (simp add: make_tag_seq take_bit_eq_mod)
  ultimately show ?thesis
    using m Memtable_Get_correct [of m' "[?e]" "[97]" 5 kTypeValue] by (simp add: mkey_fits_def)
qed

text \<open>\<^verbatim>\<open>Memtable::Insert\<close> of a well-formed key returns, adds exactly that entry at its place in the
  order and adds the key's size to the byte count, modulo \<open>2 ^ 64\<close>.\<close>

theorem Memtable_Insert_correct:
  assumes "memtable_rep m es" "entry_fits e"
  shows "\<exists>r' m'. Memtable_Insert rand (entry_key e) r m = Inr (r', m') \<and>
    memtable_rep m' (insert_before entry_rank e es) \<and>
    Memtable_EstimatedSize m' = (Memtable_EstimatedSize m + sl_size (entry_key e)) mod 2 ^ 64"
  using Memtable_Insert_rep [OF assms] by (simp add: Memtable_EstimatedSize_def)

theorem Memtable_Insert_correct_witness:
  "\<exists>r' m'. Memtable_Insert (\<lambda>n. (n, n + 1)) (entry_key ([97], 257, [98])) (2::nat) (Memtable_make 0) = Inr (r', m') \<and>
    memtable_rep m' (insert_before entry_rank ([97], 257, [98]) []) \<and>
    Memtable_EstimatedSize m' = (Memtable_EstimatedSize (Memtable_make 0) + sl_size (entry_key ([97], 257, [98]))) mod 2 ^ 64"
  by (rule Memtable_Insert_correct) (simp_all add: Memtable_make_rep mkey_fits_def)

end
