(* ===== verification/WriteBatches.thy ===== *)
theory WriteBatches
  imports Memtables
begin

text \<open>
  \<^verbatim>\<open>WriteBatch\<close> and \<^verbatim>\<open>WriteBatchInternal\<close> (\<^verbatim>\<open>memory/write_batch.h\<close>,
  \<^verbatim>\<open>memory/write_batch.cc\<close>). A batch is one string: a 12-byte header (the sequence
  number in 8 bytes, the count in 4), then for each update its type byte and
  its length-prefixed key and value.
\<close>

definition kWriteBatchHeader :: nat where
  "kWriteBatchHeader = 12"

record WriteBatch =
  wb_rep :: bytes

text \<open>Addition of two \<^verbatim>\<open>int\<close> values.\<close>

definition int_add :: "int \<Rightarrow> int \<Rightarrow> int res" where
  "int_add a b = (if -(2 ^ 31) \<le> a + b \<and> a + b < 2 ^ 31 then Inr (a + b) else Inl SignedOverflow)"

section \<open>The internal accessors\<close>

definition WriteBatch_Count :: "WriteBatch \<Rightarrow> int res" where
  "WriteBatch_Count w =
     rbind (DecodeFixed32 (drop 8 (string_data (wb_rep w)))) (\<lambda>c. Inr (sint c))"

definition WriteBatch_SetCount :: "WriteBatch \<Rightarrow> int \<Rightarrow> WriteBatch res" where
  "WriteBatch_SetCount w count =
     rbind (overwrite (wb_rep w) 8 (EncodeFixed32 (word_of_int count))) (\<lambda>rep.
       Inr (w\<lparr>wb_rep := rep\<rparr>))"

definition WriteBatch_Sequence :: "WriteBatch \<Rightarrow> u64 res" where
  "WriteBatch_Sequence w = DecodeFixed64 (string_data (wb_rep w))"

definition WriteBatch_SetSequence :: "WriteBatch \<Rightarrow> u64 \<Rightarrow> WriteBatch res" where
  "WriteBatch_SetSequence w s =
     rbind (overwrite (wb_rep w) 0 (EncodeFixed64 s)) (\<lambda>rep. Inr (w\<lparr>wb_rep := rep\<rparr>))"

definition WriteBatch_Bytes :: "WriteBatch \<Rightarrow> nat" where
  "WriteBatch_Bytes w = length (wb_rep w)"

text \<open>\<^verbatim>\<open>WriteBatchInternal::Append(src, dst)\<close> returns the changed destination.\<close>

definition WriteBatchInternal_Append :: "WriteBatch \<Rightarrow> WriteBatch \<Rightarrow> WriteBatch res" where
  "WriteBatchInternal_Append src dst =
     rbind (WriteBatch_Count src) (\<lambda>a.
     rbind (WriteBatch_Count dst) (\<lambda>b.
     rbind (int_add a b) (\<lambda>n.
     rbind (WriteBatch_SetCount dst n) (\<lambda>dst.
     rbind (assert_that (length (wb_rep src) \<ge> kWriteBatchHeader)) (\<lambda>_.
       Inr (dst\<lparr>wb_rep := wb_rep dst @ drop kWriteBatchHeader (wb_rep src)\<rparr>))))))"

section \<open>Operations\<close>

definition WriteBatch_Clear :: WriteBatch where
  "WriteBatch_Clear = \<lparr>wb_rep = replicate kWriteBatchHeader 0\<rparr>"

definition WriteBatch_make :: WriteBatch where
  "WriteBatch_make = WriteBatch_Clear"

definition WriteBatch_Put :: "slice \<Rightarrow> slice \<Rightarrow> WriteBatch \<Rightarrow> WriteBatch res" where
  "WriteBatch_Put key value w =
     rbind (assert_that (length (wb_rep w) \<ge> kWriteBatchHeader)) (\<lambda>_.
     rbind (WriteBatch_Count w) (\<lambda>c.
     rbind (int_add c 1) (\<lambda>c.
     rbind (WriteBatch_SetCount w c) (\<lambda>w.
     rbind (PutLengthPrefixedSlice (wb_rep w @ [KeyType_code kTypeValue]) key) (\<lambda>rep.
     rbind (PutLengthPrefixedSlice rep value) (\<lambda>rep.
       Inr (w\<lparr>wb_rep := rep\<rparr>)))))))"

definition WriteBatch_Delete :: "slice \<Rightarrow> WriteBatch \<Rightarrow> WriteBatch res" where
  "WriteBatch_Delete key w =
     rbind (assert_that (length (wb_rep w) \<ge> kWriteBatchHeader)) (\<lambda>_.
     rbind (WriteBatch_Count w) (\<lambda>c.
     rbind (int_add c 1) (\<lambda>c.
     rbind (WriteBatch_SetCount w c) (\<lambda>w.
     rbind (PutLengthPrefixedSlice (wb_rep w @ [KeyType_code kTypeDeletion]) key) (\<lambda>rep.
       Inr (w\<lparr>wb_rep := rep\<rparr>))))))"

definition WriteBatch_Append :: "WriteBatch \<Rightarrow> WriteBatch \<Rightarrow> WriteBatch res" where
  "WriteBatch_Append that this = WriteBatchInternal_Append that this"

definition WriteBatch_EstimatedSize :: "WriteBatch \<Rightarrow> nat" where
  "WriteBatch_EstimatedSize w = length (wb_rep w)"

text \<open>
  The closure \<^verbatim>\<open>ProcessMemtableKey\<close> of \<^verbatim>\<open>InsertAll\<close>: it builds the memtable key of one
  update; \<open>number\<close> is already incremented. The user key and the value are handed over as C strings,
  \<^verbatim>\<open>user_key.data()\<close> and \<^verbatim>\<open>value.data()\<close>. An unknown type gives an empty slice.
\<close>

definition ProcessMemtableKey :: "byte \<Rightarrow> u64 \<Rightarrow> slice \<Rightarrow> (slice \<times> slice) res" where
  "ProcessMemtableKey key_type number entries =
     (if key_type = KeyType_code kTypeValue then
        rbind (GetLengthPrefixedSlice [] entries) (\<lambda>(user_key, entries).
        rbind (GetLengthPrefixedSlice [] entries) (\<lambda>(value, entries).
        rbind (Slice_cstr (string_data user_key)) (\<lambda>uk.
        rbind (Slice_cstr (string_data value)) (\<lambda>v.
        rbind (CreateMemtableKey uk number v kTypeValue) (\<lambda>k. Inr (k, entries))))))
      else if key_type = KeyType_code kTypeDeletion then
        rbind (GetLengthPrefixedSlice [] entries) (\<lambda>(user_key, entries).
        rbind (Slice_cstr (string_data user_key)) (\<lambda>uk.
        rbind (Slice_cstr (string_data [32])) (\<lambda>v.
        rbind (CreateMemtableKey uk number v kTypeDeletion) (\<lambda>k. Inr (k, entries)))))
      else Inr (Slice_default, entries))"

fun InsertAll_loop ::
  "nat \<Rightarrow> ('r \<Rightarrow> nat \<times> 'r) \<Rightarrow> u64 \<Rightarrow> slice \<Rightarrow> 'r \<Rightarrow> Memtable \<Rightarrow> ('r \<times> Memtable) res" where
  "InsertAll_loop 0 rand number entries r m = Inr (r, m)"
| "InsertAll_loop (Suc n) rand number entries r m =
     rbind (fetch (sl_mem entries)) (\<lambda>(key_type, _).
     rbind (Slice_Advance entries 1) (\<lambda>entries.
     let number = number + 1 in
     rbind (ProcessMemtableKey key_type number entries) (\<lambda>(memtable_key, entries).
     rbind (if sl_size memtable_key \<noteq> 0 then Memtable_Insert rand memtable_key r m else Inr (r, m))
       (\<lambda>(r, m). InsertAll_loop n rand number entries r m))))"

definition WriteBatch_InsertAll ::
  "('r \<Rightarrow> nat \<times> 'r) \<Rightarrow> WriteBatch \<Rightarrow> 'r \<Rightarrow> Memtable \<Rightarrow> ('r \<times> Memtable) res" where
  "WriteBatch_InsertAll rand w r m =
     rbind (WriteBatch_Count w) (\<lambda>count.
     rbind (WriteBatch_Sequence w) (\<lambda>number.
     rbind (Slice_Advance (Slice_string (wb_rep w)) kWriteBatchHeader) (\<lambda>entries.
       InsertAll_loop (nat count) rand number entries r m)))"

text \<open>The debugging loop that lists the updates of a batch.\<close>

fun Iterate_loop :: "nat \<Rightarrow> slice \<Rightarrow> (bytes \<times> bytes) list \<Rightarrow> (bytes \<times> bytes) list res" where
  "Iterate_loop 0 entries result = Inr result"
| "Iterate_loop (Suc n) entries result =
     rbind (fetch (sl_mem entries)) (\<lambda>(key_type, _).
     rbind (Slice_Advance entries 1) (\<lambda>entries.
       if key_type = KeyType_code kTypeValue then
         rbind (GetLengthPrefixedSlice [] entries) (\<lambda>(user_key, entries).
         rbind (GetLengthPrefixedSlice [] entries) (\<lambda>(value, entries).
           Iterate_loop n entries (result @ [(user_key, value)])))
       else if key_type = KeyType_code kTypeDeletion then
         rbind (GetLengthPrefixedSlice [] entries) (\<lambda>(user_key, entries).
           Iterate_loop n entries (result @ [(user_key, [])]))
       else Inr []))"

definition WriteBatch_Iterate :: "WriteBatch \<Rightarrow> (bytes \<times> bytes) list res" where
  "WriteBatch_Iterate w =
     rbind (WriteBatch_Count w) (\<lambda>count.
     rbind (WriteBatch_Sequence w) (\<lambda>number.
     rbind (Slice_Advance (Slice_string (wb_rep w)) kWriteBatchHeader) (\<lambda>entries.
       Iterate_loop (nat count) entries [])))"

section \<open>The updates of a batch\<close>

datatype update = UPut bytes bytes | UDelete bytes

fun update_bytes :: "update \<Rightarrow> bytes" where
  "update_bytes (UPut k v) = KeyType_code kTypeValue #
     EncodeVarint32 (word_of_nat (length k)) @ k @ EncodeVarint32 (word_of_nat (length v)) @ v"
| "update_bytes (UDelete k) = KeyType_code kTypeDeletion # EncodeVarint32 (word_of_nat (length k)) @ k"

fun update_fits :: "update \<Rightarrow> bool" where
  "update_fits (UPut k v) = mkey_fits k v"
| "update_fits (UDelete k) = mkey_fits k [32]"

text \<open>The batch with sequence number \<open>q\<close> that holds the updates \<open>us\<close>.\<close>

definition batch_bytes :: "u64 \<Rightarrow> update list \<Rightarrow> bytes" where
  "batch_bytes q us =
     EncodeFixed64 q @ EncodeFixed32 (word_of_nat (length us)) @ concat (map update_bytes us)"

definition batch_rep :: "WriteBatch \<Rightarrow> u64 \<Rightarrow> update list \<Rightarrow> bool" where
  "batch_rep w q us \<longleftrightarrow>
     wb_rep w = batch_bytes q us \<and> length us < 2 ^ 31 \<and> (\<forall>u\<in>set us. update_fits u) \<and>
     length (wb_rep w) < 2 ^ 64"

text \<open>
  The memtable entry an update becomes: key and value are cut at their first zero byte, and a
  deletion stores one blank as its value.
\<close>

abbreviation cut_at_zero :: "bytes \<Rightarrow> bytes" where
  "cut_at_zero s \<equiv> takeWhile (\<lambda>b. b \<noteq> 0) s"

fun update_entry :: "u64 \<Rightarrow> update \<Rightarrow> entry" where
  "update_entry q (UPut k v) = (cut_at_zero k, make_tag q kTypeValue, cut_at_zero v)"
| "update_entry q (UDelete k) = (cut_at_zero k, make_tag q kTypeDeletion, [32])"

fun apply_updates :: "u64 \<Rightarrow> update list \<Rightarrow> entry list \<Rightarrow> entry list" where
  "apply_updates q [] es = es"
| "apply_updates q (u # us) es =
     apply_updates (q + 1) us (insert_before entry_rank (update_entry (q + 1) u) es)"

section \<open>Building and replaying a batch\<close>

lemma update_bytes_Nil [simp]: "update_bytes u \<noteq> []"
  by (cases u) simp_all

lemma sint_word_of_nat_32: "n < 2 ^ 31 \<Longrightarrow> sint (word_of_nat n :: u32) = int n"
  by (simp add: signed_of_nat signed_take_bit_int_eq_self_iff)

lemma batch_Count: "batch_rep w q us \<Longrightarrow> WriteBatch_Count w = Inr (int (length us))"
  by (simp add: batch_rep_def WriteBatch_Count_def batch_bytes_def string_data_def
      DecodeFixed32_EncodeFixed32 sint_word_of_nat_32)

lemma batch_Sequence: "batch_rep w q us \<Longrightarrow> WriteBatch_Sequence w = Inr q"
  by (simp add: batch_rep_def WriteBatch_Sequence_def batch_bytes_def string_data_def
      DecodeFixed64_EncodeFixed64)

lemma batch_SetCount:
  "wb_rep w = batch_bytes q us \<Longrightarrow> WriteBatch_SetCount w n =
     Inr (w\<lparr>wb_rep := EncodeFixed64 q @ EncodeFixed32 (word_of_int n) @ concat (map update_bytes us)\<rparr>)"
  using overwrite_at [of "EncodeFixed32 (word_of_int n)" "EncodeFixed32 (word_of_nat (length us))" "EncodeFixed64 q"]
  by (simp add: WriteBatch_SetCount_def batch_bytes_def)

lemma int_add_ok: "n < 2 ^ 31 \<Longrightarrow> a + b = int n \<Longrightarrow> int_add a b = Inr (int n)"
  by (simp add: int_add_def)

lemma batch_header: "batch_rep w q us \<Longrightarrow> kWriteBatchHeader \<le> length (wb_rep w)"
  by (simp add: batch_rep_def batch_bytes_def kWriteBatchHeader_def)

lemma batch_bytes_Nil: "batch_bytes 0 [] = replicate 12 0"
  by (simp add: batch_bytes_def EncodeFixed64_def EncodeFixed32_def numeral_eq_Suc)

lemma batch_rep_make: "batch_rep WriteBatch_make 0 []"
  by (simp add: batch_rep_def batch_bytes_Nil WriteBatch_make_def WriteBatch_Clear_def kWriteBatchHeader_def)

lemma batch_rep_SetSequence:
  assumes "batch_rep w q us"
  shows "\<exists>w'. WriteBatch_SetSequence w s = Inr w' \<and> batch_rep w' s us"
  using assms overwrite_at [of "EncodeFixed64 s" "EncodeFixed64 q" "[]"]
  by (auto simp: batch_rep_def WriteBatch_SetSequence_def batch_bytes_def)

lemma batch_rep_Put:
  assumes rep: "batch_rep w q us" and ok: "slice_ok k" "slice_ok v"
    and fits: "update_fits (UPut (slice_content k) (slice_content v))"
    and room: "length us + 1 < 2 ^ 31" "length (wb_rep w) + sl_size k + sl_size v + 11 < 2 ^ 64"
  shows "\<exists>w'. WriteBatch_Put k v w = Inr w' \<and> batch_rep w' q (us @ [UPut (slice_content k) (slice_content v)])"
proof -
  let ?u = "UPut (slice_content k) (slice_content v)"
  have "length (update_bytes ?u) \<le> sl_size k + sl_size v + 11"
    using ok EncodeVarint32_le_5 [of "word_of_nat (sl_size k)"] EncodeVarint32_le_5 [of "word_of_nat (sl_size v)"]
    by simp
  then have "length (batch_bytes q (us @ [?u])) < 2 ^ 64"
    using rep room by (simp add: batch_rep_def batch_bytes_def)
  moreover have "int_add (int (length us)) 1 = Inr (int (length us + 1))"
    using room by (intro int_add_ok) simp_all
  moreover have "wb_rep w = batch_bytes q us" using rep by (simp add: batch_rep_def)
  ultimately show ?thesis
    using rep ok fits room batch_Count [OF rep] batch_header [OF rep]
    by (simp add: WriteBatch_Put_def batch_SetCount PutLengthPrefixedSlice_append)
       (simp add: batch_rep_def batch_bytes_def add.commute)
qed

lemma batch_rep_Delete:
  assumes rep: "batch_rep w q us" and ok: "slice_ok k" and fits: "update_fits (UDelete (slice_content k))"
    and room: "length us + 1 < 2 ^ 31" "length (wb_rep w) + sl_size k + 6 < 2 ^ 64"
  shows "\<exists>w'. WriteBatch_Delete k w = Inr w' \<and> batch_rep w' q (us @ [UDelete (slice_content k)])"
proof -
  let ?u = "UDelete (slice_content k)"
  have "length (update_bytes ?u) \<le> sl_size k + 6"
    using ok EncodeVarint32_le_5 [of "word_of_nat (sl_size k)"] by simp
  then have "length (batch_bytes q (us @ [?u])) < 2 ^ 64"
    using rep room by (simp add: batch_rep_def batch_bytes_def)
  moreover have "int_add (int (length us)) 1 = Inr (int (length us + 1))"
    using room by (intro int_add_ok) simp_all
  moreover have "wb_rep w = batch_bytes q us" using rep by (simp add: batch_rep_def)
  ultimately show ?thesis
    using rep ok fits room batch_Count [OF rep] batch_header [OF rep]
    by (simp add: WriteBatch_Delete_def batch_SetCount PutLengthPrefixedSlice_append)
       (simp add: batch_rep_def batch_bytes_def add.commute)
qed

lemma batch_rep_Append:
  assumes src: "batch_rep src p us" and dst: "batch_rep dst q vs"
    and room: "length us + length vs < 2 ^ 31" "length (wb_rep src) + length (wb_rep dst) < 2 ^ 64"
  shows "\<exists>w. WriteBatchInternal_Append src dst = Inr w \<and> batch_rep w q (vs @ us)"
proof -
  have "int_add (int (length us)) (int (length vs)) = Inr (int (length us + length vs))"
    using room by (intro int_add_ok) simp_all
  moreover have "wb_rep dst = batch_bytes q vs" using dst by (simp add: batch_rep_def)
  moreover have "drop kWriteBatchHeader (wb_rep src) = concat (map update_bytes us)"
    using src by (simp add: batch_rep_def batch_bytes_def kWriteBatchHeader_def)
  ultimately show ?thesis
    using batch_Count [OF src] batch_Count [OF dst] batch_header [OF src] room
    by (simp add: WriteBatchInternal_Append_def batch_SetCount)
       (use src dst in \<open>auto simp: batch_rep_def batch_bytes_def add.commute\<close>)
qed

lemma take_takeWhile: "take (length (takeWhile P xs)) xs = takeWhile P xs"
  by (induction xs) simp_all

lemma cut_at_zero_slice:
  assumes "length s < 2 ^ 64"
  shows "\<exists>t. Slice_cstr (string_data s) = Inr t \<and> slice_ok t \<and> slice_content t = cut_at_zero s"
proof -
  have l: "length (cut_at_zero s) \<le> length s" by (rule length_takeWhile_le)
  show ?thesis
    unfolding Slice_cstr_string
    using l assms by (simp add: take_takeWhile slice_ok_def slice_content_def string_data_def)
qed

lemma ProcessMemtableKey_update:
  assumes "update_fits u" "length (update_bytes u) \<le> Suc n" "n < 2 ^ 64"
  shows "\<exists>ty ent. update_bytes u = ty # ent \<and> length ent = length (update_bytes u) - 1 \<and> 
    ProcessMemtableKey ty q \<lparr>sl_mem = ent @ rest, sl_size = n\<rparr> =
      Inr (entry_key (update_entry q u), \<lparr>sl_mem = rest, sl_size = n - length ent\<rparr>) \<and> entry_fits (update_entry q u)"
proof (cases u)
  case (UPut k v)
  obtain sk where sk: "Slice_cstr (string_data k) = Inr sk" "slice_ok sk" "slice_content sk = cut_at_zero k"
    using cut_at_zero_slice [of k] assms(1) UPut by (auto simp: mkey_fits_def)
  obtain sv where sv: "Slice_cstr (string_data v) = Inr sv" "slice_ok sv" "slice_content sv = cut_at_zero v"
    using cut_at_zero_slice [of v] assms(1) UPut by (auto simp: mkey_fits_def)
  have "mkey_fits (cut_at_zero k) (cut_at_zero v)"
    using assms(1) UPut length_takeWhile_le [of "\<lambda>b. b \<noteq> 0" k] length_takeWhile_le [of "\<lambda>b. b \<noteq> 0" v]
    by (auto simp: mkey_fits_def)
  then show ?thesis
    using UPut sk sv assms by (simp add: ProcessMemtableKey_def GetLengthPrefixedSlice_prefix CreateMemtableKey_layout mkey_fits_def)
next
  case (UDelete k)
  obtain sk where sk: "Slice_cstr (string_data k) = Inr sk" "slice_ok sk" "slice_content sk = cut_at_zero k"
    using cut_at_zero_slice [of k] assms(1) UDelete by (auto simp: mkey_fits_def)
  obtain sv where sv: "Slice_cstr (string_data [32]) = Inr sv" "slice_ok sv" "slice_content sv = [32]"
    using cut_at_zero_slice [of "[32]"] by auto
  have "mkey_fits (cut_at_zero k) [32]"
    using assms(1) UDelete length_takeWhile_le [of "\<lambda>b. b \<noteq> 0" k] by (auto simp: mkey_fits_def)
  then show ?thesis
    using UDelete sk sv assms by (simp add: ProcessMemtableKey_def GetLengthPrefixedSlice_prefix CreateMemtableKey_layout mkey_fits_def)
qed

lemma entry_key_size [simp]: "0 < sl_size (entry_key e)"
  by (cases e) (simp add: mkey_slice_def Slice_buf_def)

text \<open>The bytes that an update adds to a memtable.\<close>

definition update_size :: "update \<Rightarrow> nat" where
  "update_size u = sl_size (entry_key (update_entry 0 u))"

lemma update_size_entry: "sl_size (entry_key (update_entry q u)) = update_size u"
  by (cases u) (simp_all add: update_size_def mkey_slice_def Slice_buf_def length_entry_bytes internal_bytes_def)

lemma InsertAll_loop_rep:
  "\<forall>u\<in>set us. update_fits u \<Longrightarrow> memtable_rep m es \<Longrightarrow> length (concat (map update_bytes us)) \<le> n \<Longrightarrow>
    n < 2 ^ 64 \<Longrightarrow>
    \<exists>r' m'. InsertAll_loop (length us) rand q \<lparr>sl_mem = concat (map update_bytes us) @ rest, sl_size = n\<rparr> r m
       = Inr (r', m') \<and> memtable_rep m' (apply_updates q us es) \<and>
       (mt_size m + (\<Sum>u\<leftarrow>us. update_size u) < 2 ^ 64 \<longrightarrow> mt_size m' = mt_size m + (\<Sum>u\<leftarrow>us. update_size u))"
proof (induction us arbitrary: q n r m es)
  case (Cons u us)
  obtain ty ent where ent: "update_bytes u = ty # ent"
    "\<And>rest. ProcessMemtableKey ty (q + 1) \<lparr>sl_mem = ent @ rest, sl_size = n - 1\<rparr> =
      Inr (entry_key (update_entry (q + 1) u), \<lparr>sl_mem = rest, sl_size = n - 1 - length ent\<rparr>)"
    "entry_fits (update_entry (q + 1) u)"
    using ProcessMemtableKey_update [of u "n - 1" "q + 1"] Cons.prems
    by (cases "update_bytes u") (auto simp: less_imp_diff_less)
  obtain r1 m1 where m1: "Memtable_Insert rand (entry_key (update_entry (q + 1) u)) r m = Inr (r1, m1)"
    "memtable_rep m1 (insert_before entry_rank (update_entry (q + 1) u) es)" "mt_size m1 = (mt_size m + update_size u) mod 2 ^ 64"
    using Memtable_Insert_rep [OF Cons.prems(2) ent(3), of rand r] by (auto simp: update_size_entry)
  have "length (concat (map update_bytes us)) \<le> n - 1 - length ent" "n - 1 - length ent < 2 ^ 64"
    using Cons.prems(3,4) ent(1) by simp_all
  then obtain r' m' where m': "InsertAll_loop (length us) rand (q + 1) \<lparr>sl_mem = concat (map update_bytes us) @ rest, sl_size = n - 1 - length ent\<rparr> r1 m1
       = Inr (r', m')" "memtable_rep m' (apply_updates (q + 1) us (insert_before entry_rank (update_entry (q + 1) u) es))"
    "mt_size m1 + (\<Sum>u\<leftarrow>us. update_size u) < 2 ^ 64 \<longrightarrow> mt_size m' = mt_size m1 + (\<Sum>u\<leftarrow>us. update_size u)"
    using Cons.IH [OF _ m1(2), of "n - 1 - length ent" "q + 1" r1] Cons.prems(1) by auto
  moreover have "mt_size m + (\<Sum>u\<leftarrow>u # us. update_size u) < 2 ^ 64 \<Longrightarrow> mt_size m1 = mt_size m + update_size u" using m1(3) by simp
  ultimately show ?case using ent m1(1,2) Cons.prems(3) by (intro exI [of _ r'] exI [of _ m']) (simp add: Slice_Advance_def Let_def)
qed simp

lemma batch_entries:
  assumes "batch_rep w q us"
  shows "Slice_Advance (Slice_string (wb_rep w)) kWriteBatchHeader =
      Inr \<lparr>sl_mem = concat (map update_bytes us) @ [0], sl_size = length (concat (map update_bytes us))\<rparr>"
    "\<forall>u\<in>set us. update_fits u" "length (concat (map update_bytes us)) < 2 ^ 64"
  using assms by (auto simp: Slice_Advance_def Slice_string_def string_data_def batch_rep_def batch_bytes_def kWriteBatchHeader_def)

lemma InsertAll_rep:
  assumes "batch_rep w q us" "memtable_rep m es"
  shows "\<exists>r' m'. WriteBatch_InsertAll rand w r m = Inr (r', m') \<and> memtable_rep m' (apply_updates q us es) \<and>
    (mt_size m + (\<Sum>u\<leftarrow>us. update_size u) < 2 ^ 64 \<longrightarrow> mt_size m' = mt_size m + (\<Sum>u\<leftarrow>us. update_size u))"
  using InsertAll_loop_rep [of us m es _ rand q "[0]" r] assms
    batch_Count [OF assms(1)] batch_Sequence [OF assms(1)] batch_entries [OF assms(1)]
  by (simp add: WriteBatch_InsertAll_def)

text \<open>The listing of a batch is the list of its updates, in order.\<close>

fun update_pair :: "update \<Rightarrow> bytes \<times> bytes" where
  "update_pair (UPut k v) = (k, v)"
| "update_pair (UDelete k) = (k, [])"

lemma Iterate_loop_updates:
  "\<forall>u\<in>set us. update_fits u \<Longrightarrow> length (concat (map update_bytes us)) \<le> n \<Longrightarrow> n < 2 ^ 64 \<Longrightarrow>
    Iterate_loop (length us) \<lparr>sl_mem = concat (map update_bytes us) @ rest, sl_size = n\<rparr> acc =
      Inr (acc @ map update_pair us)"
proof (induction us arbitrary: n acc)
  case (Cons u us)
  then show ?case
    by (cases u) (simp_all add: Slice_Advance_def GetLengthPrefixedSlice_prefix mkey_fits_def less_imp_diff_less)
qed simp

section \<open>What a reader sees of a batch\<close>

text \<open>The map from user keys to values that a reader with the largest sequence number sees.\<close>

definition max_seq :: u64 where
  "max_seq = drop_bit 8 (- 1)"

definition entries_map :: "entry list \<Rightarrow> bytes \<Rightarrow> bytes option" where
  "entries_map es uk = map_option entry_value (newest_upto es uk max_seq)"

fun update_map :: "update \<Rightarrow> (bytes \<Rightarrow> bytes option) \<Rightarrow> (bytes \<Rightarrow> bytes option)" where
  "update_map (UPut k v) m = m(cut_at_zero k \<mapsto> cut_at_zero v)"
| "update_map (UDelete k) m = m(cut_at_zero k \<mapsto> [32])"

text \<open>All sequence numbers are at most \<open>q\<close>, and no two entries have the same key and number.\<close>

definition entries_upto :: "entry list \<Rightarrow> u64 \<Rightarrow> bool" where
  "entries_upto es q \<longleftrightarrow> (\<forall>e\<in>set es. ik_seq (entry_rank e) \<le> q) \<and> distinct (map entry_rank es)"

lemma find_None_all: "\<forall>x\<in>set xs. \<not> P x \<Longrightarrow> List.find P xs = None"
  by (induction xs) auto

lemma newest_upto_insert:
  assumes new: "\<forall>e\<in>set es. ik_seq (entry_rank e) < drop_bit 8 t" and q: "drop_bit 8 t \<le> q"
  shows "newest_upto (insert_before entry_rank (u, t, v) es) uk q =
    (if uk = u then Some (u, t, v) else newest_upto es uk q)"
proof -
  let ?P = "\<lambda>(u, t, v). u = uk \<and> drop_bit 8 t \<le> q"
  let ?a = "takeWhile (\<lambda>x. entry_rank x < entry_rank (u, t, v)) es"
  let ?b = "dropWhile (\<lambda>x. entry_rank x < entry_rank (u, t, v)) es"
  have eq: "List.find ?P (insert_before entry_rank (u, t, v) es) =
      (case List.find ?P ?a of None \<Rightarrow> List.find ?P ((u, t, v) # ?b) | Some x \<Rightarrow> Some x)"
    unfolding insert_before_def find_append by (rule refl)
  show ?thesis
  proof (cases "uk = u")
    case True
    have "\<not> ?P e" if "e \<in> set ?a" for e
    proof -
      have "entry_rank e < IKey u (drop_bit 8 t)" "ik_seq (entry_rank e) < drop_bit 8 t"
        using set_takeWhileD [OF that] new by auto
      then show ?thesis using True by (cases e) (auto simp: less_ikey_def)
    qed
    then have "List.find ?P ?a = None" by (intro find_None_all) blast
    then show ?thesis using True q eq by (simp add: newest_upto_def)
  next
    case False
    then have skip: "List.find ?P ((u, t, v) # ?b) = List.find ?P ?b" by simp
    have "List.find ?P (insert_before entry_rank (u, t, v) es) = List.find ?P (?a @ ?b)"
      unfolding eq find_append skip by (rule refl)
    then show ?thesis using False by (simp add: newest_upto_def)
  qed
qed

lemma distinct_insert_before:
  "distinct (map f (insert_before r e es)) \<longleftrightarrow> f e \<notin> f ` set es \<and> distinct (map f es)"
proof -
  define a b where "a = takeWhile (\<lambda>x. r x < r e) es" "b = dropWhile (\<lambda>x. r x < r e) es"
  then have "es = a @ b" "insert_before r e es = a @ e # b"
    by (simp_all add: insert_before_def)
  then show ?thesis by auto
qed

lemma seq_step:
  assumes "unat q + 1 < 2 ^ 56"
  shows "drop_bit 8 (make_tag (q + 1) ty) = q + 1" "q < q + 1" "q + 1 \<le> max_seq" "unat (q + 1) = unat q + 1"
proof -
  have u: "unat (q + 1) = unat q + 1" using assms by (simp add: unat_word_ariths)
  have "unat (take_bit 56 (q + 1)) = unat (q + 1)"
    using assms u by (simp add: unsigned_take_bit_eq take_bit_nat_eq_self)
  then show "drop_bit 8 (make_tag (q + 1) ty) = q + 1" by (simp add: make_tag_seq word_unat_eq_iff)
  show "q < q + 1" using u by (simp add: word_less_nat_alt)
  have "unat max_seq = 2 ^ 56 - 1" by (simp add: max_seq_def unat_drop_bit_div unsigned_minus_1_eq_mask mask_eq_exp_minus_1)
  then show "q + 1 \<le> max_seq" using u assms by (simp add: word_le_nat_alt)
  show "unat (q + 1) = unat q + 1" by (rule u)
qed

lemma apply_update_upto:
  assumes es: "entries_upto es q" and q: "unat q + 1 < 2 ^ 56"
  shows "entries_upto (insert_before entry_rank (update_entry (q + 1) u) es) (q + 1)"
    "entries_map (insert_before entry_rank (update_entry (q + 1) u) es) = update_map u (entries_map es)"
proof -
  have old: "\<forall>e\<in>set es. ik_seq (entry_rank e) < q + 1"
    using es seq_step(2) [OF q] by (auto simp: entries_upto_def intro: le_less_trans)
  obtain k ty v where u: "update_entry (q + 1) u = (k, make_tag (q + 1) ty, v)"
    by (cases u) simp_all
  have r: "entry_rank (k, make_tag (q + 1) ty, v) = IKey k (q + 1)"
    using seq_step(1) [OF q] by simp
  then have "entry_rank (k, make_tag (q + 1) ty, v) \<notin> entry_rank ` set es"
    using old by (metis ikey.sel(2) imageE less_irrefl)
  then show "entries_upto (insert_before entry_rank (update_entry (q + 1) u) es) (q + 1)"
    using es old r unfolding u by (auto simp: entries_upto_def distinct_insert_before intro: less_imp_le)
  have "newest_upto (insert_before entry_rank (k, make_tag (q + 1) ty, v) es) uk max_seq =
      (if uk = k then Some (k, make_tag (q + 1) ty, v) else newest_upto es uk max_seq)" for uk
    using old seq_step [OF q] by (intro newest_upto_insert) simp_all
  then have "entries_map (insert_before entry_rank (update_entry (q + 1) u) es) = (entries_map es)(k \<mapsto> v)"
    unfolding u by (auto simp: entries_map_def fun_eq_iff)
  then show "entries_map (insert_before entry_rank (update_entry (q + 1) u) es) = update_map u (entries_map es)"
    using u by (cases u) auto
qed

lemma apply_updates_upto:
  "entries_upto es q \<Longrightarrow> unat q + length us < 2 ^ 56 \<Longrightarrow>
     entries_upto (apply_updates q us es) (q + word_of_nat (length us)) \<and>
     entries_map (apply_updates q us es) = fold update_map us (entries_map es)"
proof (induction us arbitrary: q es)
  case (Cons u us)
  have q: "unat q + 1 < 2 ^ 56" using Cons.prems by simp
  then show ?case
    using Cons.IH [of "insert_before entry_rank (update_entry (q + 1) u) es" "q + 1"] apply_update_upto [OF Cons.prems(1) q, of u]
      seq_step(4) [OF q] Cons.prems by (simp add: add.assoc)
qed simp

lemma Iterate_updates:
  assumes "batch_rep w q us"
  shows "WriteBatch_Iterate w = Inr (map update_pair us)"
  using batch_entries [OF assms] batch_Count [OF assms] batch_Sequence [OF assms]
  by (simp add: WriteBatch_Iterate_def Iterate_loop_updates)

text \<open>A lookup with the largest sequence number reads the map.\<close>

lemma Memtable_Get_map:
  assumes "memtable_rep m es" "entries_upto es q" "mkey_fits uk v0"
  shows "Memtable_Get (mkey_slice uk (make_tag (- 1) ty) v0) m = Inr (entries_map es uk)"
proof -
  have "drop_bit 8 (make_tag (- 1) ty) = max_seq"
    unfolding make_tag_seq max_seq_def by (rule bit_word_eqI) (auto simp: bit_simps)
  then show ?thesis
    using assms Memtable_Get_newest [of m es uk v0 "make_tag (- 1) ty"]
    by (simp add: entries_upto_def entries_map_def)
qed

lemma InsertAll_map:
  assumes w: "batch_rep w q us" and m: "memtable_rep m es" and es: "entries_upto es q"
    and q: "unat q + length us < 2 ^ 56"
  obtains r' m' es' where "WriteBatch_InsertAll rand w r m = Inr (r', m')" "memtable_rep m' es'"
    "entries_upto es' (q + word_of_nat (length us))" "entries_map es' = fold update_map us (entries_map es)"
  using InsertAll_rep [OF w m, of rand r] apply_updates_upto [OF es q] by blast

lemma cut_at_zero_id [simp]: "0 \<notin> set s \<Longrightarrow> cut_at_zero s = s"
  by (induction s) auto

lemma InsertAll_fresh:
  assumes w: "batch_rep \<lparr>wb_rep = batch_bytes 0 us\<rparr> 0 us"
  obtains r' m' where "WriteBatch_InsertAll rand \<lparr>wb_rep = batch_bytes 0 us\<rparr> r (Memtable_make junk) = Inr (r', m')"
    "\<And>uk ty. mkey_fits uk [] \<Longrightarrow>
       Memtable_Get (mkey_slice uk (make_tag (- 1) ty) []) m' = Inr (fold update_map us Map.empty uk)"
proof -
  have e: "entries_upto [] 0" "unat (0::u64) + length us < 2 ^ 56"
    using w by (simp_all add: entries_upto_def batch_rep_def)
  have empty: "entries_map [] = Map.empty" by (simp add: entries_map_def fun_eq_iff)
  show thesis
    by (rule InsertAll_map [OF w Memtable_make_rep e]) (rule that, assumption, simp add: Memtable_Get_map empty)
qed

section \<open>Properties\<close>

text \<open>\<^verbatim>\<open>Put\<close> and \<^verbatim>\<open>Delete\<close> append their update to the batch and raise its count by one; the sequence
  number stays.\<close>

theorem WriteBatch_updates:
  assumes "batch_rep w q us" "slice_ok k" "slice_ok v" "mkey_fits (slice_content k) (slice_content v)"
    and "length us + 1 < 2 ^ 31" "length (wb_rep w) + sl_size k + sl_size v + 11 < 2 ^ 64"
  shows "(\<exists>w'. WriteBatch_Put k v w = Inr w' \<and> batch_rep w' q (us @ [UPut (slice_content k) (slice_content v)]) \<and>
      WriteBatch_Count w' = Inr (int (length us) + 1) \<and> WriteBatch_Sequence w' = Inr q) \<and>
    (\<exists>w'. WriteBatch_Delete k w = Inr w' \<and> batch_rep w' q (us @ [UDelete (slice_content k)]) \<and>
      WriteBatch_Count w' = Inr (int (length us) + 1) \<and> WriteBatch_Sequence w' = Inr q)"
proof -
  have "update_fits (UDelete (slice_content k))" using assms(4) by (simp add: mkey_fits_def)
  then show ?thesis
    using batch_rep_Put [OF assms(1-3) _ assms(5,6)] batch_rep_Delete [OF assms(1,2) _ assms(5)] assms(4,6)
    by (fastforce simp: batch_Count batch_Sequence)
qed

theorem WriteBatch_updates_witness:
  "(\<exists>w'. WriteBatch_Put (Slice_string [97]) (Slice_string [98]) WriteBatch_make = Inr w' \<and>
      batch_rep w' 0 ([] @ [UPut (slice_content (Slice_string [97])) (slice_content (Slice_string [98]))]) \<and>
      WriteBatch_Count w' = Inr (int (length ([] :: update list)) + 1) \<and> WriteBatch_Sequence w' = Inr 0) \<and>
    (\<exists>w'. WriteBatch_Delete (Slice_string [97]) WriteBatch_make = Inr w' \<and>
      batch_rep w' 0 ([] @ [UDelete (slice_content (Slice_string [97]))]) \<and>
      WriteBatch_Count w' = Inr (int (length ([] :: update list)) + 1) \<and> WriteBatch_Sequence w' = Inr 0)"
  by (rule WriteBatch_updates)
     (simp_all only: batch_rep_make, simp_all add: mkey_fits_def WriteBatch_make_def WriteBatch_Clear_def kWriteBatchHeader_def)

text \<open>\<^verbatim>\<open>WriteBatchInternal::Append(src, dst)\<close> adds the updates of the source after those of the
  destination, with the summed count, and keeps the destination's sequence number.\<close>

theorem WriteBatch_append_updates:
  assumes "batch_rep src p us" "batch_rep dst q vs"
    "length us + length vs < 2 ^ 31" "length (wb_rep src) + length (wb_rep dst) < 2 ^ 64"
  shows "\<exists>w. WriteBatchInternal_Append src dst = Inr w \<and> batch_rep w q (vs @ us) \<and>
    WriteBatch_Iterate w = Inr (map update_pair vs @ map update_pair us)"
  using batch_rep_Append [OF assms] Iterate_updates by fastforce

theorem WriteBatch_append_updates_witness:
  "\<exists>w. WriteBatchInternal_Append \<lparr>wb_rep = batch_bytes 4 [UPut [97] [98]]\<rparr> \<lparr>wb_rep = batch_bytes 7 [UDelete [99]]\<rparr> = Inr w \<and>
    batch_rep w 7 ([UDelete [99]] @ [UPut [97] [98]]) \<and>
    WriteBatch_Iterate w = Inr (map update_pair [UDelete [99]] @ map update_pair [UPut [97] [98]])"
  by (rule WriteBatch_append_updates [where p = 4])
     (simp_all add: batch_rep_def batch_bytes_def mkey_fits_def EncodeVarint32.simps)

text \<open>C26: \<^verbatim>\<open>InsertAll\<close> replays a batch into a memtable: it returns, the entries get the sequence
  numbers after the batch's own, and a later lookup with the largest sequence number sees the map
  the memtable held before, changed by the updates of the batch in their order.\<close>

theorem InsertAll_refines_map:
  assumes "batch_rep w q us" "memtable_rep m es" "entries_upto es q"
    "unat q + length us < 2 ^ 56" "mkey_fits uk []"
  shows "\<exists>r' m' es'. WriteBatch_InsertAll rand w r m = Inr (r', m') \<and> memtable_rep m' es' \<and>
    entries_upto es' (q + word_of_nat (length us)) \<and>
    entries_map es' = fold update_map us (entries_map es) \<and>
    Memtable_Get (mkey_slice uk (make_tag (- 1) kTypeSeek) []) m' = Inr (fold update_map us (entries_map es) uk)"
proof -
  obtain r' m' es' where m': "WriteBatch_InsertAll rand w r m = Inr (r', m')" "memtable_rep m' es'"
    "entries_upto es' (q + word_of_nat (length us))" "entries_map es' = fold update_map us (entries_map es)"
    by (rule InsertAll_map [OF assms(1-4)])
  then show ?thesis using Memtable_Get_map [OF m'(2,3) assms(5)] by auto
qed

theorem InsertAll_refines_map_witness:
  "\<exists>r' m' es'. WriteBatch_InsertAll (\<lambda>n. (n, n + 1)) \<lparr>wb_rep = batch_bytes 4 [UPut [97] [98], UPut [97] [99]]\<rparr> (0::nat)
      (Memtable_make 0) = Inr (r', m') \<and> memtable_rep m' es' \<and>
    entries_upto es' (4 + word_of_nat (length [UPut [97] [98], UPut [97] [99]])) \<and>
    entries_map es' = fold update_map [UPut [97] [98], UPut [97] [99]] (entries_map []) \<and>
    Memtable_Get (mkey_slice [97] (make_tag (- 1) kTypeSeek) []) m' =
      Inr (fold update_map [UPut [97] [98], UPut [97] [99]] (entries_map []) [97])"
  by (rule InsertAll_refines_map)
     (simp_all add: batch_rep_def batch_bytes_def mkey_fits_def EncodeVarint32.simps Memtable_make_rep entries_upto_def)

text \<open>C31: a deletion is not seen as one: after a batch that puts a key and then deletes it, the
  memtable still answers a lookup of the key, with a value of one blank.\<close>

theorem deleted_key_found:
  assumes "0 \<notin> set k" "mkey_fits k v" "length v < 2 ^ 32"
  shows "\<exists>r' m'. WriteBatch_InsertAll rand \<lparr>wb_rep = batch_bytes 0 [UPut k v, UDelete k]\<rparr> r (Memtable_make junk) = Inr (r', m') \<and>
    Memtable_Get (mkey_slice k (make_tag (- 1) kTypeSeek) []) m' = Inr (Some [32])"
proof -
  let ?us = "[UPut k v, UDelete k]"
  have k: "mkey_fits k []" "mkey_fits k [32]" using assms(2) by (simp_all add: mkey_fits_def)
  have "length (batch_bytes 0 ?us) \<le> 2 * length k + length v + 30"
    using EncodeVarint32_le_5 [of "word_of_nat (length k)"] EncodeVarint32_le_5 [of "word_of_nat (length v)"]
    by (simp add: batch_bytes_def)
  then have w: "batch_rep \<lparr>wb_rep = batch_bytes 0 ?us\<rparr> 0 ?us"
    using assms k by (simp add: batch_rep_def mkey_fits_def)
  show ?thesis
    by (rule InsertAll_fresh [OF w, of rand r junk]) (use assms(1) k in auto)
qed

theorem deleted_key_found_witness:
  "\<exists>r' m'. WriteBatch_InsertAll (\<lambda>n. (n, n + 1)) \<lparr>wb_rep = batch_bytes 0 [UPut [97] [98], UDelete [97]]\<rparr> (0::nat)
      (Memtable_make 0) = Inr (r', m') \<and>
    Memtable_Get (mkey_slice [97] (make_tag (- 1) kTypeSeek) []) m' = Inr (Some [32])"
  by (rule deleted_key_found) (simp_all add: mkey_fits_def)

text \<open>C32: a key is cut at its first zero byte on its way into the memtable: a value put under a key
  with a zero byte is found under the part of the key before it.\<close>

theorem binary_key_cut:
  assumes "mkey_fits (k @ 0 # k') v" "0 \<notin> set k" "0 \<notin> set v"
  shows "\<exists>r' m'. WriteBatch_InsertAll rand \<lparr>wb_rep = batch_bytes 0 [UPut (k @ 0 # k') v]\<rparr> r (Memtable_make junk) = Inr (r', m') \<and>
    Memtable_Get (mkey_slice k (make_tag (- 1) kTypeSeek) []) m' = Inr (Some v) \<and>
    Memtable_Get (mkey_slice (k @ 0 # k') (make_tag (- 1) kTypeSeek) []) m' = Inr None"
proof -
  let ?k = "k @ 0 # k'" and ?us = "[UPut (k @ 0 # k') v]"
  have k: "mkey_fits k []" "mkey_fits ?k []" using assms(1) by (simp_all add: mkey_fits_def)
  have "length (batch_bytes 0 ?us) \<le> length ?k + length v + 30"
    using EncodeVarint32_le_5 [of "word_of_nat (length ?k)"] EncodeVarint32_le_5 [of "word_of_nat (length v)"]
    by (simp add: batch_bytes_def)
  then have w: "batch_rep \<lparr>wb_rep = batch_bytes 0 ?us\<rparr> 0 ?us"
    using assms k by (simp add: batch_rep_def mkey_fits_def)
  show ?thesis
    by (rule InsertAll_fresh [OF w, of rand r junk]) (use assms(2,3) k in auto)
qed

theorem binary_key_cut_witness:
  "\<exists>r' m'. WriteBatch_InsertAll (\<lambda>n. (n, n + 1)) \<lparr>wb_rep = batch_bytes 0 [UPut ([97] @ 0 # [98]) [99]]\<rparr> (0::nat)
      (Memtable_make 0) = Inr (r', m') \<and>
    Memtable_Get (mkey_slice [97] (make_tag (- 1) kTypeSeek) []) m' = Inr (Some [99]) \<and>
    Memtable_Get (mkey_slice ([97] @ 0 # [98]) (make_tag (- 1) kTypeSeek) []) m' = Inr None"
  by (rule binary_key_cut) (simp_all add: mkey_fits_def)

end
