(* ===== verification/BuildTables.thy ===== *)
theory BuildTables
  imports SSTables WriteBatches
begin

text \<open>
  \<^verbatim>\<open>BuildTable\<close> (\<^verbatim>\<open>disk/builder.h\<close>, \<^verbatim>\<open>disk/builder.cc\<close>), \<^verbatim>\<open>Remove\<close> (\<^verbatim>\<open>util/util.cc\<close>) and
  \<^verbatim>\<open>PrintFileMeta\<close> (\<^verbatim>\<open>disk/sstable.cc\<close>): a memtable is written to a new table file.
\<close>

definition Remove :: "'w posix \<Rightarrow> bytes \<Rightarrow> 'w \<Rightarrow> 'w" where
  "Remove os file_name w = sys_unlink os file_name w"

text \<open>
  The log lines are left out; what remains are the reads of the two keys, which a key of fewer than
  eight bytes makes go wrong.
\<close>

definition PrintFileMeta :: "FileMeta \<Rightarrow> unit res" where
  "PrintFileMeta meta =
     rbind (ExtractUserKey (InternalKey_ToSlice (fm_smallest_key meta))) (\<lambda>(user_key1, s1).
     rbind (ExtractUserKey (InternalKey_ToSlice (fm_largest_key meta))) (\<lambda>(user_key2, s2).
     rbind (read_mem (sl_mem user_key1) (sl_size user_key1)) (\<lambda>_.
     rbind (read_mem (sl_mem user_key2) (sl_size user_key2)) (\<lambda>_. Inr ()))))"

text \<open>The loop over the entries; it returns the builder and the largest key. Each round visits a node of the skip list.\<close>

fun BuildTable_loop ::
  "nat \<Rightarrow> 'w posix \<Rightarrow> Memtable \<Rightarrow> nat option \<Rightarrow> TableBuilder \<Rightarrow> InternalKey \<Rightarrow> 'w \<Rightarrow>
     (TableBuilder \<times> InternalKey \<times> 'w) res" where
  "BuildTable_loop fuel os m iter builder largest w =
     (if MemtableIterator_Valid iter then
        rbind (MemtableIterator_Key m iter) (\<lambda>internal_key.
        rbind (MemtableIterator_Value m iter) (\<lambda>value.
        rbind (TableBuilder_Add os InternalKeyComparator_Compare internal_key value builder w) (\<lambda>(builder, w).
        rbind (TransToInternalKey internal_key) (\<lambda>largest.
        rbind (MemtableIterator_Next m iter) (\<lambda>iter.
          case fuel of 0 \<Rightarrow> Inl Diverged
          | Suc fuel \<Rightarrow> BuildTable_loop fuel os m iter builder largest w)))))
      else Inr (builder, largest, w))"

declare BuildTable_loop.simps [simp del]

text \<open>\<open>buf\<close> is what the buffer of the new file object holds at first, which is not initialised.\<close>

definition BuildTable ::
  "'w posix \<Rightarrow> bytes \<Rightarrow> bytes \<Rightarrow> FileMeta \<Rightarrow> Memtable \<Rightarrow> nat option \<Rightarrow> 'w \<Rightarrow> (Status \<times> FileMeta \<times> 'w) res" where
  "BuildTable os buf file_name file_meta m iter w =
     rbind (MemtableIterator_SeekToFirst iter) (\<lambda>_.
     if \<not> MemtableIterator_Valid iter then Inr (Status_OK, file_meta, w)
     else
       let (fd, w) = sys_open_write os file_name w in
       if fd = -1 then
         rbind (Status_IOError (Slice_string (ascii ''open file error, check the file name'')) Slice_default) (\<lambda>s.
           Inr (s, file_meta, w))
       else
         rbind (MemtableIterator_Key m iter) (\<lambda>internal_key.
         rbind (TransToInternalKey internal_key) (\<lambda>smallest.
         let file_meta = file_meta\<lparr>fm_smallest_key := smallest\<rparr> in
         rbind (BuildTable_loop (length (sk_nodes (mt_table m))) os m iter
                  (TableBuilder_make (WritableFile_make fd file_name buf)) (fm_largest_key file_meta) w)
           (\<lambda>(builder, largest, w).
         let file_meta = file_meta\<lparr>fm_largest_key := largest\<rparr> in
         rbind (TableBuilder_Finish os InternalKeyComparator_Compare builder w) (\<lambda>(s, builder, w).
           if \<not> Status_ok s then Inr (s, file_meta, Remove os file_name w)
           else
             let file_meta = file_meta\<lparr>fm_file_size := TableBuilder_FileSize builder\<rparr> in
             rbind (PrintFileMeta file_meta) (\<lambda>_. Inr (Status_OK, file_meta, w)))))))"

section \<open>Iterating over a memtable\<close>

text \<open>The iterator that has the entries \<open>es\<close> still to visit.\<close>

definition mem_iter_at :: "Memtable \<Rightarrow> entry list \<Rightarrow> nat option \<Rightarrow> bool" where
  "mem_iter_at m es it \<longleftrightarrow>
     (\<exists>ys zs. sk_addrs (mt_table m) = ys @ zs \<and> it = iter_at zs \<and> map (key_at (mt_table m)) zs = map entry_key es)"

lemma mem_iter_make:
  assumes "memtable_rep m es"
  shows "\<exists>it. MemtableIterator_make m = Inr it \<and> mem_iter_at m es it"
  using assms Iterator_make_at [of valid_mkey mkey_rank "mt_table m"]
  by (force simp: memtable_rep_def mem_iter_at_def MemtableIterator_make_def sk_keys_def)

lemma mem_iter_Valid: "mem_iter_at m es it \<Longrightarrow> MemtableIterator_Valid it \<longleftrightarrow> es \<noteq> []"
  by (cases es) (auto simp: mem_iter_at_def MemtableIterator_Valid_def SkipList_Iterator_Valid_def iter_at_def map_eq_Cons_conv)

text \<open>The table entry of a memtable entry.\<close>

fun entry_kv :: "entry \<Rightarrow> kv" where
  "entry_kv (uk, tag, v) = (internal_bytes uk tag, v)"

lemma MemtableIterator_Value_mkey:
  assumes "mkey_fits uk v"
  shows "rbind (GetVarint32 (mkey_slice uk tag v)) (\<lambda>(internal_key_len, memtable_key).
     rbind (Slice_Advance memtable_key (unat internal_key_len)) (\<lambda>memtable_key.
     rbind (GetVarint32 memtable_key) (\<lambda>(value_len, memtable_key).
       Inr (Slice_buf (sl_mem memtable_key) (unat value_len))))) = Inr (Slice_buf v (length v))"
proof -
  define ik where "ik = internal_bytes uk tag"
  have b: "length ik < 2 ^ 32" "length v < 2 ^ 32" "length (entry_bytes ik v) < 2 ^ 64"
    using mkey_fitsD [OF assms] by (simp_all only: ik_def)
  have a: "unat (word_of_nat (length ik) :: u32) = length ik" "unat (word_of_nat (length v) :: u32) = length v"
    by (rule unat_word_of_nat_32 [OF b(1)], rule unat_word_of_nat_32 [OF b(2)])
  note rd = GetVarint32_entry [of ik v _ "[]", simplified] GetVarint32_value [of v _ "[]", simplified]
  show ?thesis
    unfolding mkey_slice_def Slice_buf_def ik_def [symmetric]
    using b by (simp add: rd a Slice_Advance_prefix length_entry_bytes)
qed

lemma mem_iter_step:
  assumes rep: "memtable_rep m all" and it: "mem_iter_at m (e # es) it" and fits: "entry_fits e"
  obtains k v it' where "MemtableIterator_Key m it = Inr k" "MemtableIterator_Value m it = Inr v"
    "MemtableIterator_Next m it = Inr it'" "mem_iter_at m es it'"
    "valid_bkey k" "ikey_rank k = entry_rank e" "slice_content k = fst (entry_kv e)"
    "slice_ok v" "slice_content v = snd (entry_kv e)"
proof -
  obtain uk tag val where e: "e = (uk, tag, val)" by (cases e)
  obtain ys q zs where a: "sk_addrs (mt_table m) = ys @ q # zs" "it = iter_at (q # zs)"
    "key_at (mt_table m) q = mkey_slice uk tag val" "map (key_at (mt_table m)) zs = map entry_key es"
    using it e by (force simp: mem_iter_at_def map_eq_Cons_conv)
  have ok: "sk_ok valid_mkey mkey_rank (mt_table m)" using rep by (simp add: memtable_rep_def)
  have key: "SkipList_Iterator_Key (mt_table m) it = Inr (mkey_slice uk tag val)"
    using Iterator_Key_at [OF ok, of q zs] a by simp
  have nxt: "SkipList_Iterator_Next (mt_table m) it = Inr (iter_at zs)"
    using Iterator_Next_at [OF ok a(1)] a(2) by simp
  have f: "mkey_fits uk val" using fits e by simp
  let ?k = "Slice_buf (internal_bytes uk tag @ EncodeVarint32 (word_of_nat (length val)) @ val) (length uk + 8)"
  have k: "MemtableIterator_Key m it = Inr ?k" by (simp add: MemtableIterator_Key_def key ExtractInternalKey_mkey f)
  have v: "MemtableIterator_Value m it = Inr (Slice_buf val (length val))"
    by (simp add: MemtableIterator_Value_def key MemtableIterator_Value_mkey f)
  have ik: "internal_ikey ?k = Inr (IKey uk (drop_bit 8 tag))"
    using f by (intro internal_ikey_bytes) (simp_all add: Slice_buf_def mkey_fits_def)
  show thesis
  proof (rule that [OF k v])
    show "MemtableIterator_Next m it = Inr (iter_at zs)" by (simp add: MemtableIterator_Next_def nxt)
    show "mem_iter_at m es (iter_at zs)"
      unfolding mem_iter_at_def by (rule exI [of _ "ys @ [q]"], rule exI [of _ zs]) (simp add: a)
  qed (use ik f e in \<open>simp_all add: valid_bkey_def valid_ikey_def ikey_rank_def slice_ok_def Slice_buf_def
      slice_content_def mkey_fits_def internal_bytes_def\<close>)
qed

section \<open>Keys in ascending order\<close>

lemma Slice_Compare_cong:
  assumes "slice_ok a" "slice_ok b" "slice_content a = slice_content b"
  shows "Slice_Compare a s = Slice_Compare b s"
proof -
  have n: "sl_size a = sl_size b" using assms by (metis length_slice_content)
  have "take m (sl_mem a) = take m (sl_mem b)" if "m \<le> sl_size b" for m
    using that assms(3) n by (metis min.absorb1 slice_content_def take_take)
  then have "memcmp (sl_mem a) (sl_mem s) m = memcmp (sl_mem b) (sl_mem s) m" if "m \<le> sl_size b" for m
    using that assms(1,2) n by (simp add: memcmp_def read_mem_def slice_ok_def)
  then show ?thesis unfolding Slice_Compare_def Let_def n by simp
qed

lemma icmp_content:
  assumes "valid_bkey key"
  shows "icmp (Slice_string (slice_content key)) s = icmp key s"
proof -
  let ?k = "Slice_string (slice_content key)"
  have eq: "internal_ikey ?k = internal_ikey key" by (rule internal_ikey_string [OF assms])
  obtain x where "internal_ikey key = Inr x" using assms by (auto simp: valid_bkey_def valid_ikey_def not_isl_Inr)
  then obtain u v q where uv: "ExtractUserKey key = Inr (u, q)" "slice_ok u" "ExtractUserKey ?k = Inr (v, q)" "slice_ok v"
    "slice_content u = slice_content v"
    using eq by (fastforce simp: internal_ikey_def split: if_splits)
  then show ?thesis
    using Slice_Compare_cong [OF uv(4,2)] by (simp add: InternalKeyComparator_Compare_def)
qed

lemma entries_ikeys_ok:
  assumes "sorted (map entry_rank es)" "distinct (map entry_rank es)" "\<forall>e\<in>set es. entry_fits e"
  shows "ikeys_ok (map entry_kv es)"
proof -
  have k: "valid_bkey (Slice_string (fst (entry_kv e)))" "ikey_rank (Slice_string (fst (entry_kv e))) = entry_rank e"
    if "entry_fits e" for e
    using that by (cases e; simp add: internal_bytes_key mkey_fits_def)+
  have r: "map (\<lambda>e. ikey_rank (Slice_string (fst e))) (map entry_kv es) = map entry_rank es"
    using assms(3) k(2) by simp
  show ?thesis
    using assms k(1) unfolding ikeys_ok_def r strict_sorted_iff by simp
qed

text \<open>
  The check against the cut last key passes for ascending keys whose part before the first zero byte
  has at least eight bytes, as long as the sequence number leaves a zero byte in the tag: the cut key
  then reads as a key with a proper prefix of the user key.
\<close>

lemma take_less: "n < length xs \<Longrightarrow> take n xs < xs"
  for xs :: "'a::linorder list"
proof (induction xs arbitrary: n)
  case (Cons x xs)
  then show ?case by (cases n) auto
qed simp

lemma DecodeFixed64_total: "8 \<le> length d \<Longrightarrow> \<exists>q. DecodeFixed64 d = Inr q"
  by (simp add: DecodeFixed64_def read_mem_def)

lemma cut_check_long:
  assumes key: "valid_bkey key" and u: "uk \<le> ik_user (ikey_rank key)" and len: "length uk + 8 < 2 ^ 64"
    and c: "8 \<le> length (cut_at_zero (internal_bytes uk tag))" "0 \<in> set (internal_bytes uk tag)"
  shows "cut_check (internal_bytes uk tag) key"
proof -
  let ?l = "internal_bytes uk tag" and ?n = "length (cut_at_zero (internal_bytes uk tag))"
  let ?s = "\<lparr>sl_mem = string_data ?l, sl_size = ?n\<rparr>"
  have "dropWhile (\<lambda>b. b \<noteq> 0) ?l \<noteq> []" using c(2) by (auto simp: dropWhile_eq_Nil_conv)
  moreover have "length ?l = ?n + length (dropWhile (\<lambda>b. b \<noteq> 0) ?l)"
    unfolding length_append [symmetric] by simp
  ultimately have n: "?n < length uk + 8" by simp
  have "8 \<le> length (drop (?n - 8) (string_data ?l))" using c(1) n by (simp add: string_data_def)
  then obtain q where "DecodeFixed64 (drop (?n - 8) (string_data ?l)) = Inr q" using DecodeFixed64_total by blast
  moreover have "take (?n - 8) (string_data ?l) = take (?n - 8) uk"
    using n c(1) by (simp add: string_data_def internal_bytes_def)
  moreover have "?n - 8 \<le> length uk" "?n - 8 < 2 ^ 64" using n len by linarith+
  ultimately have s: "internal_ikey ?s = Inr (IKey (take (?n - 8) uk) (drop_bit 8 q))"
    using c(1) n by (simp add: internal_ikey_def ExtractUserKey_def Slice_buf_def slice_ok_def slice_content_def string_data_def)
  have "?n - 8 < length uk" using n c(1) by linarith
  then have "take (?n - 8) uk < ik_user (ikey_rank key)" using less_le_trans [OF take_less u] by blast
  then have "IKey (take (?n - 8) uk) (drop_bit 8 q) < ikey_rank key" by (simp add: less_ikey_def)
  then have "icmp key ?s = Inr 1"
    using internal_cmp.cmp_rank [of key ?s] key s by (simp add: valid_bkey_def valid_ikey_def ikey_rank_def)
  then show ?thesis by (simp add: cut_check_def Slice_cstr_string)
qed

lemma cut_checks_long:
  "sorted (map entry_rank es) \<Longrightarrow> \<forall>e\<in>set es. entry_fits e \<Longrightarrow>
     \<forall>e\<in>set es. 8 \<le> length (cut_at_zero (fst (entry_kv e))) \<and> 0 \<in> set (fst (entry_kv e)) \<Longrightarrow>
     cut_checks (map entry_kv es)"
proof (induction es rule: induct_list012)
  case (3 e e' es)
  obtain u t v where e: "e = (u, t, v)" by (cases e)
  obtain u' t' v' where e': "e' = (u', t', v')" by (cases e')
  have k: "valid_bkey (Slice_string (internal_bytes u' t'))" "ikey_rank (Slice_string (internal_bytes u' t')) = IKey u' (drop_bit 8 t')"
    using "3.prems"(2) e' by (simp_all add: internal_bytes_key mkey_fits_def)
  have "u \<le> u'" using "3.prems"(1) e e' by (auto simp: less_eq_ikey_def)
  then have "cut_check (internal_bytes u t) (Slice_string (internal_bytes u' t'))"
    using k "3.prems"(2,3) e by (intro cut_check_long) (simp_all add: mkey_fits_def)
  moreover have "cut_checks (map entry_kv (e' # es))" using "3.IH"(2) "3.prems" by simp
  ultimately show ?case using e e' by (simp add: cut_checks_def)
qed (simp_all add: cut_checks_def)

lemma BuildTable_loop_small:
  assumes rep: "memtable_rep m all" and fits: "\<forall>e\<in>set all. entry_fits e"
  shows "mem_iter_at m es it \<Longrightarrow> all = pre @ es \<Longrightarrow> tb_rep b (map entry_kv pre) \<Longrightarrow> ikeys_ok (map entry_kv all) \<Longrightarrow>
    cut_checks (map entry_kv all) \<Longrightarrow> length (block_bytes (map entry_kv all)) < kBlockSize \<Longrightarrow> length es \<le> fuel \<Longrightarrow>
    \<exists>b'. BuildTable_loop fuel os m it b largest w =
        Inr (b', if es = [] then largest else \<lparr>ik_rep = fst (entry_kv (last es))\<rparr>, w) \<and>
      tb_rep b' (map entry_kv all) \<and> tb_file b' = tb_file b"
proof (induction es arbitrary: it pre b fuel largest)
  case Nil
  then show ?case
    using mem_iter_Valid [OF Nil.prems(1)] by (simp add: BuildTable_loop.simps [of _ _ _ it])
next
  case (Cons e es)
  have fe: "entry_fits e" using fits Cons.prems(2) by simp
  obtain k v it' where st: "MemtableIterator_Key m it = Inr k" "MemtableIterator_Value m it = Inr v"
    "MemtableIterator_Next m it = Inr it'" "mem_iter_at m es it'"
    "valid_bkey k" "ikey_rank k = entry_rank e" "slice_content k = fst (entry_kv e)"
    "slice_ok v" "slice_content v = snd (entry_kv e)"
    by (rule mem_iter_step [OF rep Cons.prems(1) fe])
  have kv: "(slice_content k, slice_content v) = entry_kv e" using st by simp
  have small: "length (block_bytes (map entry_kv pre @ [entry_kv e])) < kBlockSize"
    using Cons.prems(2,6) block_bytes_simps(3) [of "[entry_kv e]" "map entry_kv es"] by (simp del: block_bytes_simps(2))
  have ord: "map entry_kv pre = [] \<or> ikey_rank (Slice_string (fst (last (map entry_kv pre)))) < ikey_rank k \<and>
      cut_check (fst (last (map entry_kv pre))) k"
  proof (cases pre rule: rev_cases)
    case (snoc ys y)
    have "ikey_rank (Slice_string (slice_content k)) = ikey_rank k" using internal_block.rank_string st(5) by blast
    then show ?thesis
      using Cons.prems(2,4,5) snoc st(7) icmp_content [OF st(5)]
      by (auto simp: ikeys_ok_def sorted_wrt_append cut_checks_def successively_append_iff cut_check_def)
  qed simp
  obtain b1 where b1: "TableBuilder_Add os icmp k v b w = Inr (b1, w)" "tb_rep b1 (map entry_kv (pre @ [e]))" "tb_file b1 = tb_file b"
    using Add_small [OF Cons.prems(3) st(5,8) ord, of os w] small kv by auto
  obtain n where n: "fuel = Suc n" "length es \<le> n" using Cons.prems(7) by (cases fuel) auto
  have "Slice_ToString k = Inr (fst (entry_kv e))" using st(5,7) by (simp add: valid_bkey_def)
  then have t: "TransToInternalKey k = Inr \<lparr>ik_rep = fst (entry_kv e)\<rparr>"
    by (simp add: TransToInternalKey_def InternalKey_of_string_def)
  show ?case
    using Cons.IH [OF st(4) _ b1(2) Cons.prems(4-6) n(2), of "\<lparr>ik_rep = fst (entry_kv e)\<rparr>"] Cons.prems(2) mem_iter_Valid [OF Cons.prems(1)] st b1 n(1) t
    by (auto simp: BuildTable_loop.simps [of _ _ _ it])
qed

lemma sk_keys_le_nodes:
  assumes "memtable_rep m es"
  shows "length es \<le> length (sk_nodes (mt_table m))"
proof -
  have "sk_shape (mt_table m) (sk_addrs (mt_table m))" using assms by (simp add: memtable_rep_def sk_ok_def sk_inv_def)
  moreover have "length (sk_addrs (mt_table m)) = length es"
    using assms by (metis length_map memtable_rep_def sk_keys_def)
  ultimately show ?thesis using sk_shape_length by fastforce
qed

lemma PrintFileMeta_ok:
  assumes "ik_rep (fm_smallest_key meta) = internal_bytes u1 t1" "ik_rep (fm_largest_key meta) = internal_bytes u2 t2"
  shows "PrintFileMeta meta = Inr ()"
  using assms ExtractUserKey_internal [of "Slice_string (internal_bytes u1 t1)" u1 t1 "[0]"]
    ExtractUserKey_internal [of "Slice_string (internal_bytes u2 t2)" u2 t2 "[0]"]
  by (simp add: PrintFileMeta_def InternalKey_ToSlice_def Slice_string_def string_data_def Slice_buf_def read_mem_def)

text \<open>What is known of the table file of the entries \<open>es\<close> and its metadata.\<close>

definition table_meta :: "entry list \<Rightarrow> bytes \<Rightarrow> FileMeta \<Rightarrow> FileMeta" where
  "table_meta es filt meta = meta
     \<lparr>fm_smallest_key := \<lparr>ik_rep = fst (entry_kv (hd es))\<rparr>, fm_largest_key := \<lparr>ik_rep = fst (entry_kv (last es))\<rparr>,
      fm_file_size := word_of_nat (table_size (map entry_kv es) filt)\<rparr>"

lemma BuildTable_small:
  assumes m: "memtable_rep m es" and dist: "distinct (map entry_rank es)" and ne: "es \<noteq> []"
    and cut: "cut_checks (map entry_kv es)" and small: "length (block_bytes (map entry_kv es)) < kBlockSize"
    and op: "sys_open_write os name w = (fd, w1)" "fd \<noteq> -1" "written w1 fd = []"
    and io: "reliable os written name" and buf: "length buf = kWritableFileBuffer"
  obtains it x w' where "MemtableIterator_make m = Inr it" "filter_rep the_bloom (map fst (map entry_kv es)) x"
    "BuildTable os buf name meta m it w = Inr (Status_OK, table_meta es (filter_block [x]) meta, w')"
    "written w' fd = table_bytes (map entry_kv es) (filter_block [x])"
proof -
  let ?f = "WritableFile_make fd name buf"
  have f: "wf_ok ?f" "stream written ?f w1 = []" "wf_fd ?f = fd" "wf_filename ?f = name"
    using buf op(3) by (simp_all add: WritableFile_make_def wf_ok_def stream_def)
  have fits: "\<forall>e\<in>set es. entry_fits e" using m by (simp add: memtable_rep_def)
  note ik = entries_ikeys_ok [OF memtable_rep_sorted [OF m] dist fits]
  obtain it where it: "MemtableIterator_make m = Inr it" "mem_iter_at m es it" using mem_iter_make [OF m] by blast
  obtain e es' where e: "es = e # es'" using ne by (cases es) auto
  obtain k v it' where k: "MemtableIterator_Key m it = Inr k" "MemtableIterator_Value m it = Inr v" "MemtableIterator_Next m it = Inr it'"
    "mem_iter_at m es' it'" "valid_bkey k" "ikey_rank k = entry_rank e" "slice_content k = fst (entry_kv e)" "slice_ok v" "slice_content v = snd (entry_kv e)"
    using mem_iter_step [OF m it(2) [unfolded e]] fits e by auto
  have tr: "TransToInternalKey k = Inr \<lparr>ik_rep = fst (entry_kv e)\<rparr>"
    using k(5,7) by (simp add: TransToInternalKey_def InternalKey_of_string_def valid_bkey_def)
  have "tb_rep (TableBuilder_make ?f) (map entry_kv [])" using tb_rep_make [OF f(1)] by simp
  from BuildTable_loop_small [OF m fits it(2) _ this ik cut small sk_keys_le_nodes [OF m], of os "fm_largest_key meta" w1]
  obtain b where b: "BuildTable_loop (length (sk_nodes (mt_table m))) os m it (TableBuilder_make ?f) (fm_largest_key meta) w1 =
      Inr (b, \<lparr>ik_rep = fst (entry_kv (last es))\<rparr>, w1)" "tb_rep b (map entry_kv es)" "tb_file b = ?f"
    using ne by (auto simp: TableBuilder_make_def)
  have rel: "reliable os written (wf_filename (tb_file b))" using io b(3) f by simp
  obtain x r' w' where fin: "TableBuilder_Finish os icmp b w1 = Inr (Status_OK, r', w')" "filter_rep the_bloom (map fst (map entry_kv es)) x"
    "written w' (wf_fd (tb_file b)) = stream written (tb_file b) w1 @ table_bytes (map entry_kv es) (filter_block [x])"
    "tb_offset r' = word_of_nat (table_size (map entry_kv es) (filter_block [x]))"
    by (rule Finish_table [OF rel b(2)]) (use ne in auto)
  have "PrintFileMeta (table_meta es (filter_block [x]) meta) = Inr ()"
    by (cases "hd es", cases "last es") (auto simp: table_meta_def intro!: PrintFileMeta_ok)
  then have "BuildTable os buf name meta m it w = Inr (Status_OK, table_meta es (filter_block [x]) meta, w')"
    using op mem_iter_Valid [OF it(2)] ne k(1) tr b(1) fin(1,4) e
    by (simp add: BuildTable_def MemtableIterator_SeekToFirst_def table_meta_def TableBuilder_FileSize_def)
  then show thesis using that it(1) fin(2,3) b(3) f by simp
qed

section \<open>Properties\<close>

text \<open>C21: a memtable of one data block's size is written to disk and read back: \<^verbatim>\<open>BuildTable\<close> returns with
  success, the metadata it fills in names the first and the last key and a file size with which
  \<^verbatim>\<open>SSTable::Open\<close> accepts the file, and the table's iterator visits exactly the entries of the
  memtable, in their order. The loop of \<^verbatim>\<open>BuildTable\<close> ends for every such memtable. (Each key has
  at least eight bytes up to its first zero byte, so that the check against the cut last key passes.)\<close>

theorem memtable_dump_readable:
  assumes "memtable_rep m es" "distinct (map entry_rank es)" "es \<noteq> []"
    "\<forall>e\<in>set es. 8 \<le> length (cut_at_zero (fst (entry_kv e))) \<and> 0 \<in> set (fst (entry_kv e))"
    "length (block_bytes (map entry_kv es)) < kBlockSize"
    "sys_open_write os name w = (fd, w1)" "fd \<noteq> -1" "written w1 fd = []" "reliable os written name"
    "length buf = kWritableFileBuffer" "\<forall>w'. file_content os f (written w' fd) w'"
  shows "\<exists>it meta' w' t tit. MemtableIterator_make m = Inr it \<and>
    BuildTable os buf name meta m it w = Inr (Status_OK, meta', w') \<and>
    ik_rep (fm_smallest_key meta') = fst (entry_kv (hd es)) \<and> ik_rep (fm_largest_key meta') = fst (entry_kv (last es)) \<and>
    SSTable_Open os f (unat (fm_file_size meta')) w' = Inr (Some t) \<and>
    SSTableIterator_SeekToFirst os (SSTable_NewIterator t) w' = Inr tit \<and>
    (\<forall>i < length es. \<exists>tit'. table_Next_times os w' (Suc i) tit = Inr tit' \<and> table_shows (entry_kv (es ! i)) tit') \<and>
    (\<exists>tit'. table_Next_times os w' (Suc (length es)) tit = Inr tit' \<and> SSTableIterator_Valid tit' = Inr False)"
proof -
  let ?kvs = "map entry_kv es"
  have "cut_checks ?kvs"
    using cut_checks_long [OF memtable_rep_sorted [OF assms(1)] _ assms(4)] assms(1) by (simp add: memtable_rep_def)
  then obtain it x w' where b: "MemtableIterator_make m = Inr it" "filter_rep the_bloom (map fst ?kvs) x"
    "BuildTable os buf name meta m it w = Inr (Status_OK, table_meta es (filter_block [x]) meta, w')"
    "written w' fd = table_bytes ?kvs (filter_block [x])"
    by (rule BuildTable_small [OF assms(1-3) _ assms(5-10)])
  let ?m = "table_meta es (filter_block [x]) meta"
  have f: "file_content os f (table_bytes ?kvs (filter_block [x])) w'" using assms(11) b(4) by metis
  have size: "unat (fm_file_size ?m) = table_size ?kvs (filter_block [x])"
    using table_size_small [OF b(2)] assms(3,5) by (simp add: table_meta_def)
  have "length (block_bytes ?kvs) < 2 ^ 29" using assms(5) by (simp add: kBlockSize_def)
  from table_visits [OF f b(2) _ this] assms(3)
  have "\<exists>t tit. SSTable_Open os f (unat (fm_file_size ?m)) w' = Inr (Some t) \<and>
    SSTableIterator_SeekToFirst os (SSTable_NewIterator t) w' = Inr tit \<and>
    (\<forall>i < length es. \<exists>tit'. table_Next_times os w' (Suc i) tit = Inr tit' \<and> table_shows (entry_kv (es ! i)) tit') \<and>
    (\<exists>tit'. table_Next_times os w' (Suc (length es)) tit = Inr tit' \<and> SSTableIterator_Valid tit' = Inr False)"
    unfolding size by simp
  moreover have "ik_rep (fm_smallest_key ?m) = fst (entry_kv (hd es))" "ik_rep (fm_largest_key ?m) = fst (entry_kv (last es))"
    by (simp_all add: table_meta_def)
  ultimately show ?thesis using b(1,3) by blast
qed

lemma Status_IOError_message:
  assumes "slice_ok msg" "sl_size msg + 7 < 2 ^ 32"
  shows "\<exists>s. Status_IOError msg Slice_default = Inr s \<and> Status_IsIOError s = Inr True"
  using Status_make_state [of msg Slice_default kIOError] assms
  by (auto simp: Status_IOError_def Status_IsIOError_def Status_code_def Slice_default_def slice_ok_def nth_append)

text \<open>The error paths of \<^verbatim>\<open>BuildTable\<close>. An empty memtable stops at the assertion of \<^verbatim>\<open>SeekToFirst\<close>, although
  the code goes on to handle that case; a file that cannot be opened gives an error status and
  leaves the metadata alone.\<close>

theorem BuildTable_errors:
  assumes "memtable_rep m es"
  shows "\<exists>it. MemtableIterator_make m = Inr it \<and>
    (es = [] \<longrightarrow> BuildTable os buf name meta m it w = Inl AssertFail) \<and>
    (es \<noteq> [] \<and> sys_open_write os name w = (-1, w1) \<longrightarrow>
      (\<exists>s. BuildTable os buf name meta m it w = Inr (s, meta, w1) \<and> Status_IsIOError s = Inr True))"
proof -
  obtain it where it: "MemtableIterator_make m = Inr it" "mem_iter_at m es it" using mem_iter_make [OF assms] by blast
  have "\<exists>s. Status_IOError (Slice_string (ascii ''open file error, check the file name'')) Slice_default = Inr s \<and>
      Status_IsIOError s = Inr True"
    by (rule Status_IOError_message) (simp_all add: ascii_def)
  then show ?thesis
    using it mem_iter_Valid [OF it(2)] by (auto simp: BuildTable_def MemtableIterator_SeekToFirst_def)
qed

text \<open>A memtable with one entry, used by the witnesses.\<close>

definition one_entry :: entry where
  "one_entry = ([97, 97, 97, 97, 97, 97, 97, 97], 257, [98])"

definition one_memtable :: Memtable where
  "one_memtable = (case Memtable_Insert (\<lambda>n. (n, n + 1)) (entry_key one_entry) (2::nat) (Memtable_make 0) of
     Inr (r, m) \<Rightarrow> m | Inl e \<Rightarrow> Memtable_make 0)"

lemma one_memtable_rep: "memtable_rep one_memtable [one_entry]"
  using Memtable_Insert_rep [OF Memtable_make_rep, of one_entry "\<lambda>n. (n, n + 1)" "2::nat" 0]
  by (auto simp: one_memtable_def one_entry_def mkey_fits_def insert_before_def)

lemma one_entry_key: "8 \<le> length (cut_at_zero (fst (entry_kv one_entry))) \<and> 0 \<in> set (fst (entry_kv one_entry))"
  by code_simp

theorem memtable_dump_readable_witness:
  "\<exists>it meta' w' t tit. MemtableIterator_make one_memtable = Inr it \<and>
    BuildTable slow_os (replicate kWritableFileBuffer 0) [115] FileMeta_make one_memtable it [] = Inr (Status_OK, meta', w') \<and>
    ik_rep (fm_smallest_key meta') = fst (entry_kv (hd [one_entry])) \<and> ik_rep (fm_largest_key meta') = fst (entry_kv (last [one_entry])) \<and>
    SSTable_Open slow_os open_file (unat (fm_file_size meta')) w' = Inr (Some t) \<and>
    SSTableIterator_SeekToFirst slow_os (SSTable_NewIterator t) w' = Inr tit \<and>
    (\<forall>i < length [one_entry]. \<exists>tit'. table_Next_times slow_os w' (Suc i) tit = Inr tit' \<and> table_shows (entry_kv ([one_entry] ! i)) tit') \<and>
    (\<exists>tit'. table_Next_times slow_os w' (Suc (length [one_entry])) tit = Inr tit' \<and> SSTableIterator_Valid tit' = Inr False)"
proof -
  have "length (block_bytes (map entry_kv [one_entry])) < kBlockSize"
    using length_entry_bytes_le [of "fst (entry_kv one_entry)" "snd (entry_kv one_entry)"]
    by (simp add: kBlockSize_def one_entry_def)
  then show ?thesis
    using one_entry_key one_memtable_rep
    by (intro memtable_dump_readable [where written = "\<lambda>w fd. w" and fd = 3 and ?w1.0 = "[]"])
      (simp_all add: slow_os_reliable small_table_ok(4), simp_all add: slow_os_def)
qed

theorem BuildTable_errors_witness:
  "\<exists>it. MemtableIterator_make (Memtable_make 0) = Inr it \<and>
    BuildTable slow_os [] [115] FileMeta_make (Memtable_make 0) it [] = Inl AssertFail"
  using BuildTable_errors [OF Memtable_make_rep, of 0 slow_os "[]" "[115]" FileMeta_make "[]" "[]"] by blast

end
