(* ===== verification/DBImpls.thy ===== *)
theory DBImpls
  imports BuildTables
begin

text \<open>
  \<^verbatim>\<open>DBimpl\<close> (\<^verbatim>\<open>db_impl.h\<close>, \<^verbatim>\<open>db_impl.cc\<close>): the database object. This theory holds its state and what its
  methods do while they hold \<^verbatim>\<open>rwlock_\<close>; the theory of threads composes them into a step relation.

  Members the constructor does not set (\<^verbatim>\<open>background_compaction_schedule_\<close>, and \<^verbatim>\<open>size_\<close> of a new memtable)
  get arbitrary values, which are arguments. \<^verbatim>\<open>cv_lock_\<close> is never locked in the code, only adopted and
  unlocked; it has no counterpart here.
\<close>

definition kMaxMemtableSize :: nat where
  "kMaxMemtableSize = 4096"

definition kManifestReserved :: nat where
  "kManifestReserved = 4196"

text \<open>A writer has its address, its batch and its flag; the condition variable is in the theory of threads.\<close>

record Writer =
  wr_id :: nat
  wr_batch :: WriteBatch
  wr_done :: bool

definition Writer_make :: "nat \<Rightarrow> WriteBatch \<Rightarrow> Writer" where
  "Writer_make self batch = \<lparr>wr_id = self, wr_batch = batch, wr_done = False\<rparr>"

record DBimpl =
  db_writers :: "Writer list"
  db_memtable :: Memtable
  db_immutable_memtable :: "Memtable option"
  db_background_compaction_schedule :: bool
  db_last_sequence :: u64
  db_shutting_down :: bool
  db_file_metas :: "FileMeta list"
  db_sstable_number :: u64

section \<open>Writing\<close>

text \<open>\<open>True\<close> when a thread for the compaction is started.\<close>

definition MaybeScheduleCompaction :: "DBimpl \<Rightarrow> bool" where
  "MaybeScheduleCompaction db \<longleftrightarrow>
     (if db_background_compaction_schedule db then False else db_immutable_memtable db \<noteq> None)"

text \<open>
  The result says whether there is room (otherwise the writer waits for the compaction) and how many
  compaction threads were started. \<open>junk\<close> is the first size of a new memtable.
\<close>

function MakeRoomForWrite :: "nat \<Rightarrow> DBimpl \<Rightarrow> bool \<times> DBimpl \<times> nat" where
  "MakeRoomForWrite junk db =
     (if Memtable_EstimatedSize (db_memtable db) < kMaxMemtableSize then (True, db, 0)
      else if db_immutable_memtable db \<noteq> None then (False, db, 0)
      else
        let db = db\<lparr>db_immutable_memtable := Some (db_memtable db), db_memtable := Memtable_make junk\<rparr>;
            spawned = (if MaybeScheduleCompaction db then 1 else 0);
            (room, db, n) = MakeRoomForWrite junk db in (room, db, spawned + n))"
  by pat_completeness auto
termination
  by (relation "measure (\<lambda>(junk, db). if db_immutable_memtable db = None then 1 else 0)") auto

declare MakeRoomForWrite.simps [simp del]

text \<open>
  The loop over the queue behind its first writer, whose batch is \<open>result\<close>; \<open>last_writer\<close> is the address in
  \<^verbatim>\<open>*last_writer\<close>. The code calls \<^verbatim>\<open>Append(result, w->batch)\<close>, whose second argument is the
  destination.
\<close>

fun BuildWriteBatchGroup_loop ::
  "nat \<Rightarrow> nat \<Rightarrow> WriteBatch \<Rightarrow> nat \<Rightarrow> Writer list \<Rightarrow> (nat \<times> Writer list) res" where
  "BuildWriteBatchGroup_loop bytes max_size result last_writer [] = Inr (last_writer, [])"
| "BuildWriteBatchGroup_loop bytes max_size result last_writer (w # ws) =
     (let bytes = bytes + WriteBatch_Bytes (wr_batch w) in
      if bytes > max_size then Inr (last_writer, w # ws)
      else
        rbind (WriteBatchInternal_Append result (wr_batch w)) (\<lambda>batch.
        rbind (BuildWriteBatchGroup_loop bytes max_size result (wr_id w) ws) (\<lambda>(last_writer, ws).
          Inr (last_writer, w\<lparr>wr_batch := batch\<rparr> # ws))))"

definition BuildWriteBatchGroup :: "DBimpl \<Rightarrow> (WriteBatch \<times> nat \<times> DBimpl) res" where
  "BuildWriteBatchGroup db =
     (case db_writers db of
        [] \<Rightarrow> Inl OutOfBounds
      | first # ws \<Rightarrow>
          let result = wr_batch first; bytes = WriteBatch_Bytes result;
              max_size = (if bytes \<le> 128 * 2 ^ 10 then bytes + 128 * 2 ^ 10 else 2 ^ 20) in
          rbind (BuildWriteBatchGroup_loop bytes max_size result (wr_id first) ws) (\<lambda>(last_writer, ws).
            Inr (result, last_writer, db\<lparr>db_writers := first # ws\<rparr>)))"

text \<open>The loop that takes the finished writers from the queue; it returns those it marks done and wakes up.\<close>

fun Write_pop :: "nat \<Rightarrow> nat \<Rightarrow> Writer list \<Rightarrow> (nat list \<times> Writer list) res" where
  "Write_pop self last_writer [] = Inl OutOfBounds"
| "Write_pop self last_writer (ready # ws) =
     (let done = (if wr_id ready \<noteq> self then [wr_id ready] else []) in
      if wr_id ready = last_writer then Inr (done, ws)
      else rbind (Write_pop self last_writer ws) (\<lambda>(done', ws). Inr (done @ done', ws)))"

text \<open>
  \<^verbatim>\<open>Write\<close> from the call of \<^verbatim>\<open>BuildWriteBatchGroup\<close> on. Waking up the new head of the queue at its end changes nothing
  in the state.
\<close>

definition Write_group ::
  "('r \<Rightarrow> nat \<times> 'r) \<Rightarrow> nat \<Rightarrow> 'r \<Rightarrow> DBimpl \<Rightarrow> ('r \<times> nat list \<times> DBimpl) res" where
  "Write_group rand self r db =
     rbind (BuildWriteBatchGroup db) (\<lambda>(writer_batch, last_writer, db).
     rbind (WriteBatch_SetSequence writer_batch (db_last_sequence db)) (\<lambda>writer_batch.
     rbind (WriteBatch_Count writer_batch) (\<lambda>count.
     let db = db\<lparr>db_last_sequence := db_last_sequence db + word_of_int count\<rparr> in
     rbind (WriteBatch_InsertAll rand writer_batch r (db_memtable db)) (\<lambda>(r, memtable).
     rbind (Write_pop self last_writer (db_writers db)) (\<lambda>(done, writers).
       Inr (r, done, db\<lparr>db_memtable := memtable, db_writers := writers\<rparr>))))))"

text \<open>
  The whole of \<^verbatim>\<open>Write\<close> by the thread \<open>self\<close>: \<open>None\<close> when it waits, behind another writer or for the
  compaction. The number counts the compaction threads it started.
\<close>

definition DBimpl_Write ::
  "('r \<Rightarrow> nat \<times> 'r) \<Rightarrow> nat \<Rightarrow> nat \<Rightarrow> WriteBatch \<Rightarrow> 'r \<Rightarrow> DBimpl \<Rightarrow> ('r \<times> nat \<times> DBimpl) option res" where
  "DBimpl_Write rand junk self update r db =
     (let db = db\<lparr>db_writers := db_writers db @ [Writer_make self update]\<rparr> in
      if self \<noteq> wr_id (hd (db_writers db)) then Inr None
      else
        let (room, db, n) = MakeRoomForWrite junk db in
        if \<not> room then Inr None
        else rbind (Write_group rand self r db) (\<lambda>(r, done, db). Inr (Some (r, n, db))))"

definition DBimpl_Put ::
  "('r \<Rightarrow> nat \<times> 'r) \<Rightarrow> nat \<Rightarrow> nat \<Rightarrow> slice \<Rightarrow> slice \<Rightarrow> 'r \<Rightarrow> DBimpl \<Rightarrow> ('r \<times> nat \<times> DBimpl) option res" where
  "DBimpl_Put rand junk self key value r db =
     rbind (WriteBatch_Put key value WriteBatch_make) (\<lambda>write_batch. DBimpl_Write rand junk self write_batch r db)"

definition DBimpl_Delete ::
  "('r \<Rightarrow> nat \<times> 'r) \<Rightarrow> nat \<Rightarrow> nat \<Rightarrow> slice \<Rightarrow> 'r \<Rightarrow> DBimpl \<Rightarrow> ('r \<times> nat \<times> DBimpl) option res" where
  "DBimpl_Delete rand junk self key r db =
     rbind (WriteBatch_Delete key WriteBatch_make) (\<lambda>write_batch. DBimpl_Write rand junk self write_batch r db)"

section \<open>Reading\<close>

definition sstable_name :: "u64 \<Rightarrow> bytes" where
  "sstable_name number = ascii ''sstable_'' @ std_to_string (unat number)"

text \<open>The search through the table files; leaving the loop's body runs the destructor of the file, with its assertion.\<close>

fun Get_files :: "'w posix \<Rightarrow> slice \<Rightarrow> FileMeta list \<Rightarrow> 'w \<Rightarrow> bytes option res" where
  "Get_files os internal_key [] w = Inr None"
| "Get_files os internal_key (file_meta # metas) w =
     rbind (rbind (InternalKeyComparator_Compare (InternalKey_ToSlice (fm_smallest_key file_meta)) internal_key) (\<lambda>c.
            if c \<noteq> -1 then Inr False
            else rbind (InternalKeyComparator_Compare (InternalKey_ToSlice (fm_largest_key file_meta)) internal_key) (\<lambda>c.
                   Inr (c = 1)))) (\<lambda>in_range.
     if \<not> in_range then Get_files os internal_key metas w
     else
       let random_access_file = RandomAccessFile_make os (sstable_name (fm_number file_meta)) w in
       rbind (SSTable_Open os random_access_file (unat (fm_file_size file_meta)) w) (\<lambda>sstable_opt.
       case sstable_opt of
         None \<Rightarrow> Inl AssertFail
       | Some sstable \<Rightarrow>
           rbind (SSTable_InternalGet os InternalKeyComparator_Compare internal_key sstable w) (\<lambda>result.
           case result of
             None \<Rightarrow> rbind (assert_that (rf_fd random_access_file \<noteq> -1)) (\<lambda>_. Get_files os internal_key metas w)
           | Some value \<Rightarrow> rbind (assert_that (rf_fd random_access_file \<noteq> -1)) (\<lambda>_. Inr (Some value)))))"

definition DBimpl_Get :: "'w posix \<Rightarrow> slice \<Rightarrow> DBimpl \<Rightarrow> 'w \<Rightarrow> bytes option res" where
  "DBimpl_Get os key db w =
     rbind (CreateMemtableKey key (- 1) (Slice_string []) kTypeSeek) (\<lambda>memtable_key.
     rbind (Memtable_Get memtable_key (db_memtable db)) (\<lambda>found.
     case found of
       Some value \<Rightarrow> Inr (Some value)
     | None \<Rightarrow>
         rbind (case db_immutable_memtable db of
                  None \<Rightarrow> Inr None
                | Some imm \<Rightarrow> Memtable_Get memtable_key imm) (\<lambda>found.
         case found of
           Some value \<Rightarrow> Inr (Some value)
         | None \<Rightarrow>
             rbind (CreateInternalKey key (- 1) kTypeSeek) (\<lambda>internal_key.
               Get_files os internal_key (db_file_metas db) w))))"

section \<open>Compaction\<close>

text \<open>The new metadata is stored before the table is built, and stays there when that fails.\<close>

definition CompactMemtable ::
  "'w posix \<Rightarrow> bytes \<Rightarrow> DBimpl \<Rightarrow> 'w \<Rightarrow> (Status \<times> DBimpl \<times> 'w) res" where
  "CompactMemtable os buf db w =
     (case db_immutable_memtable db of
        None \<Rightarrow> Inl NullDeref
      | Some imm \<Rightarrow>
          rbind (MemtableIterator_make imm) (\<lambda>iter.
          rbind (BuildTable os buf (sstable_name (db_sstable_number db)) FileMeta_make imm iter w) (\<lambda>(s, meta, w).
            let meta = meta\<lparr>fm_number := db_sstable_number db\<rparr>;
                db = db\<lparr>db_file_metas := db_file_metas db @ [meta], db_sstable_number := db_sstable_number db + 1\<rparr> in
            if \<not> Status_ok s then Inr (s, db\<lparr>db_sstable_number := db_sstable_number db - 1\<rparr>, w)
            else Inr (s, db, w))))"

definition BackGroundCompaction :: "'w posix \<Rightarrow> bytes \<Rightarrow> DBimpl \<Rightarrow> 'w \<Rightarrow> (DBimpl \<times> 'w) res" where
  "BackGroundCompaction os buf db w =
     (if db_immutable_memtable db \<noteq> None then
        rbind (CompactMemtable os buf db w) (\<lambda>(s, db, w).
          if Status_ok s then Inr (db\<lparr>db_immutable_memtable := None\<rparr>, w) else Inr (db, w))
      else Inr (db, w))"

text \<open>It then wakes up the writers that wait for the compaction.\<close>

definition BackGroundCall :: "'w posix \<Rightarrow> bytes \<Rightarrow> DBimpl \<Rightarrow> 'w \<Rightarrow> (DBimpl \<times> 'w) res" where
  "BackGroundCall os buf db w =
     rbind (BackGroundCompaction os buf db w) (\<lambda>(db, w).
       Inr (db\<lparr>db_background_compaction_schedule := False\<rparr>, w))"

section \<open>The manifest\<close>

definition manifest_name :: bytes where
  "manifest_name = ascii ''manifest''"

text \<open>
  The reading loop: the file is read from its start on, \<open>ptr\<close> bytes so far; each call asks for the size of
  the whole buffer, so a file that does not fit writes behind it.
\<close>

function ReadManifest_loop :: "'w posix \<Rightarrow> int \<Rightarrow> bytes \<Rightarrow> nat \<Rightarrow> 'w \<Rightarrow> (bytes \<times> nat) res" where
  "ReadManifest_loop os fd buf ptr w =
     (case sys_pread os fd kManifestReserved ptr w of
        None \<Rightarrow> Inr (buf, ptr)
      | Some d \<Rightarrow>
          if d = [] then Inr (buf, ptr)
          else if ptr + length d > length buf then Inl OutOfBounds
          else ReadManifest_loop os fd (take ptr buf @ d @ drop (ptr + length d) buf) (ptr + length d) w)"
  by pat_completeness auto
termination
  by (relation "measure (\<lambda>(os, fd, buf, ptr, w). length buf - ptr)")
     (auto intro!: diff_less_mono2 simp flip: length_greater_0_conv)

declare ReadManifest_loop.simps [simp del]

fun DecodeFileMetas :: "nat \<Rightarrow> slice \<Rightarrow> (FileMeta list \<times> slice) res" where
  "DecodeFileMetas 0 s = Inr ([], s)"
| "DecodeFileMetas (Suc n) s =
     rbind (DecodeFileMeta s) (\<lambda>(m, s). rbind (DecodeFileMetas n s) (\<lambda>(ms, s). Inr (m # ms, s)))"

text \<open>\<open>buf\<close> is what the buffer holds before the file is read.\<close>

definition ReadManifest :: "'w posix \<Rightarrow> bytes \<Rightarrow> DBimpl \<Rightarrow> 'w \<Rightarrow> (Status \<times> DBimpl) res" where
  "ReadManifest os buf db w =
     (let fd = sys_open_read os manifest_name w in
      if fd = -1 then
        rbind (Status_Corruption (Slice_string (ascii ''manifest corruption'')) Slice_default) (\<lambda>s. Inr (s, db))
      else
        rbind (ReadManifest_loop os fd buf 0 w) (\<lambda>(buf, ptr).
        rbind (GetVarint32 (Slice_buf buf ptr)) (\<lambda>(file_meta_count, s).
        rbind (GetVarint64 s) (\<lambda>r. case r of
          None \<Rightarrow> Inl UninitRead
        | Some (last_sequence, s) \<Rightarrow>
            rbind (DecodeFileMetas (unat file_meta_count) s) (\<lambda>(metas, s).
              Inr (Status_OK, db\<lparr>db_file_metas := db_file_metas db @ metas, db_last_sequence := last_sequence,
                                 db_sstable_number := ucast file_meta_count\<rparr>))))))"

fun DumpManifest_loop :: "'w posix \<Rightarrow> FileMeta list \<Rightarrow> WritableFile \<Rightarrow> 'w \<Rightarrow> 'w res" where
  "DumpManifest_loop os [] file w = Inr w"
| "DumpManifest_loop os (m # ms) file w =
     rbind (PrintFileMeta m) (\<lambda>_.
     rbind (EncodeFileMeta os m file w) (\<lambda>(file, w). DumpManifest_loop os ms file w))"

text \<open>The header is appended as a C string.\<close>

definition DumpManifest :: "'w posix \<Rightarrow> bytes \<Rightarrow> DBimpl \<Rightarrow> 'w \<Rightarrow> 'w res" where
  "DumpManifest os buf db w =
     (let (fd, w) = sys_open_write os manifest_name w; file = WritableFile_make fd manifest_name buf in
      rbind (PutVarint32 (word_of_nat (length (db_file_metas db))) []) (\<lambda>rep.
      rbind (PutVarint64 rep (db_last_sequence db)) (\<lambda>rep.
      rbind (Slice_cstr (string_data rep)) (\<lambda>c.
      rbind (WritableFile_Append os c file w) (\<lambda>(_, file, w).
      rbind (WritableFile_Flush os file w) (\<lambda>(_, file, w).
        DumpManifest_loop os (db_file_metas db) file w))))))"

section \<open>Construction and destruction\<close>

text \<open>\<open>junk\<close> gives the members that the constructor leaves alone.\<close>

definition DBimpl_make :: "'w posix \<Rightarrow> bytes \<Rightarrow> nat \<Rightarrow> DBimpl \<Rightarrow> 'w \<Rightarrow> DBimpl res" where
  "DBimpl_make os buf junk_size junk w =
     (let db = junk\<lparr>db_writers := [], db_memtable := Memtable_make junk_size, db_immutable_memtable := None,
                    db_file_metas := []\<rparr> in
      if \<not> sys_access os (ascii ''./manifest'') w then Inr (db\<lparr>db_sstable_number := 1, db_last_sequence := 1\<rparr>)
      else rbind (ReadManifest os buf db w) (\<lambda>(_, db). Inr db))"

text \<open>
  \<open>None\<close> when the destructor waits for a compaction that is marked as scheduled. A memtable that is still
  waiting to be compacted is dropped.
\<close>

definition DBimpl_destroy ::
  "'w posix \<Rightarrow> bytes \<Rightarrow> DBimpl \<Rightarrow> 'w \<Rightarrow> (DBimpl \<times> 'w) option res" where
  "DBimpl_destroy os buf db w =
     (let db = db\<lparr>db_shutting_down := True\<rparr> in
      if db_background_compaction_schedule db then Inr None
      else
        let db = db\<lparr>db_immutable_memtable := Some (db_memtable db)\<rparr> in
        rbind (CompactMemtable os buf db w) (\<lambda>(_, db, w).
        let db = db\<lparr>db_immutable_memtable := None\<rparr> in
        rbind (DumpManifest os buf db w) (\<lambda>w. Inr (Some (db, w)))))"

section \<open>The map a database holds in memory\<close>

text \<open>The memtable has the entries with sequence numbers up to \<open>q\<close> and gives the map \<open>M\<close>.\<close>

definition mem_state :: "Memtable \<Rightarrow> u64 \<Rightarrow> (bytes \<rightharpoonup> bytes) \<Rightarrow> bool" where
  "mem_state m q M \<longleftrightarrow> (\<exists>es. memtable_rep m es \<and> entries_upto es q \<and> entries_map es = M)"

fun imm_state :: "Memtable option \<Rightarrow> u64 \<Rightarrow> (bytes \<rightharpoonup> bytes) \<Rightarrow> bool" where
  "imm_state None q M \<longleftrightarrow> M = Map.empty"
| "imm_state (Some imm) q M \<longleftrightarrow> mem_state imm q M"

text \<open>The entries of the memtable hide those of the immutable one.\<close>

definition db_rep :: "DBimpl \<Rightarrow> (bytes \<rightharpoonup> bytes) \<Rightarrow> bool" where
  "db_rep db M \<longleftrightarrow>
     (\<exists>M1 M2. mem_state (db_memtable db) (db_last_sequence db) M1 \<and>
       imm_state (db_immutable_memtable db) (db_last_sequence db) M2 \<and> M = M2 ++ M1)"

lemma mem_state_make: "mem_state (Memtable_make junk) q Map.empty"
  by (auto simp: mem_state_def entries_upto_def entries_map_def fun_eq_iff intro!: exI [of _ "[]"] Memtable_make_rep)

lemma mem_state_mono: "mem_state m q M \<Longrightarrow> q \<le> q' \<Longrightarrow> mem_state m q' M"
  by (force simp: mem_state_def entries_upto_def)

lemma imm_state_mono: "imm_state i q M \<Longrightarrow> q \<le> q' \<Longrightarrow> imm_state i q' M"
  by (cases i) (auto intro: mem_state_mono)

lemma mem_state_Get:
  "mem_state m q M \<Longrightarrow> mkey_fits uk v0 \<Longrightarrow> Memtable_Get (mkey_slice uk (make_tag (- 1) ty) v0) m = Inr (M uk)"
  by (auto simp: mem_state_def Memtable_Get_map)

lemma mem_state_InsertAll:
  assumes "batch_rep w q us" "mem_state m q M" "unat q + length us < 2 ^ 56"
  obtains r' m' where "WriteBatch_InsertAll rand w r m = Inr (r', m')"
    "mem_state m' (q + word_of_nat (length us)) (fold update_map us M)"
proof -
  obtain es where es: "memtable_rep m es" "entries_upto es q" "entries_map es = M" using assms(2) by (auto simp: mem_state_def)
  show thesis
    by (rule InsertAll_map [OF assms(1) es(1,2) assms(3), of rand r]) (use that es(3) in \<open>auto simp: mem_state_def\<close>)
qed

lemma fold_update_map_add: "fold update_map us (M ++ M1) = M ++ fold update_map us M1"
proof (induction us arbitrary: M1)
  case (Cons u us)
  have "update_map u (M ++ M1) = M ++ update_map u M1" by (cases u) simp_all
  then show ?case using Cons by simp
qed simp

text \<open>At most one memtable is set aside, and making room does not change the map.\<close>

lemma Memtable_EstimatedSize_make: "Memtable_EstimatedSize (Memtable_make junk) = junk"
  by (simp add: Memtable_make_def Memtable_EstimatedSize_def)

lemma MakeRoom_eq:
  "MakeRoomForWrite junk db =
     (if Memtable_EstimatedSize (db_memtable db) < kMaxMemtableSize then (True, db, 0)
      else if db_immutable_memtable db \<noteq> None then (False, db, 0)
      else
        let db = db\<lparr>db_immutable_memtable := Some (db_memtable db), db_memtable := Memtable_make junk\<rparr> in
        (junk < kMaxMemtableSize, db, if MaybeScheduleCompaction db then 1 else 0))"
proof -
  let ?db = "db\<lparr>db_immutable_memtable := Some (db_memtable db), db_memtable := Memtable_make junk\<rparr>"
  have "MakeRoomForWrite junk ?db = (junk < kMaxMemtableSize, ?db, 0)"
    by (simp add: MakeRoomForWrite.simps [of junk ?db] Memtable_EstimatedSize_make)
  then show ?thesis by (simp add: MakeRoomForWrite.simps [of junk db] Let_def)
qed

lemma MakeRoom_rep:
  assumes "db_rep db M" "MakeRoomForWrite junk db = (room, db', n)"
  shows "db_rep db' M" "db_writers db' = db_writers db" "db_last_sequence db' = db_last_sequence db"
    "db_file_metas db' = db_file_metas db"
  using assms mem_state_make by (fastforce simp: MakeRoom_eq Let_def db_rep_def split: if_splits)+

section \<open>Group commit\<close>

lemma db_rep_writers [simp]: "db_rep (db\<lparr>db_writers := ws\<rparr>) M \<longleftrightarrow> db_rep db M"
  by (simp add: db_rep_def)

text \<open>
  \<^verbatim>\<open>Write\<close> replays the batch it gets from \<^verbatim>\<open>BuildWriteBatchGroup\<close> with the sequence numbers after the last
  one, and takes the writers up to the last of the group from the queue.
\<close>

lemma Write_group_batch:
  assumes db: "db_rep db M" and w: "batch_rep w q us"
    and grp: "BuildWriteBatchGroup db = Inr (w, last_writer, db\<lparr>db_writers := ws\<rparr>)"
    and pop: "Write_pop self last_writer ws = Inr (woken, ws')"
    and q: "unat (db_last_sequence db) + length us < 2 ^ 56"
  shows "\<exists>r' db'. Write_group rand self r db = Inr (r', woken, db') \<and> db_rep db' (fold update_map us M) \<and>
    db_writers db' = ws' \<and> db_last_sequence db' = db_last_sequence db + word_of_nat (length us) \<and>
    db_file_metas db' = db_file_metas db \<and> db_immutable_memtable db' = db_immutable_memtable db"
proof -
  let ?q = "db_last_sequence db"
  obtain M1 M2 where M: "mem_state (db_memtable db) ?q M1" "M = M2 ++ M1"
    "imm_state (db_immutable_memtable db) ?q M2"
    using db by (auto simp: db_rep_def)
  obtain w' where w': "WriteBatch_SetSequence w ?q = Inr w'" "batch_rep w' ?q us" using batch_rep_SetSequence [OF w] by blast
  obtain r' m' where m': "WriteBatch_InsertAll rand w' r (db_memtable db) = Inr (r', m')"
    "mem_state m' (?q + word_of_nat (length us)) (fold update_map us M1)"
    by (rule mem_state_InsertAll [OF w'(2) M(1) q])
  have le: "?q \<le> ?q + word_of_nat (length us)"
    using q by (simp add: word_le_nat_alt unat_word_ariths)
  let ?db = "db\<lparr>db_writers := ws, db_last_sequence := ?q + word_of_nat (length us), db_memtable := m', db_writers := ws'\<rparr>"
  have "Write_group rand self r db = Inr (r', woken, ?db)"
    using grp pop w' m'(1) batch_Count [OF w'(2)] by (simp add: Write_group_def)
  moreover have "db_rep ?db (fold update_map us M)"
    using m'(2) M imm_state_mono [OF _ le] by (fastforce simp: db_rep_def fold_update_map_add)
  ultimately show ?thesis by auto
qed

text \<open>The followers of a group: each gets the updates of the first writer appended to its own.\<close>

lemma Group_loop_followers:
  "(\<forall>w\<in>set ws. \<exists>q vs. batch_rep (wr_batch w) q vs \<and> length us + length vs < 2 ^ 31) \<Longrightarrow> batch_rep result p us \<Longrightarrow>
     (\<forall>w\<in>set ws. WriteBatch_Bytes result + WriteBatch_Bytes (wr_batch w) < 2 ^ 64) \<Longrightarrow>
     bytes + (\<Sum>w\<leftarrow>ws. WriteBatch_Bytes (wr_batch w)) \<le> max_size \<Longrightarrow>
     \<exists>ws'. BuildWriteBatchGroup_loop bytes max_size result first ws =
         Inr (List.last (first # map wr_id ws), ws') \<and> map wr_id ws' = map wr_id ws"
proof (induction ws arbitrary: bytes first)
  case (Cons w ws)
  obtain q vs where w: "batch_rep (wr_batch w) q vs" "length us + length vs < 2 ^ 31" using Cons.prems(1) by auto
  obtain b where b: "WriteBatchInternal_Append result (wr_batch w) = Inr b"
    using batch_rep_Append [OF Cons.prems(2) w(1,2)] Cons.prems(3) by (auto simp: WriteBatch_Bytes_def)
  obtain ws' where "BuildWriteBatchGroup_loop (bytes + WriteBatch_Bytes (wr_batch w)) max_size result (wr_id w) ws =
      Inr (List.last (wr_id w # map wr_id ws), ws')" "map wr_id ws' = map wr_id ws"
    using Cons.IH [of "bytes + WriteBatch_Bytes (wr_batch w)" "wr_id w"] Cons.prems by auto
  then show ?case using b Cons.prems(4) by (auto simp: Let_def)
qed simp

lemma Write_pop_all:
  "distinct (map wr_id ws) \<Longrightarrow> ws \<noteq> [] \<Longrightarrow>
     Write_pop self (List.last (map wr_id ws)) ws = Inr (filter (\<lambda>i. i \<noteq> self) (map wr_id ws), [])"
proof (induction ws)
  case (Cons w ws)
  show ?case
  proof (cases "ws = []")
    case False
    then have "wr_id w \<noteq> List.last (map wr_id ws)" using Cons.prems(1) by (metis distinct.simps(2) last_in_set list.simps(9) map_is_Nil_conv)
    then show ?thesis using Cons False by simp
  qed simp
qed simp

lemma Write_group_followers:
  assumes db: "db_rep db M" "db_writers db = first # ws" and first: "batch_rep (wr_batch first) p us"
    and ws: "\<forall>w\<in>set ws. \<exists>q vs. batch_rep (wr_batch w) q vs \<and> length us + length vs < 2 ^ 31"
    and size: "WriteBatch_Bytes (wr_batch first) \<le> 2 ^ 17" "(\<Sum>w\<leftarrow>ws. WriteBatch_Bytes (wr_batch w)) \<le> 2 ^ 17"
    and dist: "distinct (map wr_id (first # ws))" and q: "unat (db_last_sequence db) + length us < 2 ^ 56"
  shows "\<exists>r' db'. Write_group rand (wr_id first) r db = Inr (r', map wr_id ws, db') \<and>
    db_rep db' (fold update_map us M) \<and> db_writers db' = [] \<and>
    db_last_sequence db' = db_last_sequence db + word_of_nat (length us) \<and>
    db_file_metas db' = db_file_metas db \<and> db_immutable_memtable db' = db_immutable_memtable db"
proof -
  let ?n = "WriteBatch_Bytes (wr_batch first)"
  have each: "WriteBatch_Bytes (wr_batch w) \<le> 2 ^ 17" if "w \<in> set ws" for w
    using size(2) member_le_sum_list [of "WriteBatch_Bytes (wr_batch w)" "map (WriteBatch_Bytes \<circ> wr_batch) ws"] that
    by (simp add: comp_def)
  have le: "?n + (\<Sum>w\<leftarrow>ws. WriteBatch_Bytes (wr_batch w)) \<le> ?n + 128 * 2 ^ 10" using size(2) by simp
  have lt: "\<forall>w\<in>set ws. ?n + WriteBatch_Bytes (wr_batch w) < 2 ^ 64" using each size(1) by fastforce
  obtain ws' where ws': "BuildWriteBatchGroup_loop ?n (?n + 128 * 2 ^ 10) (wr_batch first) (wr_id first) ws =
      Inr (List.last (wr_id first # map wr_id ws), ws')" "map wr_id ws' = map wr_id ws"
    using Group_loop_followers [OF ws first lt le, of "wr_id first"] by blast
  have grp: "BuildWriteBatchGroup db = Inr (wr_batch first, List.last (map wr_id (first # ws')), db\<lparr>db_writers := first # ws'\<rparr>)"
    using db(2) size(1) ws' by (simp add: BuildWriteBatchGroup_def Let_def)
  have "\<forall>i\<in>set (map wr_id ws). i \<noteq> wr_id first" using dist by (metis distinct.simps(2) list.simps(9))
  then have "filter (\<lambda>i. i \<noteq> wr_id first) (map wr_id (first # ws')) = map wr_id ws"
    using filter_True [of "map wr_id ws"] by (simp add: ws'(2) del: set_map filter_map)
  then have pop: "Write_pop (wr_id first) (List.last (map wr_id (first # ws'))) (first # ws') = Inr (map wr_id ws, [])"
    using Write_pop_all [of "first # ws'" "wr_id first"] dist ws'(2) by simp
  show ?thesis by (rule Write_group_batch [OF db(1) first grp pop q])
qed

section \<open>Single calls\<close>

text \<open>The condition under which a writer that is alone does not wait.\<close>

definition db_room :: "nat \<Rightarrow> DBimpl \<Rightarrow> bool" where
  "db_room junk db \<longleftrightarrow>
     Memtable_EstimatedSize (db_memtable db) < kMaxMemtableSize \<or> db_immutable_memtable db = None \<and> junk < kMaxMemtableSize"

lemma DBimpl_Write_rep:
  assumes db: "db_rep db M" "db_writers db = []" "db_room junk db" and w: "batch_rep w q us"
    and small: "WriteBatch_Bytes w \<le> 2 ^ 17" and q: "unat (db_last_sequence db) + length us < 2 ^ 56"
  shows "\<exists>r' n db'. DBimpl_Write rand junk self w r db = Inr (Some (r', n, db')) \<and> db_rep db' (fold update_map us M) \<and>
    db_writers db' = [] \<and> db_last_sequence db' = db_last_sequence db + word_of_nat (length us) \<and>
    db_file_metas db' = db_file_metas db"
proof -
  let ?db = "db\<lparr>db_writers := [Writer_make self w]\<rparr>"
  obtain db1 n where room: "MakeRoomForWrite junk ?db = (True, db1, n)"
    using db(3) by (cases "Memtable_EstimatedSize (db_memtable db) < kMaxMemtableSize") (auto simp: MakeRoom_eq db_room_def Let_def)
  have rep: "db_rep ?db M" using db(1) by simp
  note db1 = MakeRoom_rep [OF rep room]
  have id: "wr_id (Writer_make self w) = self" "wr_batch (Writer_make self w) = w" by (simp_all add: Writer_make_def)
  obtain r' db' where g: "Write_group rand self r db1 = Inr (r', [], db')" "db_rep db' (fold update_map us M)" "db_writers db' = []"
    "db_last_sequence db' = db_last_sequence db + word_of_nat (length us)" "db_file_metas db' = db_file_metas db"
    using Write_group_followers [OF db1(1), of "Writer_make self w" "[]" q us rand r] db1(2-4) w small q by (auto simp: id)
  then show ?thesis using room db(2) by (simp add: DBimpl_Write_def Let_def id)
qed

lemma DBimpl_Get_rep:
  assumes "db_rep db M" "slice_ok key" "mkey_fits (slice_content key) []"
  shows "DBimpl_Get os key db w =
    (case M (slice_content key) of
       Some v \<Rightarrow> Inr (Some v)
     | None \<Rightarrow> Get_files os (Slice_buf (internal_bytes (slice_content key) (make_tag (- 1) kTypeSeek)) (sl_size key + 8))
                 (db_file_metas db) w)"
proof -
  let ?uk = "slice_content key"
  obtain M1 M2 where M: "mem_state (db_memtable db) (db_last_sequence db) M1"
    "imm_state (db_immutable_memtable db) (db_last_sequence db) M2" "M = M2 ++ M1"
    using assms(1) by (auto simp: db_rep_def)
  have k: "CreateMemtableKey key (- 1) (Slice_string []) kTypeSeek = Inr (mkey_slice ?uk (make_tag (- 1) kTypeSeek) [])"
    using CreateMemtableKey_layout [OF assms(2), of "Slice_string []"] by simp
  have imm: "(case db_immutable_memtable db of None \<Rightarrow> Inr None
      | Some imm \<Rightarrow> Memtable_Get (mkey_slice ?uk (make_tag (- 1) kTypeSeek) []) imm) = Inr (M2 ?uk)"
    using M(2) assms(3) by (cases "db_immutable_memtable db") (auto simp: mem_state_Get)
  show ?thesis
    unfolding DBimpl_Get_def k rbind_simps mem_state_Get [OF M(1) assms(3)] imm
    by (auto simp: M(3) map_add_def CreateInternalKey_layout [OF assms(2)] split: option.splits)
qed

section \<open>Properties\<close>

text \<open>C4: \<^verbatim>\<open>DBimpl::Write\<close> by a writer that is alone and has room returns, empties the queue, advances the last
  sequence number by the number of updates, and changes the map held in memory by exactly the
  updates of the batch, in their order; that a full memtable is set aside on the way does not change
  the map. A \<^verbatim>\<open>Get\<close> afterwards reads that map first, and only a key that is not in it goes to the files.\<close>

theorem db_write_refines_map:
  assumes "db_rep db M" "db_writers db = []" "db_room junk db" "batch_rep w q us" "WriteBatch_Bytes w \<le> 2 ^ 17"
    "unat (db_last_sequence db) + length us < 2 ^ 56"
  shows "\<exists>r' n db'. DBimpl_Write rand junk self w r db = Inr (Some (r', n, db')) \<and> db_rep db' (fold update_map us M) \<and>
    db_writers db' = [] \<and> db_last_sequence db' = db_last_sequence db + word_of_nat (length us) \<and>
    (\<forall>key v. slice_ok key \<and> mkey_fits (slice_content key) [] \<and> fold update_map us M (slice_content key) = Some v \<longrightarrow>
       DBimpl_Get os key db' x = Inr (Some v))"
proof -
  obtain r' n db' where w: "DBimpl_Write rand junk self w r db = Inr (Some (r', n, db'))" "db_rep db' (fold update_map us M)"
    "db_writers db' = []" "db_last_sequence db' = db_last_sequence db + word_of_nat (length us)"
    using DBimpl_Write_rep [OF assms, of rand self r] by blast
  then show ?thesis using DBimpl_Get_rep [OF w(2), where os = os and w = x] by auto
qed

text \<open>A fresh database without a manifest.\<close>

definition fresh_db :: DBimpl where
  "fresh_db = \<lparr>db_writers = [], db_memtable = Memtable_make 0, db_immutable_memtable = None,
     db_background_compaction_schedule = False, db_last_sequence = 1, db_shutting_down = False, db_file_metas = [],
     db_sstable_number = 1\<rparr>"

lemma fresh_db_rep: "db_rep fresh_db Map.empty" "db_writers fresh_db = []" "db_room 0 fresh_db"
  using mem_state_make [of 0 1]
  by (auto simp: db_rep_def fresh_db_def db_room_def kMaxMemtableSize_def Memtable_EstimatedSize_make)

theorem db_write_refines_map_witness:
  "\<exists>r' n db'. DBimpl_Write (\<lambda>n. (n, n + 1)) 0 7 \<lparr>wb_rep = batch_bytes 0 [UPut [97] [98]]\<rparr> (0::nat) fresh_db = Inr (Some (r', n, db')) \<and>
     DBimpl_Get slow_os (Slice_string [97]) db' [] = Inr (Some [98])"
proof -
  have w: "batch_rep \<lparr>wb_rep = batch_bytes 0 [UPut [97] [98]]\<rparr> 0 [UPut [97] [98]]"
    "WriteBatch_Bytes \<lparr>wb_rep = batch_bytes 0 [UPut [97] [98]]\<rparr> \<le> 2 ^ 17"
    by (simp_all add: batch_rep_def batch_bytes_def mkey_fits_def EncodeVarint32.simps WriteBatch_Bytes_def)
  have "unat (db_last_sequence fresh_db) + length [UPut [97] [98]] < 2 ^ 56" by (simp add: fresh_db_def)
  from db_write_refines_map [OF fresh_db_rep w this, of "\<lambda>n. (n, n + 1)" 7 "0::nat" slow_os "[]"]
  obtain r' n db' where "DBimpl_Write (\<lambda>n. (n, n + 1)) 0 7 \<lparr>wb_rep = batch_bytes 0 [UPut [97] [98]]\<rparr> (0::nat) fresh_db = Inr (Some (r', n, db'))"
    "\<forall>key v. slice_ok key \<and> mkey_fits (slice_content key) [] \<and> fold update_map [UPut [97] [98]] Map.empty (slice_content key) = Some v \<longrightarrow>
       DBimpl_Get slow_os key db' [] = Inr (Some v)" by blast
  then show ?thesis by (auto simp: mkey_fits_def)
qed

lemma DBimpl_Put_Delete_rep:
  assumes "db_rep db M" "db_writers db = []" "db_room junk db" "slice_ok k" "slice_ok v"
    "sl_size k + sl_size v < 2 ^ 16" "0 \<notin> set (slice_content k)" "0 \<notin> set (slice_content v)"
    "unat (db_last_sequence db) + 1 < 2 ^ 56"
  shows "(\<exists>r' n db'. DBimpl_Put rand junk self k v r db = Inr (Some (r', n, db')) \<and>
      db_rep db' (M(slice_content k \<mapsto> slice_content v)) \<and> db_writers db' = []) \<and>
    (\<exists>r' n db'. DBimpl_Delete rand junk self k r db = Inr (Some (r', n, db')) \<and>
      db_rep db' (M(slice_content k \<mapsto> [32])) \<and> db_writers db' = [])"
proof -
  have fits: "mkey_fits (slice_content k) (slice_content v)" "mkey_fits (slice_content k) [32]"
    using assms(4-6) by (simp_all add: mkey_fits_def)
  have hd: "wb_rep WriteBatch_make = replicate 12 0" by (simp add: WriteBatch_make_def WriteBatch_Clear_def kWriteBatchHeader_def)
  obtain p where p: "WriteBatch_Put k v WriteBatch_make = Inr p" "batch_rep p 0 [UPut (slice_content k) (slice_content v)]"
    using batch_rep_Put [OF batch_rep_make assms(4,5)] fits(1) assms(6) by (auto simp: hd)
  obtain d where d: "WriteBatch_Delete k WriteBatch_make = Inr d" "batch_rep d 0 [UDelete (slice_content k)]"
    using batch_rep_Delete [OF batch_rep_make assms(4)] fits(2) assms(6) by (auto simp: hd)
  have sz: "WriteBatch_Bytes p \<le> 2 ^ 17" "WriteBatch_Bytes d \<le> 2 ^ 17"
    using p(2) d(2) assms(4-6) EncodeVarint32_le_5 [of "word_of_nat (sl_size k)"] EncodeVarint32_le_5 [of "word_of_nat (sl_size v)"]
    by (simp_all add: WriteBatch_Bytes_def batch_rep_def batch_bytes_def)
  show ?thesis
    using DBimpl_Write_rep [OF assms(1-3) p(2) sz(1), of rand self r] DBimpl_Write_rep [OF assms(1-3) d(2) sz(2), of rand self r]
      p(1) d(1) assms(7-9)
    by (auto simp: DBimpl_Put_def DBimpl_Delete_def)
qed

text \<open>\<^verbatim>\<open>DBimpl::Put\<close> and \<^verbatim>\<open>DBimpl::Delete\<close> of keys without zero bytes: after a put the key reads as the new
  value; after a delete it still reads, as one blank. Every other key reads as before.\<close>

theorem db_put_delete:
  assumes "db_rep db M" "db_writers db = []" "db_room junk db" "slice_ok k" "slice_ok v"
    "sl_size k + sl_size v < 2 ^ 16" "0 \<notin> set (slice_content k)" "0 \<notin> set (slice_content v)"
    "unat (db_last_sequence db) + 1 < 2 ^ 56"
  shows "(\<exists>r' n db'. DBimpl_Put rand junk self k v r db = Inr (Some (r', n, db')) \<and>
      db_rep db' (M(slice_content k \<mapsto> slice_content v)) \<and> DBimpl_Get os k db' x = Inr (Some (slice_content v))) \<and>
    (\<exists>r' n db'. DBimpl_Delete rand junk self k r db = Inr (Some (r', n, db')) \<and>
      db_rep db' (M(slice_content k \<mapsto> [32])) \<and> DBimpl_Get os k db' x = Inr (Some [32]))"
  using DBimpl_Put_Delete_rep [OF assms, of rand self r] DBimpl_Get_rep [OF _ assms(4), of _ _ os x] assms(4,6)
  by (auto simp: mkey_fits_def)

theorem db_put_delete_witness:
  "(\<exists>r' n db'. DBimpl_Put (\<lambda>n. (n, n + 1)) 0 7 (Slice_string [97]) (Slice_string [98]) (0::nat) fresh_db = Inr (Some (r', n, db')) \<and>
      db_rep db' (Map.empty(slice_content (Slice_string [97]) \<mapsto> slice_content (Slice_string [98]))) \<and>
      DBimpl_Get slow_os (Slice_string [97]) db' [] = Inr (Some (slice_content (Slice_string [98])))) \<and>
    (\<exists>r' n db'. DBimpl_Delete (\<lambda>n. (n, n + 1)) 0 7 (Slice_string [97]) (0::nat) fresh_db = Inr (Some (r', n, db')) \<and>
      db_rep db' (Map.empty(slice_content (Slice_string [97]) \<mapsto> [32])) \<and>
      DBimpl_Get slow_os (Slice_string [97]) db' [] = Inr (Some [32]))"
  by (rule db_put_delete [OF fresh_db_rep]) (simp_all add: fresh_db_def)

text \<open>C24: \<^verbatim>\<open>MakeRoomForWrite\<close> ends in every state: it sets at most one memtable aside and starts at most one
  compaction thread, keeps the map, the queue and the sequence number, and gives room exactly when
  the memtable is below its limit or can be set aside for a new one that is (whose size is whatever
  the memory of the new object held).\<close>

theorem make_room:
  assumes "db_rep db M"
  shows "\<exists>room db' n. MakeRoomForWrite junk db = (room, db', n) \<and> n \<le> 1 \<and> db_rep db' M \<and> (room \<longleftrightarrow> db_room junk db) \<and>
    db_writers db' = db_writers db \<and> db_last_sequence db' = db_last_sequence db \<and> db_file_metas db' = db_file_metas db"
proof -
  obtain room db' n where r: "MakeRoomForWrite junk db = (room, db', n)" by (metis prod_cases3)
  then have "n \<le> 1" "room \<longleftrightarrow> db_room junk db" by (auto simp: MakeRoom_eq db_room_def Let_def split: if_splits)
  then show ?thesis using r MakeRoom_rep [OF assms r] by auto
qed

theorem make_room_witness:
  "\<exists>room db' n. MakeRoomForWrite 5000 (fresh_db\<lparr>db_memtable := Memtable_make 4096\<rparr>) = (room, db', n) \<and> n \<le> 1 \<and>
    db_rep db' Map.empty \<and> \<not> room"
proof -
  have "db_rep (fresh_db\<lparr>db_memtable := Memtable_make 4096\<rparr>) Map.empty"
    using mem_state_make [of 4096 1] by (auto simp: db_rep_def fresh_db_def)
  from make_room [OF this, of 5000] show ?thesis
    by (auto simp: db_room_def kMaxMemtableSize_def fresh_db_def Memtable_EstimatedSize_make)
qed

text \<open>C22: a group commit loses the updates of all writers but the first: with several writers in the queue whose
  batches fit one group, the leader replays only its own batch, yet takes all of them from the
  queue and marks the others as done.\<close>

theorem group_commit_drops_followers:
  assumes "db_rep db M" "db_writers db = first # ws" "batch_rep (wr_batch first) p us"
    "\<forall>w\<in>set ws. \<exists>q vs. batch_rep (wr_batch w) q vs \<and> length us + length vs < 2 ^ 31"
    "WriteBatch_Bytes (wr_batch first) \<le> 2 ^ 17" "(\<Sum>w\<leftarrow>ws. WriteBatch_Bytes (wr_batch w)) \<le> 2 ^ 17"
    "distinct (map wr_id (first # ws))" "unat (db_last_sequence db) + length us < 2 ^ 56"
  shows "\<exists>r' db'. Write_group rand (wr_id first) r db = Inr (r', map wr_id ws, db') \<and> db_writers db' = [] \<and>
    db_file_metas db' = db_file_metas db \<and> db_rep db' (fold update_map us M)"
  using Write_group_followers [OF assms, of rand r] by blast

theorem group_commit_drops_followers_witness:
  "let w = \<lambda>k. \<lparr>wb_rep = batch_bytes 0 [UPut [k] [k]]\<rparr>;
       db = fresh_db\<lparr>db_writers := [Writer_make 1 (w 97), Writer_make 2 (w 98)]\<rparr> in
   \<exists>r' db'. Write_group (\<lambda>n. (n, n + 1)) 1 (0::nat) db = Inr (r', [2], db') \<and>
     DBimpl_Get slow_os (Slice_string [97]) db' [] = Inr (Some [97]) \<and> DBimpl_Get slow_os (Slice_string [98]) db' [] = Inr None"
proof -
  define w where "w k = \<lparr>wb_rep = batch_bytes 0 [UPut [k] [k]]\<rparr>" for k
  have w: "batch_rep (w k) 0 [UPut [k] [k]]" "WriteBatch_Bytes (w k) \<le> 2 ^ 16" for k
    by (simp_all add: w_def batch_rep_def batch_bytes_def mkey_fits_def EncodeVarint32.simps WriteBatch_Bytes_def)
  let ?db = "fresh_db\<lparr>db_writers := [Writer_make 1 (w 97), Writer_make 2 (w 98)]\<rparr>"
  have id: "wr_id (Writer_make i b) = i" "wr_batch (Writer_make i b) = b" for i b by (simp_all add: Writer_make_def)
  have ws: "\<forall>x\<in>set [Writer_make 2 (w 98)]. \<exists>q vs. batch_rep (wr_batch x) q vs \<and> length [UPut [97] [97]] + length vs < 2 ^ 31"
    using w(1) [of 98] by (intro ballI exI [of _ "0::u64"] exI [of _ "[UPut [98] [98]]"]) (auto simp: id)
  have "\<exists>r' db'. Write_group (\<lambda>n. (n, n + 1)) (wr_id (Writer_make 1 (w 97))) (0::nat) ?db = Inr (r', map wr_id [Writer_make 2 (w 98)], db') \<and>
      db_writers db' = [] \<and> db_file_metas db' = db_file_metas ?db \<and> db_rep db' (fold update_map [UPut [97] [97]] Map.empty)"
    by (rule group_commit_drops_followers [where p = 0 and M = Map.empty, OF _ _ _ ws])
       (use w [of 97] w(2) [of 98] fresh_db_rep(1) in \<open>simp_all add: id\<close>, simp add: fresh_db_def)
  then obtain r' db' where g: "Write_group (\<lambda>n. (n, n + 1)) 1 (0::nat) ?db = Inr (r', [2], db')"
    "db_rep db' [[97] \<mapsto> [97]]" "db_file_metas db' = []" by (auto simp: id fresh_db_def)
  have "DBimpl_Get slow_os (Slice_string [97]) db' [] = Inr (Some [97])" "DBimpl_Get slow_os (Slice_string [98]) db' [] = Inr None"
    using g(3) DBimpl_Get_rep [OF g(2), of "Slice_string [97]" slow_os "[]"] DBimpl_Get_rep [OF g(2), of "Slice_string [98]" slow_os "[]"]
    by (simp_all add: mkey_fits_def)
  then show ?thesis using g(1) by (auto simp: w_def Let_def)
qed

end
