(* ===== verification/Transitions.thy ===== *)
theory Transitions
  imports KPrelude
begin

text \<open>
  Transition systems, as interfaces of the theories about threads: a system given by its step relation and an
  invariant of it, and a system whose steps decrease a measure.
\<close>

text \<open>The invariant holds at the start, and every step keeps it.\<close>

locale invariant_system =
  fixes init :: "'s \<Rightarrow> bool" and step :: "'s \<Rightarrow> 's \<Rightarrow> bool" and inv :: "'s \<Rightarrow> bool"
  assumes inv_init: "init s \<Longrightarrow> inv s"
    and inv_step: "inv s \<Longrightarrow> step s t \<Longrightarrow> inv t"
begin

lemma inv_steps: "step\<^sup>*\<^sup>* s t \<Longrightarrow> inv s \<Longrightarrow> inv t"
  by (induction rule: rtranclp_induct) (auto intro: inv_step)

lemma reachable_inv: "init s \<Longrightarrow> step\<^sup>*\<^sup>* s t \<Longrightarrow> inv t"
  using inv_init inv_steps by blast

end

text \<open>The same with a phase of the system that no step leaves and in which every step decreases \<open>rank\<close>.\<close>

locale terminating_system = invariant_system +
  fixes phase :: "'s \<Rightarrow> bool" and rank :: "'s \<Rightarrow> nat"
  assumes phase_step: "inv s \<Longrightarrow> phase s \<Longrightarrow> step s t \<Longrightarrow> phase t"
    and rank_step: "inv s \<Longrightarrow> phase s \<Longrightarrow> step s t \<Longrightarrow> rank t < rank s"
begin

lemma run_bounded: "(step ^^ k) s t \<Longrightarrow> inv s \<Longrightarrow> phase s \<Longrightarrow> k + rank t \<le> rank s"
proof (induction k arbitrary: t)
  case (Suc k)
  then obtain u where u: "(step ^^ k) s u" "step u t" by auto
  have "step\<^sup>*\<^sup>* s v \<Longrightarrow> inv s \<Longrightarrow> phase s \<Longrightarrow> inv v \<and> phase v" for v
    by (induction rule: rtranclp_induct) (auto intro: inv_step phase_step)
  then have "inv u" "phase u" using u(1) Suc.prems by (auto dest: relpowp_imp_rtranclp)
  then show ?case using Suc.IH [OF u(1)] Suc.prems rank_step u(2) by fastforce
qed simp

lemma run_ends: "inv s \<Longrightarrow> phase s \<Longrightarrow> \<exists>t. step\<^sup>*\<^sup>* s t \<and> inv t \<and> phase t \<and> (\<nexists>u. step t u)"
proof (induction "rank s" arbitrary: s rule: less_induct)
  case less
  show ?case
  proof (cases "\<exists>u. step s u")
    case True
    then obtain u where u: "step s u" ..
    then obtain t where "step\<^sup>*\<^sup>* u t" "inv t" "phase t" "\<nexists>v. step t v"
      using less.hyps [of u] less.prems rank_step inv_step phase_step by blast
    then show ?thesis using u by (meson converse_rtranclp_into_rtranclp)
  qed (use less.prems in blast)
qed

end

text \<open>Sums over a list in which one element changes.\<close>

lemma sum_list_map_update:
  fixes f :: "'a \<Rightarrow> 'b::comm_monoid_add"
  shows "i < length xs \<Longrightarrow> f (xs ! i) + sum_list (map f (xs[i := x])) = f x + sum_list (map f xs)"
proof (induction xs arbitrary: i)
  case (Cons a xs)
  then show ?case by (cases i) (auto simp: ac_simps)
qed simp

end
