(* ===== verification/DBThreads.thy ===== *)
theory DBThreads
  imports DBImpls Transitions
begin

text \<open>
  The threads of a database: clients in \<^verbatim>\<open>DBimpl::Write\<close> and the detached threads in \<^verbatim>\<open>DBimpl::BackGroundCall\<close>
  (\<^verbatim>\<open>db_impl.cc\<close>), as a step relation. \<^verbatim>\<open>rwlock_\<close> is held from the start of \<^verbatim>\<open>Write\<close> to its end, also in its two
  waits: they wait with \<^verbatim>\<open>cv_lock_\<close>, a mutex that nobody locks, and do not release \<^verbatim>\<open>rwlock_\<close>. A wait may end
  at any time, by a notification or spuriously. \<^verbatim>\<open>cv_lock_\<close> itself, which is unlocked without being
  locked, is taken to have no effect.

  A lookup holds the lock in shared mode and changes nothing; it happens in a state where no thread
  holds the lock.
\<close>

text \<open>
  A writer wants the lock, is in \<^verbatim>\<open>MakeRoomForWrite\<close>, waits there, is after it, waits behind another writer, or has
  returned; a background thread wants the lock or has returned.
\<close>

datatype pc = WantWrite | InRoom | RoomWait | InGroup | CvWait | Written | WantCompact | Compacted

text \<open>The index of a thread stands for the address of its \<^verbatim>\<open>Writer\<close>. \<open>th_updates\<close> is what its batch stands for.\<close>

record thread =
  th_pc :: pc
  th_batch :: WriteBatch
  th_done :: bool
  th_updates :: "update list"

definition writer_thread :: "WriteBatch \<Rightarrow> update list \<Rightarrow> thread" where
  "writer_thread w us = \<lparr>th_pc = WantWrite, th_batch = w, th_done = False, th_updates = us\<rparr>"

definition compaction_thread :: thread where
  "compaction_thread = \<lparr>th_pc = WantCompact, th_batch = WriteBatch_make, th_done = False, th_updates = []\<rparr>"

text \<open>\<open>sy_rwlock\<close> is the thread that holds the lock exclusively; \<open>sy_committed\<close> lists the writers in the order of their commits.\<close>

record ('r, 'w) system =
  sy_db :: DBimpl
  sy_rwlock :: "nat option"
  sy_threads :: "thread list"
  sy_rand :: 'r
  sy_disk :: 'w
  sy_committed :: "nat list"

definition set_pc :: "nat \<Rightarrow> pc \<Rightarrow> thread list \<Rightarrow> thread list" where
  "set_pc t c ths = ths[t := (ths ! t)\<lparr>th_pc := c\<rparr>]"

text \<open>The start of \<^verbatim>\<open>Write\<close>, with the lock: the writer is queued, and waits unless it is the first.\<close>

definition Write_enter :: "nat \<Rightarrow> ('r, 'w) system \<Rightarrow> ('r, 'w) system" where
  "Write_enter t s =
     (let db = sy_db s; db' = db\<lparr>db_writers := db_writers db @ [Writer_make t (th_batch (sy_threads s ! t))]\<rparr>;
          c = (if t \<noteq> wr_id (hd (db_writers db')) then CvWait else InRoom) in
      s\<lparr>sy_db := db', sy_rwlock := Some t, sy_threads := set_pc t c (sy_threads s)\<rparr>)"

text \<open>After the wait behind another writer: a finished writer returns, any other goes on, whether it is the first or not.\<close>

definition Write_woken :: "nat \<Rightarrow> ('r, 'w) system \<Rightarrow> ('r, 'w) system" where
  "Write_woken t s =
     (if th_done (sy_threads s ! t) then s\<lparr>sy_rwlock := None, sy_threads := set_pc t Written (sy_threads s)\<rparr>
      else s\<lparr>sy_threads := set_pc t InRoom (sy_threads s)\<rparr>)"

definition Write_room :: "nat \<Rightarrow> nat \<Rightarrow> ('r, 'w) system \<Rightarrow> ('r, 'w) system" where
  "Write_room junk t s =
     (let (room, db, n) = MakeRoomForWrite junk (sy_db s) in
      s\<lparr>sy_db := db,
        sy_threads := set_pc t (if room then InGroup else RoomWait) (sy_threads s) @ replicate n compaction_thread\<rparr>)"

definition mark_done :: "nat list \<Rightarrow> thread list \<Rightarrow> thread list" where
  "mark_done woken ths = map (\<lambda>(i, th). if i \<in> set woken then th\<lparr>th_done := True\<rparr> else th) (enumerate 0 ths)"

text \<open>The rest of \<^verbatim>\<open>Write\<close>, up to the release of the lock.\<close>

definition Write_commit ::
  "('r \<Rightarrow> nat \<times> 'r) \<Rightarrow> nat \<Rightarrow> ('r, 'w) system \<Rightarrow> ('r, 'w) system res" where
  "Write_commit rand t s =
     rbind (Write_group rand t (sy_rand s) (sy_db s)) (\<lambda>(r, woken, db).
       Inr (s\<lparr>sy_db := db, sy_rwlock := None, sy_rand := r, sy_committed := sy_committed s @ [t],
              sy_threads := set_pc t Written (mark_done woken (sy_threads s))\<rparr>))"

definition Compact_call :: "'w posix \<Rightarrow> bytes \<Rightarrow> nat \<Rightarrow> ('r, 'w) system \<Rightarrow> ('r, 'w) system res" where
  "Compact_call os buf t s =
     rbind (BackGroundCall os buf (sy_db s) (sy_disk s)) (\<lambda>(db, w).
       Inr (s\<lparr>sy_db := db, sy_disk := w, sy_threads := set_pc t Compacted (sy_threads s)\<rparr>))"

text \<open>
  The steps. Clients call \<^verbatim>\<open>Write\<close> with batches that the operations of a write batch have built. A failed
  assertion or a bad access ends the program; such a step is not there.
\<close>

inductive sys_step :: "('r \<Rightarrow> nat \<times> 'r) \<Rightarrow> 'w posix \<Rightarrow> ('r, 'w) system \<Rightarrow> ('r, 'w) system \<Rightarrow> bool" for rand os where
  call: "batch_rep w q us \<Longrightarrow> WriteBatch_Bytes w \<le> 2 ^ 17 \<Longrightarrow>
    sys_step rand os s (s\<lparr>sy_threads := sy_threads s @ [writer_thread w us]\<rparr>)"
| enter: "t < length (sy_threads s) \<Longrightarrow> th_pc (sy_threads s ! t) = WantWrite \<Longrightarrow> sy_rwlock s = None \<Longrightarrow>
    sys_step rand os s (Write_enter t s)"
| woken: "t < length (sy_threads s) \<Longrightarrow> th_pc (sy_threads s ! t) = CvWait \<Longrightarrow> sys_step rand os s (Write_woken t s)"
| room: "t < length (sy_threads s) \<Longrightarrow> th_pc (sy_threads s ! t) = InRoom \<or> th_pc (sy_threads s ! t) = RoomWait \<Longrightarrow>
    sys_step rand os s (Write_room junk t s)"
| commit: "t < length (sy_threads s) \<Longrightarrow> th_pc (sy_threads s ! t) = InGroup \<Longrightarrow> Write_commit rand t s = Inr s' \<Longrightarrow>
    sys_step rand os s s'"
| compact: "t < length (sy_threads s) \<Longrightarrow> th_pc (sy_threads s ! t) = WantCompact \<Longrightarrow> sy_rwlock s = None \<Longrightarrow>
    Compact_call os buf t s = Inr s' \<Longrightarrow> sys_step rand os s s'"

inductive_cases sys_stepE: "sys_step rand os s s'"

text \<open>A database without threads and writers.\<close>

definition sys_start :: "DBimpl \<Rightarrow> 'r \<Rightarrow> 'w \<Rightarrow> ('r, 'w) system" where
  "sys_start db r w =
     \<lparr>sy_db = db, sy_rwlock = None, sy_threads = [], sy_rand = r, sy_disk = w, sy_committed = []\<rparr>"

section \<open>Mutual exclusion\<close>

definition in_write :: "pc \<Rightarrow> bool" where
  "in_write c \<longleftrightarrow> c = InRoom \<or> c = RoomWait \<or> c = InGroup"

text \<open>
  The holder of the lock is the only thread inside \<^verbatim>\<open>Write\<close>, and the only one in the queue; nobody waits behind
  another writer.
\<close>

definition lock_inv :: "('r, 'w) system \<Rightarrow> bool" where
  "lock_inv s \<longleftrightarrow>
     (\<forall>t<length (sy_threads s). th_pc (sy_threads s ! t) \<noteq> CvWait \<and>
        (in_write (th_pc (sy_threads s ! t)) \<longleftrightarrow> sy_rwlock s = Some t)) \<and>
     (case sy_rwlock s of
        None \<Rightarrow> db_writers (sy_db s) = []
      | Some t \<Rightarrow> t < length (sy_threads s) \<and> db_writers (sy_db s) = [Writer_make t (th_batch (sy_threads s ! t))])"

text \<open>A thread that waits for the compaction has found the memtable full and the other one in place.\<close>

definition wait_inv :: "('r, 'w) system \<Rightarrow> bool" where
  "wait_inv s \<longleftrightarrow>
     (\<forall>t<length (sy_threads s). th_pc (sy_threads s ! t) = RoomWait \<longrightarrow>
        kMaxMemtableSize \<le> Memtable_EstimatedSize (db_memtable (sy_db s)) \<and> db_immutable_memtable (sy_db s) \<noteq> None)"

text \<open>The batches of the threads are well formed, and the committed writers are those that have returned, each once.\<close>

definition thread_ok :: "thread \<Rightarrow> bool" where
  "thread_ok th \<longleftrightarrow> (\<exists>q. batch_rep (th_batch th) q (th_updates th)) \<and> WriteBatch_Bytes (th_batch th) \<le> 2 ^ 17"

definition commit_inv :: "('r, 'w) system \<Rightarrow> bool" where
  "commit_inv s \<longleftrightarrow>
     (\<forall>th\<in>set (sy_threads s). thread_ok th) \<and> distinct (sy_committed s) \<and>
     (\<forall>t. t \<in> set (sy_committed s) \<longleftrightarrow> t < length (sy_threads s) \<and> th_pc (sy_threads s ! t) = Written)"

definition sys_inv :: "('r, 'w) system \<Rightarrow> bool" where
  "sys_inv s \<longleftrightarrow> lock_inv s \<and> wait_inv s \<and> commit_inv s"

lemma length_set_pc [simp]: "length (set_pc t c ths) = length ths"
  by (simp add: set_pc_def)

lemma nth_set_pc [simp]:
  assumes "i < length ths"
  shows "th_pc (set_pc t c ths ! i) = (if i = t then c else th_pc (ths ! i))"
    "th_batch (set_pc t c ths ! i) = th_batch (ths ! i)" "th_updates (set_pc t c ths ! i) = th_updates (ths ! i)"
  using assms by (cases "i = t"; simp add: set_pc_def nth_list_update)+

lemma mark_done_none [simp]: "mark_done [] ths = ths"
  by (simp add: mark_done_def enumerate_eq_zip zip_map2 comp_def split_def)

lemma thread_ok_pc [simp]: "thread_ok (th\<lparr>th_pc := c\<rparr>) = thread_ok th"
  by (simp add: thread_ok_def)

lemma compaction_thread_pc [simp]: "th_pc compaction_thread = WantCompact"
  by (simp add: compaction_thread_def)

lemma compaction_thread_ok [simp]: "thread_ok compaction_thread"
  using batch_rep_make by (auto simp: thread_ok_def compaction_thread_def WriteBatch_Bytes_def WriteBatch_make_def
      WriteBatch_Clear_def kWriteBatchHeader_def)

text \<open>With one writer in the queue the group is that writer, nobody is woken up, and the queue is empty afterwards.\<close>

lemma Write_group_single:
  assumes "db_writers db = [Writer_make t b]" "Write_group rand t r db = Inr (r', woken, db')"
  shows "woken = []" "db_writers db' = []" "db_immutable_memtable db' = db_immutable_memtable db" "db_file_metas db' = db_file_metas db"
  using assms by (auto simp: Write_group_def BuildWriteBatchGroup_def Writer_make_def Let_def split: if_splits)

lemma MakeRoom_frame:
  assumes "MakeRoomForWrite junk db = (room, db', n)"
  shows "db_writers db' = db_writers db" "db_last_sequence db' = db_last_sequence db"
    "room \<or> kMaxMemtableSize \<le> Memtable_EstimatedSize (db_memtable db') \<and> db_immutable_memtable db' \<noteq> None"
  using assms by (auto simp: MakeRoom_eq Let_def Memtable_EstimatedSize_make split: if_splits)

lemma CompactMemtable_frame:
  assumes "CompactMemtable os buf db w = Inr (st, db', w')"
  shows "db_writers db' = db_writers db \<and> db_last_sequence db' = db_last_sequence db \<and> db_memtable db' = db_memtable db \<and>
    db_immutable_memtable db' = db_immutable_memtable db"
proof -
  obtain imm where "db_immutable_memtable db = Some imm" using assms by (cases "db_immutable_memtable db") (auto simp: CompactMemtable_def)
  with assms show ?thesis unfolding CompactMemtable_def Let_def option.case rbind_eq_Inr
    by (auto split: if_splits)
qed

lemma BackGroundCall_frame:
  assumes "BackGroundCall os buf db w = Inr (db', w')"
  shows "db_writers db' = db_writers db" "db_last_sequence db' = db_last_sequence db" "db_memtable db' = db_memtable db"
    "db_immutable_memtable db' = db_immutable_memtable db \<or> db_immutable_memtable db' = None"
  using assms by (auto simp: BackGroundCall_def BackGroundCompaction_def split: if_splits dest!: CompactMemtable_frame)

lemma commit_eq:
  assumes "lock_inv s" "t < length (sy_threads s)" "th_pc (sy_threads s ! t) = InGroup" "Write_commit rand t s = Inr s'"
  shows "\<exists>r db. Write_group rand t (sy_rand s) (sy_db s) = Inr (r, [], db) \<and> db_writers db = [] \<and>
    s' = s\<lparr>sy_db := db, sy_rwlock := None, sy_rand := r, sy_committed := sy_committed s @ [t],
           sy_threads := set_pc t Written (sy_threads s)\<rparr>"
proof -
  have "db_writers (sy_db s) = [Writer_make t (th_batch (sy_threads s ! t))]"
    using assms(1-3) by (auto simp: lock_inv_def in_write_def)
  then show ?thesis using assms(4) Write_group_single by (fastforce simp: Write_commit_def)
qed

lemma lock_holder:
  "lock_inv s \<Longrightarrow> i < length (sy_threads s) \<Longrightarrow> in_write (th_pc (sy_threads s ! i)) \<Longrightarrow> sy_rwlock s = Some i"
  by (auto simp: lock_inv_def)

lemma lock_unique:
  assumes "lock_inv s" "t < length (sy_threads s)" "in_write (th_pc (sy_threads s ! t))"
  shows "\<forall>i<length (sy_threads s). th_pc (sy_threads s ! i) = RoomWait \<longrightarrow> i = t"
  using lock_holder [OF assms] lock_holder [OF assms(1)] by (force simp: in_write_def)

lemma lock_inv_step: "sys_step rand os s s' \<Longrightarrow> lock_inv s \<Longrightarrow> lock_inv s'"
proof (induction rule: sys_step.induct)
  case (call w q us s)
  then show ?case by (auto simp: lock_inv_def nth_append writer_thread_def in_write_def less_Suc_eq split: option.splits)
next
  case (enter t s)
  then show ?case by (auto simp: lock_inv_def Write_enter_def Writer_make_def in_write_def Let_def split: if_splits)
next
  case (woken t s)
  then show ?case by (simp add: lock_inv_def)
next
  case (room t s junk)
  obtain ok db n where r: "MakeRoomForWrite junk (sy_db s) = (ok, db, n)" by (metis prod_cases3)
  have "sy_rwlock s = Some t" using room by (auto simp: lock_inv_def in_write_def)
  then show ?case
    using room MakeRoom_frame [OF r]
    by (auto simp: lock_inv_def Write_room_def r nth_append  in_write_def split: if_splits)
next
  case (commit t s s')
  then have "sy_rwlock s = Some t" by (auto simp: lock_inv_def in_write_def)
  then show ?case using commit commit_eq [OF commit(4,1-3)] by (auto simp: lock_inv_def in_write_def split: if_splits)
next
  case (compact t s buf s')
  then show ?case by (auto simp: lock_inv_def in_write_def Compact_call_def BackGroundCall_frame split: if_splits)
qed

lemma wait_inv_step: "sys_step rand os s s' \<Longrightarrow> lock_inv s \<Longrightarrow> wait_inv s \<Longrightarrow> wait_inv s'"
proof (induction rule: sys_step.induct)
  case (call w q us s)
  then show ?case by (auto simp: wait_inv_def nth_append writer_thread_def less_Suc_eq)
next
  case (enter t s)
  then show ?case by (auto simp: wait_inv_def Write_enter_def Let_def split: if_splits)
next
  case (woken t s)
  then show ?case by (simp add: lock_inv_def)
next
  case (room t s junk)
  obtain ok db n where r: "MakeRoomForWrite junk (sy_db s) = (ok, db, n)" by (metis prod_cases3)
  note one = lock_unique [OF room(3,1)]
  show ?case
    using room(2) one MakeRoom_frame [OF r] by (auto simp: in_write_def wait_inv_def Write_room_def r nth_append  split: if_splits)
next
  case (commit t s s')
  have "\<forall>i<length (sy_threads s). th_pc (sy_threads s ! i) = RoomWait \<longrightarrow> i = t"
    by (rule lock_unique) (use commit in \<open>simp_all add: in_write_def\<close>)
  moreover obtain r db where "s' = s\<lparr>sy_db := db, sy_rwlock := None, sy_rand := r, sy_committed := sy_committed s @ [t],
      sy_threads := set_pc t Written (sy_threads s)\<rparr>"
    using commit_eq [OF commit(4,1-3)] by blast
  ultimately show ?case by (auto simp: wait_inv_def)
next
  case (compact t s buf s')
  have "\<forall>i<length (sy_threads s). th_pc (sy_threads s ! i) \<noteq> RoomWait"
    using compact by (auto simp: lock_inv_def in_write_def)
  then show ?case using compact by (auto simp: wait_inv_def Compact_call_def split: if_splits)
qed

lemma set_set_pc: "th \<in> set (set_pc t c ths) \<Longrightarrow> t < length ths \<Longrightarrow> \<exists>th'\<in>set ths. th = th'\<lparr>th_pc := c\<rparr> \<or> th = th'"
  using set_update_subset_insert [of ths t "(ths ! t)\<lparr>th_pc := c\<rparr>"] nth_mem [of t ths] unfolding set_pc_def by blast

lemma commit_inv_step: "sys_step rand os s s' \<Longrightarrow> lock_inv s \<Longrightarrow> commit_inv s \<Longrightarrow> commit_inv s'"
proof (induction rule: sys_step.induct)
  case (call w q us s)
  then show ?case by (auto simp: commit_inv_def nth_append writer_thread_def less_Suc_eq thread_ok_def)
next
  case (enter t s)
  then show ?case by (auto simp: commit_inv_def Write_enter_def Let_def dest!: set_set_pc split: if_splits)
next
  case (woken t s)
  then show ?case by (simp add: lock_inv_def)
next
  case (room t s junk)
  obtain ok db n where r: "MakeRoomForWrite junk (sy_db s) = (ok, db, n)" by (metis prod_cases3)
  show ?case using room by (auto simp: commit_inv_def Write_room_def r nth_append  dest!: set_set_pc split: if_splits)
next
  case (commit t s s')
  then show ?case using commit_eq [OF commit(4,1-3)] by (auto simp: commit_inv_def dest!: set_set_pc split: if_splits)
next
  case (compact t s buf s')
  then show ?case by (auto simp: commit_inv_def Compact_call_def dest!: set_set_pc split: if_splits)
qed

section \<open>Refinement of a map\<close>

definition commit_log :: "('r, 'w) system \<Rightarrow> update list" where
  "commit_log s = concat (map (\<lambda>t. th_updates (sy_threads s ! t)) (sy_committed s))"

text \<open>
  The map in memory is what the committed updates, in the order of the commits, give, but for what a finished
  compaction took away. The sequence number counts the updates.
\<close>

definition map_inv :: "(bytes \<rightharpoonup> bytes) \<Rightarrow> u64 \<Rightarrow> ('r, 'w) system \<Rightarrow> bool" where
  "map_inv M0 q0 s \<longleftrightarrow>
     (unat q0 + length (commit_log s) < 2 ^ 56 \<longrightarrow>
       db_last_sequence (sy_db s) = q0 + word_of_nat (length (commit_log s)) \<and>
       (\<exists>M. db_rep (sy_db s) M \<and> M \<subseteq>\<^sub>m fold update_map (commit_log s) M0 \<and>
          ((\<forall>th\<in>set (sy_threads s). th_pc th \<noteq> Compacted) \<longrightarrow> M = fold update_map (commit_log s) M0)))"

lemma commit_log_same:
  assumes "sy_committed s' = sy_committed s" "\<forall>t\<in>set (sy_committed s). th_updates (sy_threads s' ! t) = th_updates (sy_threads s ! t)"
  shows "commit_log s' = commit_log s"
  using assms by (auto simp: commit_log_def intro!: arg_cong [where f = concat])

lemma map_inv_same:
  assumes "map_inv M0 q0 s" "commit_log s' = commit_log s" "db_last_sequence (sy_db s') = db_last_sequence (sy_db s)"
    "\<And>M. db_rep (sy_db s) M \<Longrightarrow> db_rep (sy_db s') M"
    "\<forall>th\<in>set (sy_threads s). th_pc th = Compacted \<longrightarrow> (\<exists>th'\<in>set (sy_threads s'). th_pc th' = Compacted)"
  shows "map_inv M0 q0 s'"
  using assms unfolding map_inv_def by metis

lemma fold_update_map_le: "M \<subseteq>\<^sub>m N \<Longrightarrow> fold update_map us M \<subseteq>\<^sub>m fold update_map us N"
proof (induction us arbitrary: M N)
  case (Cons u us)
  then show ?case by (cases u) (auto intro!: Cons.IH map_le_upd)
qed simp

text \<open>Threads keep their place, and one that has finished a compaction stays so.\<close>

lemma compacted_stays:
  assumes "th \<in> set ths" "th_pc th = Compacted" "t < length ths" "th_pc (ths ! t) \<noteq> Compacted"
  shows "\<exists>th'\<in>set (set_pc t c ths). th_pc th' = Compacted"
proof -
  obtain i where i: "i < length ths" "ths ! i = th" using assms(1) by (auto simp: in_set_conv_nth)
  then have "th_pc (set_pc t c ths ! i) = Compacted" using assms(2-4) by auto
  then show ?thesis using i(1) by (metis length_set_pc nth_mem)
qed

lemma commit_log_commit:
  assumes "lock_inv s" "commit_inv s" "t < length (sy_threads s)" "th_pc (sy_threads s ! t) = InGroup" "Write_commit rand t s = Inr s'"
  shows "commit_log s' = commit_log s @ th_updates (sy_threads s ! t)" "sy_threads s' = set_pc t Written (sy_threads s)"
    "sy_rwlock s' = None" "sy_committed s' = sy_committed s @ [t]"
proof -
  have "\<forall>i\<in>set (sy_committed s). th_updates (set_pc t Written (sy_threads s) ! i) = th_updates (sy_threads s ! i)"
    using assms(2) by (simp add: commit_inv_def)
  then show "commit_log s' = commit_log s @ th_updates (sy_threads s ! t)" "sy_threads s' = set_pc t Written (sy_threads s)"
    "sy_rwlock s' = None" "sy_committed s' = sy_committed s @ [t]"
    using commit_eq [OF assms(1,3-5)] assms(3) by (auto simp: commit_log_def intro!: arg_cong [where f = concat])
qed

text \<open>The holder of the lock commits its own batch.\<close>

lemma commit_group:
  assumes "lock_inv s" "commit_inv s" "t < length (sy_threads s)" "th_pc (sy_threads s ! t) = InGroup" "db_rep (sy_db s) M"
    "unat (db_last_sequence (sy_db s)) + length (th_updates (sy_threads s ! t)) < 2 ^ 56"
  shows "\<exists>r db. Write_group rand t (sy_rand s) (sy_db s) = Inr (r, [], db) \<and> db_rep db (fold update_map (th_updates (sy_threads s ! t)) M) \<and>
    db_last_sequence db = db_last_sequence (sy_db s) + word_of_nat (length (th_updates (sy_threads s ! t)))"
proof -
  let ?th = "sy_threads s ! t"
  have "thread_ok ?th" using assms(2,3) by (simp add: commit_inv_def)
  then obtain p where w: "batch_rep (th_batch ?th) p (th_updates ?th)" "WriteBatch_Bytes (th_batch ?th) \<le> 2 ^ 17"
    by (auto simp: thread_ok_def)
  have wr: "db_writers (sy_db s) = [Writer_make t (th_batch ?th)]"
    using assms(1,3,4) by (auto simp: lock_inv_def in_write_def)
  show ?thesis
    using Write_group_followers [OF assms(5) wr _ _ _ _ _ assms(6), of p rand "sy_rand s"] w by (auto simp: Writer_make_def)
qed

lemma map_inv_commit:
  assumes inv: "lock_inv s" "commit_inv s" "map_inv M0 q0 s" and t: "t < length (sy_threads s)" "th_pc (sy_threads s ! t) = InGroup"
    and c: "Write_commit rand t s = Inr s'"
  shows "map_inv M0 q0 s'"
proof -
  let ?us = "th_updates (sy_threads s ! t)"
  note log = commit_log_commit [OF inv(1,2) t c]
  have stay: "(\<forall>th\<in>set (sy_threads s'). th_pc th \<noteq> Compacted) \<longrightarrow> (\<forall>th\<in>set (sy_threads s). th_pc th \<noteq> Compacted)"
    using compacted_stays [of _ "sy_threads s" t Written] t unfolding log(2) by fastforce
  show ?thesis unfolding map_inv_def
  proof (intro impI)
    assume b: "unat q0 + length (commit_log s') < 2 ^ 56"
    then obtain M where M: "db_last_sequence (sy_db s) = q0 + word_of_nat (length (commit_log s))" "db_rep (sy_db s) M"
      "M \<subseteq>\<^sub>m fold update_map (commit_log s) M0"
      "(\<forall>th\<in>set (sy_threads s). th_pc th \<noteq> Compacted) \<longrightarrow> M = fold update_map (commit_log s) M0"
      using inv(3) by (auto simp: map_inv_def log(1))
    have q: "unat (db_last_sequence (sy_db s)) + length ?us < 2 ^ 56"
      using b by (simp add: M(1) log(1) unat_word_ariths unat_of_nat)
    have db: "db_rep (sy_db s') (fold update_map ?us M)"
      "db_last_sequence (sy_db s') = db_last_sequence (sy_db s) + word_of_nat (length ?us)"
      using commit_group [OF inv(1,2) t M(2) q, of rand] c by (auto simp: Write_commit_def)
    show "db_last_sequence (sy_db s') = q0 + word_of_nat (length (commit_log s')) \<and>
       (\<exists>M. db_rep (sy_db s') M \<and> M \<subseteq>\<^sub>m fold update_map (commit_log s') M0 \<and>
          ((\<forall>th\<in>set (sy_threads s'). th_pc th \<noteq> Compacted) \<longrightarrow> M = fold update_map (commit_log s') M0))"
      using db M stay fold_update_map_le [OF M(3), of ?us] unfolding log(1)
      by (intro conjI exI [of _ "fold update_map ?us M"]) (auto simp: ac_simps)
  qed
qed

lemma map_inv_step:
  "sys_step rand os s s' \<Longrightarrow> sys_inv s \<Longrightarrow> map_inv M0 q0 s \<Longrightarrow> map_inv M0 q0 s'"
proof (induction rule: sys_step.induct)
  case (call w q us s)
  then show ?case
    by (intro map_inv_same [OF call(4)] commit_log_same) (auto simp: sys_inv_def commit_inv_def nth_append)
next
  case (enter t s)
  let ?s = "Write_enter t s"
  have s: "sy_committed ?s = sy_committed s" "\<exists>c. sy_threads ?s = set_pc t c (sy_threads s)" "\<exists>ws. sy_db ?s = (sy_db s)\<lparr>db_writers := ws\<rparr>"
    by (auto simp: Write_enter_def Let_def)
  have "\<forall>th\<in>set (sy_threads s). th_pc th = Compacted \<longrightarrow> (\<exists>th'\<in>set (sy_threads ?s). th_pc th' = Compacted)"
    using s(2) compacted_stays [of _ "sy_threads s" t] enter by fastforce
  then show ?case
    using enter s by (intro map_inv_same [OF enter(5)] commit_log_same) (auto simp: sys_inv_def commit_inv_def)
next
  case (woken t s)
  then show ?case by (simp add: sys_inv_def lock_inv_def)
next
  case (room t s junk)
  obtain ok db n where r: "MakeRoomForWrite junk (sy_db s) = (ok, db, n)" by (metis prod_cases3)
  have "\<forall>th\<in>set (sy_threads s). th_pc th = Compacted \<longrightarrow> (\<exists>th'\<in>set (sy_threads (Write_room junk t s)). th_pc th' = Compacted)"
    using compacted_stays [of _ "sy_threads s" t] room(1,2) by (fastforce simp: Write_room_def r)
  then show ?case
    using room r MakeRoom_rep [OF _ r] MakeRoom_frame [OF r]
    by (intro map_inv_same [OF room(4)] commit_log_same) (auto simp: Write_room_def sys_inv_def commit_inv_def nth_append)
next
  case (commit t s s')
  then show ?case using map_inv_commit by (auto simp: sys_inv_def)
next
  case (compact t s buf s')
  obtain db w where b: "BackGroundCall os buf (sy_db s) (sy_disk s) = Inr (db, w)"
    "s' = s\<lparr>sy_db := db, sy_disk := w, sy_threads := set_pc t Compacted (sy_threads s)\<rparr>"
    using compact(4) by (auto simp: Compact_call_def)
  have log: "commit_log s' = commit_log s"
    by (rule commit_log_same) (use compact(5) b(2) in \<open>auto simp: sys_inv_def commit_inv_def\<close>)
  have "\<exists>N. db_rep db N \<and> N \<subseteq>\<^sub>m M" if "db_rep (sy_db s) M" for M
    using BackGroundCall_frame [OF b(1)] that by (fastforce simp: db_rep_def map_le_def intro: map_add_le_mapI)
  moreover have "\<exists>th\<in>set (sy_threads s'). th_pc th = Compacted"
    using compact(1) b(2) by (auto simp: in_set_conv_nth intro!: bexI [of _ "set_pc t Compacted (sy_threads s) ! t"])
  ultimately show ?case
    using compact(6) BackGroundCall_frame(2) [OF b(1)] b(2) unfolding map_inv_def log by (auto intro: map_le_trans)
qed

section \<open>Waiting for the compaction\<close>

text \<open>A thread that waits with the lock, and what does not change while it does.\<close>

definition stuck_at :: "nat \<Rightarrow> ('r, 'w) system \<Rightarrow> ('r, 'w) system \<Rightarrow> bool" where
  "stuck_at t s0 s \<longleftrightarrow>
     t < length (sy_threads s) \<and> th_pc (sy_threads s ! t) = RoomWait \<and> sy_rwlock s = Some t \<and>
     sy_db s = sy_db s0 \<and> sy_disk s = sy_disk s0 \<and> sy_committed s = sy_committed s0 \<and>
     kMaxMemtableSize \<le> Memtable_EstimatedSize (db_memtable (sy_db s0)) \<and> db_immutable_memtable (sy_db s0) \<noteq> None"

lemma stuck_step: "sys_step rand os s s' \<Longrightarrow> sys_inv s \<Longrightarrow> stuck_at t s0 s \<Longrightarrow> stuck_at t s0 s'"
proof (induction rule: sys_step.induct)
  case (call w q us s)
  then show ?case by (auto simp: stuck_at_def nth_append)
next
  case (enter u s)
  then show ?case by (simp add: stuck_at_def)
next
  case (woken u s)
  then show ?case by (simp add: sys_inv_def lock_inv_def)
next
  case (room u s junk)
  have "sy_rwlock s = Some u" by (rule lock_holder) (use room in \<open>auto simp: in_write_def sys_inv_def\<close>)
  then show ?case using room by (auto simp: stuck_at_def Write_room_def MakeRoom_eq set_pc_def nth_append not_less)
next
  case (commit u s s')
  have "sy_rwlock s = Some u" by (rule lock_holder) (use commit in \<open>auto simp: in_write_def sys_inv_def\<close>)
  then show ?case using commit by (auto simp: stuck_at_def)
next
  case (compact u s buf s')
  then show ?case by (simp add: stuck_at_def)
qed


section \<open>The interpretations\<close>

definition sys_init :: "(bytes \<rightharpoonup> bytes) \<Rightarrow> u64 \<Rightarrow> ('r, 'w) system \<Rightarrow> bool" where
  "sys_init M0 q0 s \<longleftrightarrow>
     (\<exists>db r w. s = sys_start db r w \<and> db_rep db M0 \<and> db_last_sequence db = q0 \<and> db_writers db = [])"

lemma sys_init_start: "db_rep db M0 \<Longrightarrow> db_last_sequence db = q0 \<Longrightarrow> db_writers db = [] \<Longrightarrow> sys_init M0 q0 (sys_start db r w)"
  unfolding sys_init_def by blast

lemma sys_inv_step: "sys_inv s \<Longrightarrow> sys_step rand os s s' \<Longrightarrow> sys_inv s'"
  using lock_inv_step wait_inv_step commit_inv_step unfolding sys_inv_def by blast

interpretation db_sys: invariant_system "sys_init M0 q0" "sys_step rand os" "\<lambda>s. sys_inv s \<and> map_inv M0 q0 s"
proof unfold_locales
  fix s :: "('a, 'b) system"
  assume "sys_init M0 q0 s"
  then show "sys_inv s \<and> map_inv M0 q0 s"
    by (auto simp: sys_init_def sys_start_def sys_inv_def lock_inv_def wait_inv_def commit_inv_def map_inv_def commit_log_def)
qed (use sys_inv_step map_inv_step in blast)

interpretation db_stuck: invariant_system "\<lambda>s. sys_inv s \<and> stuck_at t s s \<and> s = s0" "sys_step rand os" "\<lambda>s. sys_inv s \<and> stuck_at t s0 s"
  by unfold_locales (auto intro: sys_inv_step stuck_step)

text \<open>A writer that gets the lock and finds room returns, after three steps.\<close>

lemma writer_commits:
  assumes inv: "sys_inv s" "map_inv M0 q0 s" and t: "t < length (sy_threads s)" "th_pc (sy_threads s ! t) = WantWrite"
    and lock: "sy_rwlock s = None" and room: "db_room junk (sy_db s)"
    and q: "unat q0 + length (commit_log s) + length (th_updates (sy_threads s ! t)) < 2 ^ 56"
  defines "s2 \<equiv> Write_room junk t (Write_enter t s)"
  shows "sys_step rand os s (Write_enter t s)" "sys_step rand os (Write_enter t s) s2"
    "t < length (sy_threads s2)" "th_pc (sy_threads s2 ! t) = InGroup" "\<exists>s'. Write_commit rand t s2 = Inr s'" "lock_inv s2" "commit_inv s2"
    "commit_log s2 = commit_log s" "th_updates (sy_threads s2 ! t) = th_updates (sy_threads s ! t)" "sy_committed s2 = sy_committed s"
    "\<exists>n. sy_threads s2 = set_pc t InGroup (set_pc t InRoom (sy_threads s)) @ replicate n compaction_thread"
proof -
  let ?th = "sy_threads s ! t" and ?s1 = "Write_enter t s"
  let ?db1 = "(sy_db s)\<lparr>db_writers := [Writer_make t (th_batch ?th)]\<rparr>"
  have w0: "db_writers (sy_db s) = []" using inv(1) lock by (simp add: sys_inv_def lock_inv_def)
  have s1: "?s1 = s\<lparr>sy_db := ?db1, sy_rwlock := Some t, sy_threads := set_pc t InRoom (sy_threads s)\<rparr>"
    by (simp add: Write_enter_def w0 Writer_make_def)
  show step1: "sys_step rand os s ?s1" by (rule sys_step.enter [OF t lock])
  show step2: "sys_step rand os ?s1 s2" unfolding s2_def by (rule sys_step.room) (simp_all add: s1 t)
  obtain db2 n where r: "MakeRoomForWrite junk ?db1 = (True, db2, n)"
    using room by (cases "Memtable_EstimatedSize (db_memtable (sy_db s)) < kMaxMemtableSize") (auto simp: MakeRoom_eq db_room_def Let_def)
  have s2: "sy_db s2 = db2" "sy_rand s2 = sy_rand s" "sy_committed s2 = sy_committed s"
    "sy_threads s2 = set_pc t InGroup (set_pc t InRoom (sy_threads s)) @ replicate n compaction_thread"
    by (simp_all add: s2_def Write_room_def s1 r)
  show ths: "\<exists>n. sy_threads s2 = set_pc t InGroup (set_pc t InRoom (sy_threads s)) @ replicate n compaction_thread" using s2(4) by blast
  have inv2: "sys_inv s2" "map_inv M0 q0 s2" using inv step1 step2 sys_inv_step map_inv_step by blast+
  show t2: "t < length (sy_threads s2)" "th_pc (sy_threads s2 ! t) = InGroup" "th_updates (sy_threads s2 ! t) = th_updates ?th"
    using t(1) by (simp_all add: s2 nth_append)
  show log2: "commit_log s2 = commit_log s"
    using inv(1) by (intro commit_log_same) (auto simp: s2 nth_append sys_inv_def commit_inv_def)
  obtain M where M: "db_rep db2 M" "db_last_sequence db2 = q0 + word_of_nat (length (commit_log s))"
    using inv2(2) q by (auto simp: map_inv_def log2 s2)
  have q2: "unat (db_last_sequence (sy_db s2)) + length (th_updates (sy_threads s2 ! t)) < 2 ^ 56"
    unfolding t2(3) s2(1) using q by (simp add: M(2) unat_word_ariths unat_of_nat)
  show i: "lock_inv s2" "commit_inv s2" using inv2(1) by (simp_all add: sys_inv_def)
  show "\<exists>s'. Write_commit rand t s2 = Inr s'"
    using commit_group [OF i t2(1,2) _ q2, of M rand] M(1) by (auto simp: Write_commit_def s2)
qed (simp add: s2_def Write_room_def Write_enter_def Let_def split: prod.splits)

lemma writer_run:
  assumes "sys_inv s" "map_inv M0 q0 s" "t < length (sy_threads s)" "th_pc (sy_threads s ! t) = WantWrite" "sy_rwlock s = None"
    "db_room junk (sy_db s)" "unat q0 + length (commit_log s) + length (th_updates (sy_threads s ! t)) < 2 ^ 56"
  shows "\<exists>s'. (sys_step rand os)\<^sup>*\<^sup>* s s' \<and> sy_committed s' = sy_committed s @ [t] \<and> sy_rwlock s' = None \<and>
    th_pc (sy_threads s' ! t) = Written \<and> commit_log s' = commit_log s @ th_updates (sy_threads s ! t)"
proof -
  note run = writer_commits [OF assms]
  obtain s3 where s3: "Write_commit rand t (Write_room junk t (Write_enter t s)) = Inr s3" using run(5) by blast
  have "sys_step rand os (Write_room junk t (Write_enter t s)) s3" by (rule sys_step.commit [OF run(3,4) s3])
  then have "(sys_step rand os)\<^sup>*\<^sup>* s s3" using run(1,2) [of rand os] by auto
  then show ?thesis using commit_log_commit [OF run(6,7,3,4) s3] run(3,8-10) by (intro exI [of _ s3]) auto
qed

section \<open>Properties\<close>

text \<open>C6: mutual exclusion among the threads of the database: in every interleaving, at most one thread is inside
  \<^verbatim>\<open>Write\<close>, it holds \<^verbatim>\<open>rwlock_\<close>, and the queue of writers holds that writer only; so no thread ever waits
  behind another writer, and a group commit never has more than one batch.\<close>

theorem db_threads_exclusion:
  assumes "sys_init M0 q0 s0" "(sys_step rand os)\<^sup>*\<^sup>* s0 s"
  shows "length (db_writers (sy_db s)) \<le> 1 \<and>
    (\<forall>t<length (sy_threads s). th_pc (sy_threads s ! t) \<noteq> CvWait \<and>
       (in_write (th_pc (sy_threads s ! t)) \<longleftrightarrow> sy_rwlock s = Some t) \<and>
       (in_write (th_pc (sy_threads s ! t)) \<longrightarrow> map wr_id (db_writers (sy_db s)) = [t]))"
  using db_sys.reachable_inv [OF assms]
  by (auto simp: sys_inv_def lock_inv_def Writer_make_def split: option.splits)

text \<open>C2: the database refines a map under concurrent writers: in every interleaving the committed writers are those
  that have returned, each once, the sequence number counts their updates, and the map in memory
  agrees with the one their updates give in the order of the commits; it is that map as long as no
  compaction has finished. A lookup by a thread that gets the lock reads it.\<close>

theorem db_threads_refine_map:
  assumes "sys_init M0 q0 s0" "(sys_step rand os)\<^sup>*\<^sup>* s0 s" "unat q0 + length (commit_log s) < 2 ^ 56"
  shows "distinct (sy_committed s) \<and>
    (\<forall>t. t \<in> set (sy_committed s) \<longleftrightarrow> t < length (sy_threads s) \<and> th_pc (sy_threads s ! t) = Written) \<and>
    db_last_sequence (sy_db s) = q0 + word_of_nat (length (commit_log s)) \<and>
    (\<exists>M. db_rep (sy_db s) M \<and> M \<subseteq>\<^sub>m fold update_map (commit_log s) M0 \<and>
       ((\<forall>th\<in>set (sy_threads s). th_pc th \<noteq> Compacted) \<longrightarrow> M = fold update_map (commit_log s) M0) \<and>
       (\<forall>key v. slice_ok key \<and> mkey_fits (slice_content key) [] \<and> M (slice_content key) = Some v \<longrightarrow>
          DBimpl_Get os key (sy_db s) (sy_disk s) = Inr (Some v)))"
proof -
  have inv: "sys_inv s" "map_inv M0 q0 s" using db_sys.reachable_inv [OF assms(1,2)] by auto
  then obtain M where M: "db_rep (sy_db s) M" "M \<subseteq>\<^sub>m fold update_map (commit_log s) M0"
      "(\<forall>th\<in>set (sy_threads s). th_pc th \<noteq> Compacted) \<longrightarrow> M = fold update_map (commit_log s) M0"
    and q: "db_last_sequence (sy_db s) = q0 + word_of_nat (length (commit_log s))"
    using assms(3) by (auto simp: map_inv_def)
  have "DBimpl_Get os key (sy_db s) (sy_disk s) = Inr (Some v)"
    if "slice_ok key" "mkey_fits (slice_content key) []" "M (slice_content key) = Some v" for key v
    using DBimpl_Get_rep [OF M(1) that(1,2)] that(3) by simp
  then show ?thesis using inv(1) M q unfolding sys_inv_def commit_inv_def by blast
qed

text \<open>A writer that has to wait for a compaction waits forever: from then on, in every interleaving, it holds
  \<^verbatim>\<open>rwlock_\<close>, which the compaction needs, and neither the database nor the files change and no writer returns.\<close>

theorem db_threads_deadlock:
  assumes "sys_init M0 q0 s0" "(sys_step rand os)\<^sup>*\<^sup>* s0 s" "t < length (sy_threads s)" "th_pc (sy_threads s ! t) = RoomWait"
    "(sys_step rand os)\<^sup>*\<^sup>* s s'"
  shows "sy_rwlock s' = Some t \<and> th_pc (sy_threads s' ! t) = RoomWait \<and> sy_db s' = sy_db s \<and> sy_disk s' = sy_disk s \<and>
    sy_committed s' = sy_committed s"
proof -
  have inv: "sys_inv s" using db_sys.reachable_inv [OF assms(1,2)] by simp
  then have "stuck_at t s s"
    using assms(3,4) by (auto simp: stuck_at_def sys_inv_def lock_inv_def wait_inv_def in_write_def)
  then have "stuck_at t s s'" using db_stuck.reachable_inv [OF _ assms(5), of t s] inv by simp
  then show ?thesis by (simp add: stuck_at_def)
qed

text \<open>C8: a writer that finds the lock free and room in the memtable returns: there is a run of its own steps after
  which it has released the lock and its updates are committed, whatever the other threads have done before.\<close>

theorem db_writer_returns:
  assumes "sys_init M0 q0 s0" "(sys_step rand os)\<^sup>*\<^sup>* s0 s" "t < length (sy_threads s)" "th_pc (sy_threads s ! t) = WantWrite"
    "sy_rwlock s = None" "db_room junk (sy_db s)"
    "unat q0 + length (commit_log s) + length (th_updates (sy_threads s ! t)) < 2 ^ 56"
  shows "\<exists>s'. (sys_step rand os)\<^sup>*\<^sup>* s s' \<and> sy_committed s' = sy_committed s @ [t] \<and> sy_rwlock s' = None \<and>
    th_pc (sy_threads s' ! t) = Written \<and> commit_log s' = commit_log s @ th_updates (sy_threads s ! t)"
  using db_sys.reachable_inv [OF assms(1,2)] by (intro writer_run [OF _ _ assms(3-7)]) auto

text \<open>A client that puts one key into a fresh database, used by the witnesses.\<close>

definition one_put :: "DBimpl \<Rightarrow> (nat, bytes) system" where
  "one_put db = (sys_start db 0 [])\<lparr>sy_threads := [writer_thread \<lparr>wb_rep = batch_bytes 0 [UPut [97] [98]]\<rparr> [UPut [97] [98]]]\<rparr>"

lemma one_put_run: "(sys_step rand os)\<^sup>*\<^sup>* (sys_start db 0 []) (one_put db)"
proof -
  have w: "batch_rep \<lparr>wb_rep = batch_bytes 0 [UPut [97] [98]]\<rparr> 0 [UPut [97] [98]]"
    "WriteBatch_Bytes \<lparr>wb_rep = batch_bytes 0 [UPut [97] [98]]\<rparr> \<le> 2 ^ 17"
    by (simp_all add: batch_rep_def batch_bytes_def mkey_fits_def EncodeVarint32.simps WriteBatch_Bytes_def)
  show ?thesis using sys_step.call [OF w, of rand os "sys_start db 0 []"] by (auto simp: one_put_def sys_start_def)
qed

lemma fresh_init: "sys_init Map.empty 1 (sys_start fresh_db 0 [])"
  using fresh_db_rep(1,2) by (intro sys_init_start) (simp_all add: fresh_db_def)

theorem db_threads_exclusion_witness:
  "length (db_writers (sy_db (one_put fresh_db))) \<le> 1 \<and> \<not> in_write (th_pc (sy_threads (one_put fresh_db) ! 0))"
  using db_threads_exclusion [OF fresh_init one_put_run [of "\<lambda>n. (n, n + 1)" slow_os]]
  by (simp add: one_put_def sys_start_def writer_thread_def)

theorem db_writer_returns_witness:
  "\<exists>s'. (sys_step (\<lambda>n. (n, n + 1)) slow_os)\<^sup>*\<^sup>* (one_put fresh_db) s' \<and> sy_committed s' = [0] \<and>
     th_pc (sy_threads s' ! 0) = Written"
  using db_writer_returns [OF fresh_init one_put_run [of "\<lambda>n. (n, n + 1)" slow_os], of 0 0] fresh_db_rep(3)
  by (auto simp: one_put_def sys_start_def writer_thread_def commit_log_def)

lemma one_put_committed:
  "\<exists>s. (sys_step (\<lambda>n. (n, n + 1)) slow_os)\<^sup>*\<^sup>* (sys_start fresh_db 0 []) s \<and> commit_log s = [UPut [97] [98]]"
proof -
  let ?s = "one_put fresh_db"
  have i: "sys_inv ?s" "map_inv Map.empty 1 ?s"
    using db_sys.reachable_inv [OF fresh_init one_put_run [of "\<lambda>n. (n, n + 1)" slow_os]] by simp_all
  have "\<exists>s'. (sys_step (\<lambda>n. (n, n + 1)) slow_os)\<^sup>*\<^sup>* ?s s' \<and> commit_log s' = [UPut [97] [98]]"
    using writer_run [OF i, of 0 0 "\<lambda>n. (n, n + 1)" slow_os] fresh_db_rep(3)
    by (auto simp: one_put_def sys_start_def writer_thread_def commit_log_def)
  then show ?thesis using one_put_run [of "\<lambda>n. (n, n + 1)" slow_os fresh_db] by (meson rtranclp_trans)
qed

theorem db_threads_refine_map_witness:
  "\<exists>s. (sys_step (\<lambda>n. (n, n + 1)) slow_os)\<^sup>*\<^sup>* (sys_start fresh_db 0 []) s \<and>
     db_last_sequence (sy_db s) = 2 \<and> (\<exists>M. db_rep (sy_db s) M \<and> M \<subseteq>\<^sub>m [[97] \<mapsto> [98]])"
proof -
  obtain s where s: "(sys_step (\<lambda>n. (n, n + 1)) slow_os)\<^sup>*\<^sup>* (sys_start fresh_db 0 []) s" "commit_log s = [UPut [97] [98]]"
    using one_put_committed by blast
  then show ?thesis using db_threads_refine_map [OF fresh_init s(1)] by auto
qed

text \<open>The same on a database whose memtable has the size 4096 from the start: the new memtable may have it too.\<close>

theorem db_threads_deadlock_witness:
  "\<exists>s. (sys_step (\<lambda>n. (n, n + 1)) slow_os)\<^sup>*\<^sup>* (one_put (fresh_db\<lparr>db_memtable := Memtable_make 4096\<rparr>)) s \<and>
     (\<forall>s'. (sys_step (\<lambda>n. (n, n + 1)) slow_os)\<^sup>*\<^sup>* s s' \<longrightarrow> sy_rwlock s' = Some 0 \<and> sy_committed s' = [])"
proof -
  let ?db = "fresh_db\<lparr>db_memtable := Memtable_make 4096\<rparr>" and ?step = "sys_step (\<lambda>n. (n, n + 1)) slow_os :: (nat, bytes) system \<Rightarrow> _"
  let ?s1 = "Write_enter 0 (one_put ?db)"
  let ?s = "Write_room 4096 0 ?s1"
  have init: "sys_init Map.empty 1 (sys_start ?db 0 [])"
    using mem_state_make [of 4096 1] by (intro sys_init_start) (auto simp: fresh_db_def db_rep_def)
  have one: "?step (one_put ?db) ?s1"
    by (rule sys_step.enter) (simp_all add: one_put_def sys_start_def writer_thread_def)
  have two: "?step ?s1 ?s"
    by (rule sys_step.room) (simp_all add: one_put_def sys_start_def writer_thread_def Write_enter_def fresh_db_def Writer_make_def)
  have wait: "0 < length (sy_threads ?s)" "th_pc (sy_threads ?s ! 0) = RoomWait" "sy_committed ?s = []"
    by (simp_all add: one_put_def sys_start_def writer_thread_def Write_enter_def fresh_db_def Writer_make_def Write_room_def
        MakeRoom_eq Memtable_EstimatedSize_make kMaxMemtableSize_def nth_append Let_def)
  have "?step\<^sup>*\<^sup>* (sys_start ?db 0 []) ?s" using one_put_run [of "\<lambda>n. (n, n + 1)" slow_os ?db] one two by (meson rtranclp.rtrancl_into_rtrancl)
  from db_threads_deadlock [OF init this wait(1,2)] show ?thesis
    using one two wait(3) by (intro exI [of _ ?s]) auto
qed

end
