(* ===== verification/Networks.thy ===== *)
theory Networks
  imports DBImpls
begin

text \<open>
  The server: the request parser (\<^verbatim>\<open>network/parser.cpp\<close>, \<^verbatim>\<open>request.h\<close>, \<^verbatim>\<open>connection.h\<close>), the table of open
  connections (\<^verbatim>\<open>util/concurrent_hashmap.h\<close>), the event loop and the task that answers a request
  (\<^verbatim>\<open>main.cc\<close>), and the hash table of \<^verbatim>\<open>memory/hash.cc\<close>.

  What the sockets deliver (the result of \<^verbatim>\<open>read\<close>, \<open>None\<close> for a negative one, and of \<^verbatim>\<open>accept\<close>) is an argument;
  what is written to them and which are closed is recorded. Connection objects are kept in a heap,
  shared pointers to them are addresses or \<open>None\<close>. The task captures the descriptor and the pointer of
  the loop's body by reference; it gets their values at the time of the event here, and the theory of the running
  server says when they are still there.
\<close>

section \<open>Hash tables\<close>

text \<open>\<^verbatim>\<open>operator[]\<close> of an \<^verbatim>\<open>unordered_map\<close> inserts a default value for a key that is not there.\<close>

definition hashmap_count :: "'k \<Rightarrow> ('k \<rightharpoonup> 'v) \<Rightarrow> int" where
  "hashmap_count key m = (if m key = None then 0 else 1)"

definition hashmap_get :: "'v \<Rightarrow> 'k \<Rightarrow> ('k \<rightharpoonup> 'v) \<Rightarrow> 'v \<times> ('k \<rightharpoonup> 'v)" where
  "hashmap_get dflt key m = (case m key of Some v \<Rightarrow> (v, m) | None \<Rightarrow> (dflt, m(key \<mapsto> dflt)))"

definition hashmap_set :: "'k \<Rightarrow> 'v \<Rightarrow> ('k \<rightharpoonup> 'v) \<Rightarrow> ('k \<rightharpoonup> 'v)" where
  "hashmap_set key value m = m(key \<mapsto> value)"

definition hashmap_erase :: "'k \<Rightarrow> ('k \<rightharpoonup> 'v) \<Rightarrow> ('k \<rightharpoonup> 'v)" where
  "hashmap_erase key m = (if hashmap_count key m \<noteq> 0 then m(key := None) else m)"

definition HashTable_Get :: "int \<Rightarrow> (int \<rightharpoonup> int) \<Rightarrow> int \<times> (int \<rightharpoonup> int)" where
  "HashTable_Get key m = (case m key of Some v \<Rightarrow> (v, m) | None \<Rightarrow> (0, m(key \<mapsto> 0)))"

definition HashTable_Put :: "int \<Rightarrow> int \<Rightarrow> (int \<rightharpoonup> int) \<Rightarrow> (int \<rightharpoonup> int)" where
  "HashTable_Put key value m = m(key \<mapsto> value)"

section \<open>Requests\<close>

record request =
  rq_op_code :: int
  rq_key :: bytes
  rq_value :: bytes

text \<open>The operation code of a new request is whatever the memory held.\<close>

definition request_make :: "int \<Rightarrow> request" where
  "request_make junk = \<lparr>rq_op_code = junk, rq_key = [], rq_value = []\<rparr>"

record connection =
  cn_read :: bytes
  cn_write :: bytes
  cn_req :: "request option"

definition connection_make :: connection where
  "connection_make = \<lparr>cn_read = [], cn_write = [], cn_req = None\<rparr>"

text \<open>The loop over the bytes behind the operation code; 13 is \<^verbatim>\<open>'\r'\<close>.\<close>

fun parse_all_loop :: "bool \<Rightarrow> request \<Rightarrow> bytes \<Rightarrow> request" where
  "parse_all_loop flag req [] = req"
| "parse_all_loop flag req (c # cs) =
     (if c \<noteq> 13 then
        if \<not> flag then parse_all_loop flag (req\<lparr>rq_key := rq_key req @ [c]\<rparr>) cs
        else parse_all_loop flag (req\<lparr>rq_value := rq_value req @ [c]\<rparr>) cs
      else parse_all_loop True req (drop 1 cs))"

text \<open>Index 0 of an empty string reads its terminating zero.\<close>

definition parse_all :: "connection \<Rightarrow> connection res" where
  "parse_all conn =
     (case cn_req conn of
        None \<Rightarrow> Inl NullDeref
      | Some req \<Rightarrow>
          let op = sint (string_data (cn_read conn) ! 0) - 48 in
          Inr (conn\<lparr>cn_req := Some (parse_all_loop False (req\<lparr>rq_op_code := op\<rparr>) (drop 3 (cn_read conn)))\<rparr>))"

text \<open>\<open>received\<close> is the result of the call of \<^verbatim>\<open>read\<close>, of at most 1024 bytes.\<close>

definition Parser_read :: "int \<Rightarrow> bytes option \<Rightarrow> connection \<Rightarrow> (bool \<times> connection) res" where
  "Parser_read junk received conn =
     (let conn = conn\<lparr>cn_req := Some (request_make junk)\<rparr> in
      case received of
        None \<Rightarrow> Inr (False, conn)
      | Some d \<Rightarrow> rbind (parse_all (conn\<lparr>cn_read := cn_read conn @ d\<rparr>)) (\<lambda>conn. Inr (True, conn)))"

section \<open>The server\<close>

text \<open>The connections of \<^verbatim>\<open>main\<close> and the tasks for them; the last two fields record what happens to the sockets.\<close>

record conns =
  sv_heap :: "connection list"
  sv_connection_storage :: "int \<rightharpoonup> nat option"
  sv_tasks :: "(int \<times> nat option) list"
  sv_written :: "(int \<times> bytes) list"
  sv_closed :: "int list"

text \<open>The server: its connections, the database and the random source of that.\<close>

record 'r server = conns +
  sv_db :: DBimpl
  sv_rand :: 'r

text \<open>
  One event of the loop in \<^verbatim>\<open>main\<close>: its descriptor and flags, and what \<^verbatim>\<open>accept\<close> returns. A task goes to the thread
  pool with the descriptor and the connection.
\<close>

definition main_event :: "int \<Rightarrow> int \<Rightarrow> bool \<Rightarrow> bool \<Rightarrow> int \<Rightarrow> 'z conns_scheme \<Rightarrow> 'z conns_scheme" where
  "main_event listen_fd fd epollin epollerr accepted s =
     (if fd = listen_fd \<and> (epollin \<or> epollerr) then
        if accepted \<noteq> -1 then
          let m = sv_connection_storage s;
              m = (if hashmap_count accepted m \<noteq> 0 then hashmap_erase accepted m else m) in
          s\<lparr>sv_heap := sv_heap s @ [connection_make],
            sv_connection_storage := hashmap_set accepted (Some (length (sv_heap s))) m\<rparr>
        else s
      else if epollin then
        let (connection, m) = hashmap_get None fd (sv_connection_storage s) in
        s\<lparr>sv_connection_storage := m, sv_tasks := sv_tasks s @ [(fd, connection)]\<rparr>
      else s)"

definition answer_ok :: bytes where
  "answer_ok = [49, 13, 10]"

definition answer_fail :: bytes where
  "answer_fail = [48, 13, 10]"

text \<open>
  The switch over the operation code: the new value of the request, the answer and the database; \<open>None\<close> when the
  database waits. \<open>self\<close> and \<open>junk\<close> are those of the database's operations.
\<close>

definition answer_request ::
  "('r \<Rightarrow> nat \<times> 'r) \<Rightarrow> 'w posix \<Rightarrow> nat \<Rightarrow> nat \<Rightarrow> request \<Rightarrow> 'r \<Rightarrow> DBimpl \<Rightarrow> 'w \<Rightarrow>
     (request \<times> bytes option \<times> 'r \<times> DBimpl) option res" where
  "answer_request rand os junk self req r db w =
     (if rq_op_code req = 1 then
        rbind (DBimpl_Put rand junk self (Slice_string (rq_key req)) (Slice_string (rq_value req)) r db) (\<lambda>x.
          Inr (case x of None \<Rightarrow> None | Some (r, n, db) \<Rightarrow> Some (req, Some answer_ok, r, db)))
      else if rq_op_code req = 2 then
        rbind (DBimpl_Get os (Slice_string (rq_key req)) db w) (\<lambda>x.
          Inr (case x of
                 None \<Rightarrow> Some (req, Some answer_fail, r, db)
               | Some v \<Rightarrow> Some (req\<lparr>rq_value := v\<rparr>, Some (answer_ok @ v @ [13, 10]), r, db)))
      else if rq_op_code req = 3 then
        rbind (DBimpl_Delete rand junk self (Slice_string (rq_key req)) r db) (\<lambda>x.
          Inr (case x of None \<Rightarrow> None | Some (r, n, db) \<Rightarrow> Some (req, Some answer_ok, r, db)))
      else Inr (Some (req, None, r, db)))"

text \<open>The end of the task: the answer is written, and the connection is closed and forgotten.\<close>

definition serve_finish ::
  "int \<Rightarrow> nat \<Rightarrow> connection \<Rightarrow> request \<times> bytes option \<times> 'r \<times> DBimpl \<Rightarrow> 'r server \<Rightarrow> 'r server" where
  "serve_finish conn_fd a conn x s =
     (let (req, answer, r, db) = x in
      s\<lparr>sv_db := db, sv_rand := r, sv_heap := (sv_heap s)[a := conn\<lparr>cn_req := Some req\<rparr>],
        sv_written := sv_written s @ (case answer of None \<Rightarrow> [] | Some d \<Rightarrow> [(conn_fd, d)]),
        sv_closed := sv_closed s @ [conn_fd],
        sv_connection_storage := hashmap_erase conn_fd (sv_connection_storage s)\<rparr>)"

text \<open>The task of the thread pool. When reading fails the lambda ends without a result.\<close>

definition serve_task ::
  "('r \<Rightarrow> nat \<times> 'r) \<Rightarrow> 'w posix \<Rightarrow> nat \<Rightarrow> int \<Rightarrow> nat \<Rightarrow> int \<Rightarrow> nat option \<Rightarrow> bytes option \<Rightarrow> 'w \<Rightarrow> 'r server \<Rightarrow>
     'r server option res" where
  "serve_task rand os junk junk_op self conn_fd connection received w s =
     (case connection of
        None \<Rightarrow> Inl NullDeref
      | Some a \<Rightarrow>
          rbind (Parser_read junk_op received (sv_heap s ! a)) (\<lambda>(ok, conn).
          if \<not> ok then Inl NoReturn
          else case cn_req conn of
            None \<Rightarrow> Inl NullDeref
          | Some req \<Rightarrow>
              rbind (answer_request rand os junk self req (sv_rand s) (sv_db s) w) (\<lambda>x.
                Inr (map_option (\<lambda>x. serve_finish conn_fd a conn x s) x))))"

section \<open>Parsing\<close>

text \<open>What a client sends: the operation, the key and for some operations the value, each ended by \<^verbatim>\<open>\r\n\<close>.\<close>

definition request_bytes :: "nat \<Rightarrow> bytes \<Rightarrow> bytes option \<Rightarrow> bytes" where
  "request_bytes op key val =
     word_of_nat (48 + op) # [13, 10] @ key @ [13, 10] @ (case val of None \<Rightarrow> [] | Some v \<Rightarrow> v @ [13, 10])"

definition sent_value :: "bytes option \<Rightarrow> bytes" where
  "sent_value val = (case val of None \<Rightarrow> [] | Some v \<Rightarrow> v)"

lemma parse_all_loop_key:
  "13 \<notin> set key \<Longrightarrow> parse_all_loop False req (key @ 13 # 10 # cs) = parse_all_loop True (req\<lparr>rq_key := rq_key req @ key\<rparr>) cs"
  by (induction key arbitrary: req) auto

lemma parse_all_loop_value:
  "13 \<notin> set val \<Longrightarrow> parse_all_loop True req (val @ [13, 10]) = req\<lparr>rq_value := rq_value req @ val\<rparr>"
  by (induction val arbitrary: req) auto

lemma op_digit: "op < 10 \<Longrightarrow> sint (word_of_nat (48 + op) :: byte) = 48 + int op"
proof -
  assume "op < 10"
  then have "sint (word_of_int (48 + int op) :: byte) = 48 + int op" by (subst int_word_sint) simp
  moreover have "(word_of_nat (48 + op) :: byte) = word_of_int (48 + int op)" by simp
  ultimately show ?thesis by metis
qed

lemma Parser_read_request:
  assumes "op < 10" "13 \<notin> set key" "13 \<notin> set (sent_value val)" "cn_read conn = []"
  shows "Parser_read junk (Some (request_bytes op key val)) conn =
    Inr (True, conn\<lparr>cn_read := request_bytes op key val,
                    cn_req := Some \<lparr>rq_op_code = int op, rq_key = key, rq_value = sent_value val\<rparr>\<rparr>)"
proof -
  show ?thesis
    using op_digit [OF assms(1)] assms(2-4) parse_all_loop_key [OF assms(2)] parse_all_loop_value [of "the val"]
    by (cases val) (simp_all add: Parser_read_def parse_all_def request_bytes_def request_make_def string_data_def sent_value_def)
qed

lemma parse_all_loop_part: "13 \<notin> set key \<Longrightarrow> parse_all_loop False req key = req\<lparr>rq_key := rq_key req @ key\<rparr>"
  by (induction key arbitrary: req) auto

lemma Parser_read_piece:
  assumes "op < 10" "13 \<notin> set key" "cn_read conn = []" "n \<le> length key"
  shows "\<exists>conn'. Parser_read junk (Some (take (3 + n) (request_bytes op key val))) conn = Inr (True, conn') \<and>
    cn_req conn' = Some \<lparr>rq_op_code = int op, rq_key = take n key, rq_value = []\<rparr>"
proof -
  have t: "take (3 + n) (request_bytes op key val) = word_of_nat (48 + op) # 13 # 10 # take n key"
    using assms(4) by (simp add: request_bytes_def numeral_3_eq_3)
  have "13 \<notin> set (take n key)" using assms(2) by (meson in_set_takeD)
  then show ?thesis unfolding t
    using assms(3) op_digit [OF assms(1)] parse_all_loop_part [of "take n key"]
    by (simp add: Parser_read_def parse_all_def request_make_def string_data_def)
qed

section \<open>Serving requests\<close>

lemma serve_task_answer:
  assumes "op < 10" "13 \<notin> set key" "13 \<notin> set (sent_value val)" "cn_read (sv_heap s ! a) = []"
    "answer_request rand os junk self \<lparr>rq_op_code = int op, rq_key = key, rq_value = sent_value val\<rparr> (sv_rand s) (sv_db s) w =
       Inr (Some (req, Some d, r, db))"
  shows "\<exists>c. serve_task rand os junk junk_op self fd (Some a) (Some (request_bytes op key val)) w s =
    Inr (Some (s\<lparr>sv_db := db, sv_rand := r, sv_heap := (sv_heap s)[a := c], sv_written := sv_written s @ [(fd, d)],
                 sv_closed := sv_closed s @ [fd], sv_connection_storage := hashmap_erase fd (sv_connection_storage s)\<rparr>))"
  using assms(5) Parser_read_request [OF assms(1-4), of junk_op] by (auto simp: serve_task_def serve_finish_def)

lemma hashmap_erase_eq: "hashmap_erase k m = m(k := None)"
  by (auto simp: hashmap_erase_def hashmap_count_def)

text \<open>
  Every descriptor in the table has a connection object of its own, or none.
\<close>

definition storage_inv :: "'z conns_scheme \<Rightarrow> bool" where
  "storage_inv s \<longleftrightarrow>
     (\<forall>fd a. sv_connection_storage s fd = Some (Some a) \<longrightarrow> a < length (sv_heap s) \<and>
        (\<forall>fd'. sv_connection_storage s fd' = Some (Some a) \<longrightarrow> fd' = fd))"

lemma storage_inv_erase:
  "storage_inv s \<Longrightarrow> length (sv_heap s') = length (sv_heap s) \<Longrightarrow>
     sv_connection_storage s' = (sv_connection_storage s)(fd := None) \<Longrightarrow> storage_inv s'"
  by (auto simp: storage_inv_def split: if_splits)

lemma serve_task_frame:
  assumes "serve_task rand os junk junk_op self fd c received w s = Inr (Some s')"
  shows "length (sv_heap s') = length (sv_heap s)" "sv_connection_storage s' = (sv_connection_storage s)(fd := None)"
  using assms by (auto simp: serve_task_def serve_finish_def hashmap_erase_eq Let_def split: option.split_asm if_split_asm)

section \<open>Properties\<close>

text \<open>C25: the request parser inverts the protocol: a request with a key and a value free of \<^verbatim>\<open>\r\<close>, received in one
  piece on a new connection, is parsed to its operation, key and value. One piece is taken for the whole
  request: of one that arrives in two pieces, cut inside the key, the first piece is parsed to the
  operation with the part of the key and no value.\<close>

theorem request_roundtrip:
  assumes "op < 10" "13 \<notin> set key" "13 \<notin> set (sent_value val)" "cn_read conn = []" "n \<le> length key"
  shows "(\<exists>conn'. Parser_read junk (Some (request_bytes op key val)) conn = Inr (True, conn') \<and>
      cn_req conn' = Some \<lparr>rq_op_code = int op, rq_key = key, rq_value = sent_value val\<rparr>) \<and>
    (\<exists>conn'. Parser_read junk (Some (take (3 + n) (request_bytes op key val))) conn = Inr (True, conn') \<and>
      cn_req conn' = Some \<lparr>rq_op_code = int op, rq_key = take n key, rq_value = []\<rparr>)"
  using Parser_read_request [OF assms(1-4)] Parser_read_piece [OF assms(1,2,4,5)] by simp

theorem request_roundtrip_witness:
  "(\<exists>conn'. Parser_read 5 (Some [49, 13, 10, 97, 13, 10, 98, 13, 10]) connection_make = Inr (True, conn') \<and>
    cn_req conn' = Some \<lparr>rq_op_code = 1, rq_key = [97], rq_value = [98]\<rparr>) \<and>
   (\<exists>conn'. Parser_read 5 (Some [49, 13, 10, 97]) connection_make = Inr (True, conn') \<and>
    cn_req conn' = Some \<lparr>rq_op_code = 1, rq_key = [97], rq_value = []\<rparr>)"
  using request_roundtrip [of 1 "[97]" "Some [98]" connection_make 1 5]
  by (simp add: request_bytes_def sent_value_def connection_make_def)

text \<open>The server end to end: a put request on one connection followed by a get request for the same key on another
  is answered by \<^verbatim>\<open>1\r\n\<close> and by \<^verbatim>\<open>1\r\n\<close> with the value that was put; both connections are
  closed and forgotten.\<close>

theorem serve_put_get:
  assumes "db_rep (sv_db s) M" "db_writers (sv_db s) = []" "db_room junk (sv_db s)" "unat (db_last_sequence (sv_db s)) + 1 < 2 ^ 56"
    "13 \<notin> set key" "13 \<notin> set val" "0 \<notin> set key" "0 \<notin> set val" "length key + length val < 2 ^ 16"
    "a \<noteq> b" "cn_read (sv_heap s ! a) = []" "cn_read (sv_heap s ! b) = []"
  shows "\<exists>s1 s2. serve_task rand os junk junk_op self fd1 (Some a) (Some (request_bytes 1 key (Some val))) w s = Inr (Some s1) \<and>
    serve_task rand os junk junk_op self' fd2 (Some b) (Some (request_bytes 2 key None)) w' s1 = Inr (Some s2) \<and>
    db_rep (sv_db s2) (M(key \<mapsto> val)) \<and>
    sv_written s2 = sv_written s @ [(fd1, answer_ok), (fd2, answer_ok @ val @ [13, 10])] \<and>
    sv_closed s2 = sv_closed s @ [fd1, fd2] \<and> sv_connection_storage s2 fd1 = None \<and> sv_connection_storage s2 fd2 = None"
proof -
  let ?k = "Slice_string key" and ?v = "Slice_string val"
  have k: "slice_ok ?k" "slice_ok ?v" "mkey_fits key []" using assms(9) by (simp_all add: mkey_fits_def)
  obtain r n db where put: "DBimpl_Put rand junk self ?k ?v (sv_rand s) (sv_db s) = Inr (Some (r, n, db))" "db_rep db (M(key \<mapsto> val))"
    using DBimpl_Put_Delete_rep [OF assms(1-3) k(1,2), of rand self "sv_rand s"] assms(4,7-9) by auto
  have "answer_request rand os junk self \<lparr>rq_op_code = int 1, rq_key = key, rq_value = sent_value (Some val)\<rparr> (sv_rand s) (sv_db s) w =
      Inr (Some (\<lparr>rq_op_code = int 1, rq_key = key, rq_value = val\<rparr>, Some answer_ok, r, db))"
    using put(1) by (simp add: answer_request_def sent_value_def)
  then obtain c where s1: "serve_task rand os junk junk_op self fd1 (Some a) (Some (request_bytes 1 key (Some val))) w s =
      Inr (Some (s\<lparr>sv_db := db, sv_rand := r, sv_heap := (sv_heap s)[a := c], sv_written := sv_written s @ [(fd1, answer_ok)],
                 sv_closed := sv_closed s @ [fd1], sv_connection_storage := hashmap_erase fd1 (sv_connection_storage s)\<rparr>))"
    using serve_task_answer [of 1 key "Some val" s a rand os junk self w] assms(5,6,11) by (fastforce simp: sent_value_def)
  let ?s1 = "s\<lparr>sv_db := db, sv_rand := r, sv_heap := (sv_heap s)[a := c], sv_written := sv_written s @ [(fd1, answer_ok)],
                 sv_closed := sv_closed s @ [fd1], sv_connection_storage := hashmap_erase fd1 (sv_connection_storage s)\<rparr>"
  have "DBimpl_Get os ?k db w' = Inr (Some val)" using DBimpl_Get_rep [OF put(2) k(1)] k(3) by simp
  then have "answer_request rand os junk self' \<lparr>rq_op_code = int 2, rq_key = key, rq_value = sent_value None\<rparr> (sv_rand ?s1) (sv_db ?s1) w' =
      Inr (Some (\<lparr>rq_op_code = int 2, rq_key = key, rq_value = val\<rparr>, Some (answer_ok @ val @ [13, 10]), r, db))"
    by (simp add: answer_request_def)
  then obtain c' where "serve_task rand os junk junk_op self' fd2 (Some b) (Some (request_bytes 2 key None)) w' ?s1 =
      Inr (Some (?s1\<lparr>sv_db := db, sv_rand := r, sv_heap := (sv_heap ?s1)[b := c'],
                 sv_written := sv_written ?s1 @ [(fd2, answer_ok @ val @ [13, 10])],
                 sv_closed := sv_closed ?s1 @ [fd2], sv_connection_storage := hashmap_erase fd2 (sv_connection_storage ?s1)\<rparr>))"
    using serve_task_answer [of 2 key None ?s1 b rand os junk self' w'] assms(5,10,12) by (fastforce simp: sent_value_def)
  then show ?thesis using s1 put(2) by (auto simp: hashmap_erase_eq)
qed

theorem serve_put_get_witness:
  "let s = \<lparr>sv_heap = [connection_make, connection_make],
            sv_connection_storage = [4 \<mapsto> Some 0, 5 \<mapsto> Some 1], sv_tasks = [], sv_written = [], sv_closed = [], sv_db = fresh_db, sv_rand = 0::nat\<rparr> in
   \<exists>s1 s2. serve_task (\<lambda>n. (n, n + 1)) slow_os 0 0 7 4 (Some 0) (Some (request_bytes 1 [97] (Some [98]))) [] s = Inr (Some s1) \<and>
     serve_task (\<lambda>n. (n, n + 1)) slow_os 0 0 8 5 (Some 1) (Some (request_bytes 2 [97] None)) [] s1 = Inr (Some s2) \<and>
     sv_written s2 = [(4, answer_ok), (5, answer_ok @ [98, 13, 10])]"
proof -
  let ?s = "\<lparr>sv_heap = [connection_make, connection_make],
    sv_connection_storage = [4 \<mapsto> Some 0, 5 \<mapsto> Some 1], sv_tasks = [], sv_written = [], sv_closed = [], sv_db = fresh_db, sv_rand = 0::nat\<rparr>"
  have q: "unat (db_last_sequence fresh_db) + 1 < 2 ^ 56" by (simp add: fresh_db_def)
  show ?thesis
    using serve_put_get [of ?s Map.empty 0 "[97]" "[98]" 0 1 "\<lambda>n. (n, n + 1)" slow_os 0 7 4 "[]" 8 5 "[]"] fresh_db_rep q
    by (auto simp: connection_make_def)
qed

text \<open>Connections are not shared: every event of the main loop and every served request keeps the table of
  connections such that no two descriptors have the same connection object. A new connection gets an
  empty object of its own and the others keep theirs; a request that cannot be read, or one for a
  descriptor without an object, ends in an error.\<close>

theorem connections_separate:
  assumes "storage_inv s"
  shows "storage_inv (main_event listen_fd fd epollin epollerr accepted s) \<and>
    (\<forall>s'. serve_task rand os junk junk_op self fd c received w s = Inr (Some s') \<longrightarrow> storage_inv s') \<and>
    (fd = listen_fd \<and> epollin \<and> accepted \<noteq> -1 \<longrightarrow>
       (\<exists>a. sv_connection_storage (main_event listen_fd fd epollin epollerr accepted s) accepted = Some (Some a) \<and>
          sv_heap (main_event listen_fd fd epollin epollerr accepted s) ! a = connection_make) \<and>
       (\<forall>fd'. fd' \<noteq> accepted \<longrightarrow>
          sv_connection_storage (main_event listen_fd fd epollin epollerr accepted s) fd' = sv_connection_storage s fd')) \<and>
    serve_task rand os junk junk_op self fd None received w s = Inl NullDeref \<and>
    serve_task rand os junk junk_op self fd (Some a) None w s = Inl NoReturn"
proof -
  have "storage_inv (main_event listen_fd fd epollin epollerr accepted s)"
    using assms by (auto simp: main_event_def storage_inv_def hashmap_set_def hashmap_get_def hashmap_erase_eq Let_def less_SucI
        split: if_splits option.splits)
  moreover have "storage_inv s'" if "serve_task rand os junk junk_op self fd c received w s = Inr (Some s')" for s'
    using serve_task_frame [OF that] by (intro storage_inv_erase [OF assms]) auto
  ultimately show ?thesis
    by (auto simp: main_event_def hashmap_set_def hashmap_erase_eq serve_task_def Parser_read_def Let_def nth_append)
qed

theorem connections_separate_witness:
  "let s = \<lparr>sv_heap = [connection_make], sv_connection_storage = [4 \<mapsto> Some 0],
            sv_tasks = [], sv_written = [], sv_closed = [], sv_db = fresh_db, sv_rand = 0::nat\<rparr> in
   storage_inv s \<and> storage_inv (main_event 3 3 True False 5 s)"
proof -
  let ?s = "\<lparr>sv_heap = [connection_make], sv_connection_storage = [4 \<mapsto> Some 0],
    sv_tasks = [], sv_written = [], sv_closed = [], sv_db = fresh_db, sv_rand = 0::nat\<rparr>"
  have "storage_inv ?s" by (auto simp: storage_inv_def split: if_splits)
  then show ?thesis
    using connections_separate [of ?s 3 3 True False 5 "\<lambda>n. (n, n)" slow_os 0 0 0 None None "[]" 0] by simp
qed

end
