(* ===== verification/ThreadPools.thy ===== *)
theory ThreadPools
  imports Transitions "HOL-Library.Multiset"
begin

text \<open>
  The thread pool (\<^verbatim>\<open>network/thread_pool.h\<close>). A task is a value of a type parameter: what it computes, and an
  exception of it, is kept by its \<^verbatim>\<open>std::packaged_task\<close>.

  Each part of the code that runs under \<^verbatim>\<open>queue_mutex\<close> is one function; the step relation interleaves them.
  Waiting on the condition variable is explicit: a worker that finds its predicate false sleeps, and is
  woken up by a notification, which the code sends after it has released the mutex, or spuriously.
\<close>

text \<open>A worker is about to lock the mutex and test the predicate, sleeps in \<^verbatim>\<open>wait\<close>, runs a task, or has returned.\<close>

datatype 't worker = WCheck | WSleep | WRun 't | WDone

text \<open>
  \<open>tp_notify\<close> counts the calls of \<^verbatim>\<open>enqueue\<close> that are between the unlock and \<^verbatim>\<open>notify_one\<close>, \<open>tp_notify_all\<close> says that
  the destructor is before its \<^verbatim>\<open>notify_all\<close>. The last three fields only record what has happened.
\<close>

record 't ThreadPool =
  tp_workers :: "'t worker list"
  tp_tasks :: "'t list"
  tp_stop :: bool
  tp_notify :: nat
  tp_notify_all :: bool
  tp_enqueued :: "'t list"
  tp_started :: "'t list"
  tp_finished :: "'t list"

definition ThreadPool_make :: "nat \<Rightarrow> 't ThreadPool" where
  "ThreadPool_make threads =
     \<lparr>tp_workers = replicate threads WCheck, tp_tasks = [], tp_stop = False, tp_notify = 0, tp_notify_all = False,
      tp_enqueued = [], tp_started = [], tp_finished = []\<rparr>"

text \<open>The block of the worker's loop that holds the mutex, for the worker \<open>i\<close>.\<close>

definition ThreadPool_take :: "nat \<Rightarrow> 't ThreadPool \<Rightarrow> 't ThreadPool" where
  "ThreadPool_take i p =
     (if \<not> (tp_stop p \<or> tp_tasks p \<noteq> []) then p\<lparr>tp_workers := (tp_workers p)[i := WSleep]\<rparr>
      else if tp_stop p \<and> tp_tasks p = [] then p\<lparr>tp_workers := (tp_workers p)[i := WDone]\<rparr>
      else
        let task = hd (tp_tasks p) in
        p\<lparr>tp_tasks := tl (tp_tasks p), tp_workers := (tp_workers p)[i := WRun task], tp_started := tp_started p @ [task]\<rparr>)"

definition ThreadPool_run :: "nat \<Rightarrow> 't \<Rightarrow> 't ThreadPool \<Rightarrow> 't ThreadPool" where
  "ThreadPool_run i task p =
     p\<lparr>tp_workers := (tp_workers p)[i := WCheck], tp_finished := tp_finished p @ [task]\<rparr>"

text \<open>\<open>None\<close> is the exception for a stopped pool.\<close>

definition ThreadPool_enqueue :: "'t \<Rightarrow> 't ThreadPool \<Rightarrow> 't ThreadPool option" where
  "ThreadPool_enqueue task p =
     (if tp_stop p then None
      else Some (p\<lparr>tp_tasks := tp_tasks p @ [task], tp_notify := tp_notify p + 1, tp_enqueued := tp_enqueued p @ [task]\<rparr>))"

definition ThreadPool_destroy :: "'t ThreadPool \<Rightarrow> 't ThreadPool" where
  "ThreadPool_destroy p = p\<lparr>tp_stop := True, tp_notify_all := True\<rparr>"

text \<open>The joins of the destructor return when all workers have.\<close>

definition ThreadPool_joined :: "'t ThreadPool \<Rightarrow> bool" where
  "ThreadPool_joined p \<longleftrightarrow> (\<forall>w\<in>set (tp_workers p). w = WDone)"

definition wake :: "'t worker \<Rightarrow> 't worker" where
  "wake w = (if w = WSleep then WCheck else w)"

text \<open>The destructor runs once: nothing else may use the pool while it does, so it starts with no call of \<^verbatim>\<open>enqueue\<close> in its middle.\<close>

inductive pool_step :: "'t ThreadPool \<Rightarrow> 't ThreadPool \<Rightarrow> bool" where
  take: "i < length (tp_workers p) \<Longrightarrow> tp_workers p ! i = WCheck \<Longrightarrow> pool_step p (ThreadPool_take i p)"
| run: "i < length (tp_workers p) \<Longrightarrow> tp_workers p ! i = WRun task \<Longrightarrow> pool_step p (ThreadPool_run i task p)"
| enqueue: "ThreadPool_enqueue task p = Some p' \<Longrightarrow> pool_step p p'"
| notify_one: "tp_notify p = Suc n \<Longrightarrow> i < length (tp_workers p) \<Longrightarrow> tp_workers p ! i = WSleep \<Longrightarrow>
    pool_step p (p\<lparr>tp_notify := n, tp_workers := (tp_workers p)[i := WCheck]\<rparr>)"
| notify_none: "tp_notify p = Suc n \<Longrightarrow> WSleep \<notin> set (tp_workers p) \<Longrightarrow> pool_step p (p\<lparr>tp_notify := n\<rparr>)"
| spurious: "i < length (tp_workers p) \<Longrightarrow> tp_workers p ! i = WSleep \<Longrightarrow>
    pool_step p (p\<lparr>tp_workers := (tp_workers p)[i := WCheck]\<rparr>)"
| destroy: "\<not> tp_stop p \<Longrightarrow> tp_notify p = 0 \<Longrightarrow> pool_step p (ThreadPool_destroy p)"
| notify_all: "tp_notify_all p \<Longrightarrow> pool_step p (p\<lparr>tp_notify_all := False, tp_workers := map wake (tp_workers p)\<rparr>)"

inductive_cases pool_stepE: "pool_step p p'"

section \<open>Invariants\<close>

fun tasks_of :: "'t worker \<Rightarrow> 't multiset" where
  "tasks_of (WRun t) = {#t#}"
| "tasks_of _ = {#}"

definition running :: "'t ThreadPool \<Rightarrow> 't multiset" where
  "running p = (\<Sum>w\<leftarrow>tp_workers p. tasks_of w)"

definition checkers :: "'t worker list \<Rightarrow> nat" where
  "checkers ws = (\<Sum>w\<leftarrow>ws. if w = WCheck then 1 else 0)"

text \<open>Tasks leave the queue in the order of their arrival; the started ones are running or finished, once each.\<close>

definition pool_tasks_inv :: "'t ThreadPool \<Rightarrow> bool" where
  "pool_tasks_inv p \<longleftrightarrow>
     tp_enqueued p = tp_started p @ tp_tasks p \<and> mset (tp_started p) = mset (tp_finished p) + running p"

text \<open>
  No notification is lost: while a worker sleeps there is for every task in the queue a worker about to look, or
  a notification to come; a stopped pool has no sleeping worker once its notification has been sent.
\<close>

definition pool_wake_inv :: "'t ThreadPool \<Rightarrow> bool" where
  "pool_wake_inv p \<longleftrightarrow>
     (\<not> tp_stop p \<and> WSleep \<in> set (tp_workers p) \<longrightarrow> length (tp_tasks p) \<le> checkers (tp_workers p) + tp_notify p) \<and>
     (tp_stop p \<and> WSleep \<in> set (tp_workers p) \<longrightarrow> tp_notify_all p) \<and>
     (WDone \<in> set (tp_workers p) \<longrightarrow> tp_stop p \<and> tp_tasks p = []) \<and> (tp_notify_all p \<longrightarrow> tp_stop p)"

definition pool_inv :: "nat \<Rightarrow> 't ThreadPool \<Rightarrow> bool" where
  "pool_inv n p \<longleftrightarrow> length (tp_workers p) = n \<and> pool_tasks_inv p \<and> pool_wake_inv p"

lemma running_update:
  assumes "i < length (tp_workers p)"
  shows "tasks_of (tp_workers p ! i) + (\<Sum>w\<leftarrow>(tp_workers p)[i := x]. tasks_of w) = tasks_of x + running p"
  using sum_list_map_update [OF assms, of tasks_of x] by (simp add: running_def)

lemma checkers_update:
  assumes "i < length ws"
  shows "(if ws ! i = WCheck then 1 else 0) + checkers (ws[i := x]) = (if x = WCheck then 1 else 0) + checkers ws"
  using sum_list_map_update [OF assms, of "\<lambda>w. if w = WCheck then 1 else 0 :: nat" x] by (simp add: checkers_def)

lemma tasks_of_wake [simp]: "tasks_of (wake w) = tasks_of w"
  by (cases w) (simp_all add: wake_def)

lemma wake_not_sleep [simp]: "WSleep \<noteq> wake w" "WDone = wake w \<longleftrightarrow> WDone = w"
  by (auto simp: wake_def)

lemma pool_tasks_inv_step: "pool_step p p' \<Longrightarrow> pool_tasks_inv p \<Longrightarrow> pool_tasks_inv p'"
proof (induction rule: pool_step.induct)
  case (take i p)
  then show ?case
    using running_update [of i p] by (auto simp: pool_tasks_inv_def ThreadPool_take_def running_def Let_def)
next
  case (run i p task)
  then show ?case
    using running_update [of i p WCheck] by (auto simp: pool_tasks_inv_def ThreadPool_run_def running_def)
qed (auto simp: pool_tasks_inv_def running_def ThreadPool_enqueue_def ThreadPool_destroy_def comp_def
    dest: sum_list_map_update [where f = tasks_of and x = WCheck] split: if_splits)

lemma set_updateD: "y \<in> set (xs[i := x]) \<Longrightarrow> y = x \<or> y \<in> set xs"
  using set_update_subset_insert [of xs i x] by auto

text \<open>A worker that becomes awake, with the number of notifications to come not smaller by more than one.\<close>

lemma pool_wake_inv_awake:
  assumes "pool_wake_inv p" "i < length (tp_workers p)" "tp_workers p ! i = WSleep \<or> (\<exists>t. tp_workers p ! i = WRun t)"
    "tp_notify p \<le> Suc n \<and> tp_workers p ! i = WSleep \<or> n = tp_notify p"
  shows "pool_wake_inv (p\<lparr>tp_notify := n, tp_workers := (tp_workers p)[i := WCheck]\<rparr>)"
proof -
  have c: "checkers ((tp_workers p)[i := WCheck]) = Suc (checkers (tp_workers p))"
    using checkers_update [OF assms(2), of WCheck] assms(3) by auto
  show ?thesis using assms(1,4) by (auto simp: pool_wake_inv_def c dest!: set_updateD)
qed

lemma pool_wake_inv_take:
  assumes inv: "pool_wake_inv p" and i: "i < length (tp_workers p)" "tp_workers p ! i = WCheck"
  shows "pool_wake_inv (ThreadPool_take i p)"
proof (cases "tp_tasks p")
  case Nil
  then show ?thesis using inv by (auto simp: pool_wake_inv_def ThreadPool_take_def dest!: set_updateD)
next
  case (Cons task tasks)
  have c: "Suc (checkers ((tp_workers p)[i := WRun task])) = checkers (tp_workers p)"
    using checkers_update [OF i(1), of "WRun task"] i(2) by simp
  show ?thesis using inv Cons c by (auto simp: pool_wake_inv_def ThreadPool_take_def dest!: set_updateD)
qed

lemma pool_wake_inv_step: "pool_step p p' \<Longrightarrow> pool_wake_inv p \<Longrightarrow> pool_wake_inv p'"
proof (induction rule: pool_step.induct)
  case (take i p)
  then show ?case by (simp add: pool_wake_inv_take)
next
  case (run i p task)
  then have "pool_wake_inv (p\<lparr>tp_notify := tp_notify p, tp_workers := (tp_workers p)[i := WCheck]\<rparr>)"
    by (intro pool_wake_inv_awake) auto
  then show ?case by (simp add: pool_wake_inv_def ThreadPool_run_def)
next
  case (notify_one p n i)
  then show ?case by (simp add: pool_wake_inv_awake)
next
  case (spurious i p)
  then have "pool_wake_inv (p\<lparr>tp_notify := tp_notify p, tp_workers := (tp_workers p)[i := WCheck]\<rparr>)"
    by (intro pool_wake_inv_awake) auto
  then show ?case by (simp add: pool_wake_inv_def)
qed (auto simp: pool_wake_inv_def ThreadPool_enqueue_def ThreadPool_destroy_def split: if_splits)

lemma pool_step_length: "pool_step p p' \<Longrightarrow> length (tp_workers p') = length (tp_workers p)"
  by (induction rule: pool_step.induct)
     (auto simp: ThreadPool_take_def ThreadPool_run_def ThreadPool_enqueue_def ThreadPool_destroy_def Let_def split: if_splits)

section \<open>Shutdown\<close>

fun worker_rank :: "'t worker \<Rightarrow> nat" where
  "worker_rank WCheck = 1"
| "worker_rank WSleep = 2"
| "worker_rank (WRun t) = 2"
| "worker_rank WDone = 0"

definition pool_rank :: "'t ThreadPool \<Rightarrow> nat" where
  "pool_rank p =
     3 * length (tp_tasks p) + (\<Sum>w\<leftarrow>tp_workers p. worker_rank w) + tp_notify p + (if tp_notify_all p then 1 else 0)"

lemma worker_rank_wake: "(\<Sum>w\<leftarrow>map wake ws. worker_rank w) \<le> (\<Sum>w\<leftarrow>ws. worker_rank w)"
  by (induction ws) (auto simp: wake_def)

lemma pool_stop_step:
  "pool_step p p' \<Longrightarrow> tp_stop p \<Longrightarrow> tp_stop p' \<and> pool_rank p' < pool_rank p"
proof (induction rule: pool_step.induct)
  case (take i p)
  then show ?case
    using sum_list_map_update [OF take(1), of worker_rank WDone] sum_list_map_update [OF take(1), of worker_rank "WRun (hd (tp_tasks p))"]
    by (cases "tp_tasks p") (auto simp: ThreadPool_take_def pool_rank_def)
next
  case (run i p task)
  then show ?case
    using sum_list_map_update [OF run(1), of worker_rank WCheck] by (auto simp: ThreadPool_run_def pool_rank_def)
next
  case (notify_one p n i)
  then show ?case
    using sum_list_map_update [OF notify_one(2), of worker_rank WCheck] by (auto simp: pool_rank_def)
next
  case (spurious i p)
  then show ?case
    using sum_list_map_update [OF spurious(1), of worker_rank WCheck] by (auto simp: pool_rank_def)
next
  case (notify_all p)
  then show ?case using worker_rank_wake [of "tp_workers p"] by (auto simp: pool_rank_def)
qed (auto simp: ThreadPool_enqueue_def pool_rank_def)

lemma tasks_none: "(\<Sum>w\<leftarrow>ws. tasks_of w) = {#} \<longleftrightarrow> (\<forall>w\<in>set ws. tasks_of w = {#})"
  by (induction ws) auto

lemma pool_inv_make: "pool_inv n (ThreadPool_make n)"
  by (simp add: pool_inv_def pool_tasks_inv_def pool_wake_inv_def ThreadPool_make_def running_def tasks_none del: map_replicate)

interpretation pool: terminating_system "\<lambda>p. p = ThreadPool_make n" pool_step "pool_inv n" tp_stop pool_rank
  by unfold_locales
     (auto simp: pool_inv_make pool_stop_step, auto simp: pool_inv_def pool_step_length intro: pool_tasks_inv_step pool_wake_inv_step)

text \<open>A state of the pool without steps: no worker can look, run or be woken up.\<close>

lemma pool_stuck:
  assumes "\<nexists>p'. pool_step p p'" "tp_stop p" "pool_inv n p" "0 < n"
  shows "ThreadPool_joined p \<and> tp_tasks p = [] \<and> running p = {#}"
proof -
  have w: "w = WDone" if mem: "w \<in> set (tp_workers p)" for w
  proof -
    obtain i where i: "i < length (tp_workers p)" "tp_workers p ! i = w" using mem by (auto simp: in_set_conv_nth)
    show ?thesis
    proof (cases w)
      case WCheck then show ?thesis using i assms(1) pool_step.take [of i p] by blast
    next
      case WSleep then show ?thesis using i assms(1) pool_step.spurious [of i p] by blast
    next
      case (WRun t) then show ?thesis using i assms(1) pool_step.run [of i p t] by blast
    qed
  qed
  moreover have "running p = {#}" using w by (fastforce simp: running_def tasks_none)
  moreover have "tp_workers p \<noteq> []" using assms(3,4) by (auto simp: pool_inv_def)
  then have "WDone \<in> set (tp_workers p)" using w [of "last (tp_workers p)"] last_in_set by force
  then have "tp_tasks p = []" using assms(3) by (simp add: pool_inv_def pool_wake_inv_def)
  ultimately show ?thesis by (auto simp: ThreadPool_joined_def)
qed

section \<open>Properties\<close>

text \<open>C11: in every interleaving of the workers of the thread pool and its clients, tasks are started in the order in
  which they were enqueued, each of them at most once, the started tasks are exactly those that are
  running or have finished, and there are never more running tasks than workers.\<close>

theorem pool_fifo:
  assumes "pool_step\<^sup>*\<^sup>* (ThreadPool_make n) p"
  shows "tp_enqueued p = tp_started p @ tp_tasks p \<and> mset (tp_started p) = mset (tp_finished p) + running p \<and>
    size (running p) \<le> n"
proof -
  have inv: "pool_inv n p" using assms by (rule pool.reachable_inv [OF refl])
  have "size (\<Sum>w\<leftarrow>ws. tasks_of w) \<le> length ws" for ws :: "'a worker list"
  proof (induction ws)
    case (Cons w ws)
    then show ?case by (cases w) auto
  qed simp
  then show ?thesis using inv by (auto simp: pool_inv_def pool_tasks_inv_def running_def)
qed

text \<open>C10: no wake-up is lost: while tasks are in the queue of a pool with workers, at least one worker runs a task, or
  is about to take one, or is going to be notified.\<close>

theorem pool_no_lost_wakeup:
  assumes "pool_step\<^sup>*\<^sup>* (ThreadPool_make n) p" "tp_tasks p \<noteq> []" "0 < n"
  shows "running p \<noteq> {#} \<or> WCheck \<in> set (tp_workers p) \<or> 0 < tp_notify p \<or> tp_notify_all p"
proof (rule ccontr)
  assume c: "\<not> ?thesis"
  have inv: "pool_inv n p" using assms(1) by (rule pool.reachable_inv [OF refl])
  have z: "checkers ws = 0" if "WCheck \<notin> set ws" for ws :: "'a worker list"
    using that by (induction ws) (auto simp: checkers_def)
  have r: "tasks_of w = {#}" if "w \<in> set (tp_workers p)" for w
    using c that by (simp add: running_def tasks_none)
  have "tp_workers p \<noteq> []" using inv assms(3) by (auto simp: pool_inv_def)
  then obtain w where w: "w \<in> set (tp_workers p)" by (meson last_in_set)
  have "w = WSleep \<or> w = WDone"
    by (cases w) (use c w r [OF w] in auto)
  then have "WSleep \<in> set (tp_workers p) \<or> WDone \<in> set (tp_workers p)" using w by auto
  then show False using inv c z [of "tp_workers p"] assms(2) unfolding pool_inv_def pool_wake_inv_def by auto
qed



text \<open>A run of a pool with one worker: a task is enqueued and run, then the pool is stopped.\<close>

definition small_run :: "nat ThreadPool list" where
  "small_run =
     (let p0 = ThreadPool_make 1; p1 = the (ThreadPool_enqueue 7 p0); p2 = p1\<lparr>tp_notify := 0\<rparr>;
          p3 = ThreadPool_destroy p2 in [p0, p1, p2, p3])"

lemma small_run_steps: "pool_step\<^sup>*\<^sup>* (ThreadPool_make 1) (small_run ! 2)" "pool_step\<^sup>*\<^sup>* (ThreadPool_make 1) (small_run ! 3)"
proof -
  let ?r = "\<lambda>i. small_run ! i"
  have z: "?r 0 = ThreadPool_make 1" by (simp add: small_run_def Let_def)
  have 1: "pool_step (?r 0) (?r 1)"
    by (rule pool_step.enqueue [of 7]) (simp add: small_run_def ThreadPool_enqueue_def ThreadPool_make_def Let_def)
  have "pool_step (?r 1) ((?r 1)\<lparr>tp_notify := 0\<rparr>)"
    by (rule pool_step.notify_none) (simp_all add: small_run_def ThreadPool_enqueue_def ThreadPool_make_def Let_def)
  then have 2: "pool_step (?r 1) (?r 2)" by (simp add: small_run_def Let_def)
  have "pool_step (?r 2) (ThreadPool_destroy (?r 2))"
    by (rule pool_step.destroy) (simp_all add: small_run_def ThreadPool_enqueue_def ThreadPool_make_def Let_def)
  then have 3: "pool_step (?r 2) (?r 3)" by (simp add: small_run_def Let_def)
  show "pool_step\<^sup>*\<^sup>* (ThreadPool_make 1) (?r 2)" unfolding z [symmetric] using 1 2 by auto
  then show "pool_step\<^sup>*\<^sup>* (ThreadPool_make 1) (?r 3)" using 3 by auto
qed

lemma small_run_eq: "small_run ! 2 = (ThreadPool_make 1)\<lparr>tp_tasks := [7], tp_enqueued := [7]\<rparr>"
  "small_run ! 3 = (ThreadPool_make 1)\<lparr>tp_tasks := [7], tp_enqueued := [7], tp_stop := True, tp_notify_all := True\<rparr>"
  by (simp_all add: small_run_def ThreadPool_enqueue_def ThreadPool_make_def ThreadPool_destroy_def Let_def)

theorem pool_fifo_witness:
  "tp_enqueued (small_run ! 2) = [] @ [7] \<and> size (running (small_run ! 2)) \<le> 1"
  using pool_fifo [OF small_run_steps(1)] by (simp add: small_run_eq ThreadPool_make_def)

theorem pool_no_lost_wakeup_witness:
  "tp_tasks (small_run ! 2) = [7] \<and> WCheck \<in> set (tp_workers (small_run ! 2))"
proof -
  have "tp_tasks (small_run ! 2) \<noteq> []" by (simp add: small_run_eq)
  from pool_no_lost_wakeup [OF small_run_steps(1) this] show ?thesis
    by (auto simp: small_run_eq ThreadPool_make_def running_def)
qed


end
