(* ===== verification/Servers.thy ===== *)
theory Servers
  imports Networks ThreadPools
begin

text \<open>
  The running server (\<^verbatim>\<open>main\<close> in \<^verbatim>\<open>main.cc\<close>): its event loop, the thread pool and the database composed into one
  step relation.

  The task of a request captures \<^verbatim>\<open>conn_fd\<close> and \<^verbatim>\<open>connection\<close>, two variables of the block it is created in, by
  reference. A task is therefore the number of that block, \<open>sv_tasks\<close> has the values of the variables of each
  block, and \<open>ms_scope\<close> is the block that the main thread is in. A task that runs when its block has been
  left uses variables that are gone, which is the error \<open>UseAfterFree\<close>.

  A task takes place in one step: what tasks share is the database, whose operations exclude each other, and
  the table of connections behind its mutex. The main thread stays in its loop for ever, so the pool is never
  stopped. Tasks in single steps and compaction threads are in the theory of the server's threads, which builds on this
  one.
\<close>

definition thread_pool_size :: nat where
  "thread_pool_size = 10"

record 'r main_state =
  ms_server :: "'r server"
  ms_pool :: "nat ThreadPool"
  ms_scope :: "nat option"
  ms_fault :: "err option"
  ms_served :: "(int \<times> request) list"

text \<open>The start of \<^verbatim>\<open>main\<close>: the database has been constructed, then the pool is.\<close>

definition main_make :: "'r \<Rightarrow> DBimpl \<Rightarrow> 'r main_state" where
  "main_make r db =
     \<lparr>ms_server = \<lparr>sv_heap = [], sv_connection_storage = Map.empty, sv_tasks = [], sv_written = [],
                   sv_closed = [], sv_db = db, sv_rand = r\<rparr>,
      ms_pool = ThreadPool_make thread_pool_size, ms_scope = None, ms_fault = None, ms_served = []\<rparr>"

text \<open>The body of the loop for one event, up to the call of \<^verbatim>\<open>enqueue\<close>; \<open>None\<close> is the exception of \<^verbatim>\<open>enqueue\<close>.\<close>

definition main_body :: "int \<Rightarrow> int \<Rightarrow> bool \<Rightarrow> bool \<Rightarrow> int \<Rightarrow> 'r main_state \<Rightarrow> 'r main_state option" where
  "main_body listen_fd fd epollin epollerr accepted sy =
     (let s = main_event listen_fd fd epollin epollerr accepted (ms_server sy); block = length (sv_tasks (ms_server sy)) in
      if length (sv_tasks s) = block then Some (sy\<lparr>ms_server := s\<rparr>)
      else
        case ThreadPool_enqueue block (ms_pool sy) of
          None \<Rightarrow> None
        | Some p \<Rightarrow> Some (sy\<lparr>ms_server := s, ms_pool := p, ms_scope := Some block\<rparr>))"

text \<open>The task of the block, on the worker \<open>self\<close>.\<close>

definition task_call ::
  "('r \<Rightarrow> nat \<times> 'r) \<Rightarrow> 'w posix \<Rightarrow> nat \<Rightarrow> int \<Rightarrow> nat \<Rightarrow> bytes option \<Rightarrow> 'w \<Rightarrow> nat \<Rightarrow> 'r main_state \<Rightarrow> 'r server option res" where
  "task_call rand os junk junk_op self received w block sy =
     (if ms_scope sy \<noteq> Some block then Inl UseAfterFree
      else case sv_tasks (ms_server sy) ! block of (conn_fd, connection) \<Rightarrow>
        serve_task rand os junk junk_op self conn_fd connection received w (ms_server sy))"

text \<open>The request that a task reads.\<close>

definition task_request :: "int \<Rightarrow> bytes option \<Rightarrow> nat \<Rightarrow> 'r server \<Rightarrow> request option" where
  "task_request junk_op received block s =
     (case snd (sv_tasks s ! block) of
        None \<Rightarrow> None
      | Some a \<Rightarrow> (case Parser_read junk_op received (sv_heap s ! a) of Inr (True, conn) \<Rightarrow> cn_req conn | _ \<Rightarrow> None))"

text \<open>A step of the pool alone: a worker looks at the queue, or wakes up, or the notification of \<^verbatim>\<open>enqueue\<close> is sent.\<close>

definition pool_moves :: "nat ThreadPool \<Rightarrow> nat ThreadPool \<Rightarrow> bool" where
  "pool_moves p p' \<longleftrightarrow>
     pool_step p p' \<and> tp_enqueued p' = tp_enqueued p \<and> tp_finished p' = tp_finished p \<and> tp_stop p' = tp_stop p"

inductive server_step ::
  "('r \<Rightarrow> nat \<times> 'r) \<Rightarrow> 'w posix \<Rightarrow> 'w \<Rightarrow> int \<Rightarrow> 'r main_state \<Rightarrow> 'r main_state \<Rightarrow> bool"
  for rand :: "'r \<Rightarrow> nat \<times> 'r" and os :: "'w posix" and w :: 'w and listen_fd :: int where
  event: "ms_fault sy = None \<Longrightarrow> ms_scope sy = None \<Longrightarrow> main_body listen_fd fd epollin epollerr accepted sy = Some sy' \<Longrightarrow>
    server_step rand os w listen_fd sy sy'"
| leave: "ms_fault sy = None \<Longrightarrow> ms_scope sy = Some block \<Longrightarrow> tp_notify (ms_pool sy) = 0 \<Longrightarrow>
    server_step rand os w listen_fd sy (sy\<lparr>ms_scope := None\<rparr>)"
| pool: "ms_fault sy = None \<Longrightarrow> pool_moves (ms_pool sy) p \<Longrightarrow> server_step rand os w listen_fd sy (sy\<lparr>ms_pool := p\<rparr>)"
| serve: "ms_fault sy = None \<Longrightarrow> i < length (tp_workers (ms_pool sy)) \<Longrightarrow> tp_workers (ms_pool sy) ! i = WRun block \<Longrightarrow>
    task_call rand os junk junk_op i received w block sy = Inr (Some s) \<Longrightarrow>
    task_request junk_op received block (ms_server sy) = Some req \<Longrightarrow>
    server_step rand os w listen_fd sy
      (sy\<lparr>ms_server := s, ms_pool := ThreadPool_run i block (ms_pool sy),
          ms_served := ms_served sy @ [(fst (sv_tasks (ms_server sy) ! block), req)]\<rparr>)"
| fault: "ms_fault sy = None \<Longrightarrow> i < length (tp_workers (ms_pool sy)) \<Longrightarrow> tp_workers (ms_pool sy) ! i = WRun block \<Longrightarrow>
    task_call rand os junk junk_op i received w block sy = Inl e \<Longrightarrow>
    server_step rand os w listen_fd sy (sy\<lparr>ms_fault := Some e\<rparr>)"

inductive_cases server_stepE: "server_step rand os w listen_fd sy sy'"

section \<open>The requests as operations on a map\<close>

text \<open>What a request does to the map, and its answer.\<close>

definition request_spec :: "request \<Rightarrow> (bytes \<rightharpoonup> bytes) \<Rightarrow> (bytes \<rightharpoonup> bytes) \<times> bytes option" where
  "request_spec req M =
     (if rq_op_code req = 1 then (update_map (UPut (rq_key req) (rq_value req)) M, Some answer_ok)
      else if rq_op_code req = 2 then
        (M, Some (case M (rq_key req) of None \<Rightarrow> answer_fail | Some v \<Rightarrow> answer_ok @ v @ [13, 10]))
      else if rq_op_code req = 3 then (update_map (UDelete (rq_key req)) M, Some answer_ok)
      else (M, None))"

definition serve_spec :: "int \<times> request \<Rightarrow> (bytes \<rightharpoonup> bytes) \<times> (int \<times> bytes) list \<Rightarrow> (bytes \<rightharpoonup> bytes) \<times> (int \<times> bytes) list" where
  "serve_spec x st =
     (case request_spec (snd x) (fst st) of
        (M, answer) \<Rightarrow> (M, snd st @ (case answer of None \<Rightarrow> [] | Some d \<Rightarrow> [(fst x, d)])))"

definition request_ok :: "request \<Rightarrow> bool" where
  "request_ok req \<longleftrightarrow> length (rq_key req) + length (rq_value req) < 2 ^ 16"

text \<open>The database has the map in memory, no files and no writers.\<close>

definition db_mem :: "DBimpl \<Rightarrow> (bytes \<rightharpoonup> bytes) \<Rightarrow> bool" where
  "db_mem db M \<longleftrightarrow> db_rep db M \<and> db_writers db = [] \<and> db_file_metas db = []"

lemma DBimpl_Write_blocked:
  assumes "db_writers db = []" "\<not> db_room junk db"
  shows "DBimpl_Write rand junk self w r db = Inr None"
  using assms by (auto simp: DBimpl_Write_def MakeRoom_eq db_room_def Let_def Writer_make_def)

lemma DBimpl_Write_mem:
  assumes db: "db_mem db M" and run: "DBimpl_Write rand junk self w r db = Inr (Some (r', n, db'))"
    and w: "batch_rep w q [u]" "WriteBatch_Bytes w \<le> 2 ^ 17" and q: "unat (db_last_sequence db) + 1 < 2 ^ 56"
  shows "db_mem db' (update_map u M)" "unat (db_last_sequence db') = unat (db_last_sequence db) + 1"
proof -
  have room: "db_room junk db" using DBimpl_Write_blocked [of db junk rand self w r] db run by (auto simp: db_mem_def)
  obtain r2 n2 db2 where g: "DBimpl_Write rand junk self w r db = Inr (Some (r2, n2, db2))" "db_rep db2 (fold update_map [u] M)"
    "db_writers db2 = []" "db_last_sequence db2 = db_last_sequence db + word_of_nat (length [u])" "db_file_metas db2 = db_file_metas db"
    using DBimpl_Write_rep [OF _ _ room w, of M rand self r] db q by (auto simp: db_mem_def)
  show "db_mem db' (update_map u M)" "unat (db_last_sequence db') = unat (db_last_sequence db) + 1"
    using g run db q by (auto simp: db_mem_def unat_word_ariths)
qed

text \<open>The batches of \<^verbatim>\<open>Put\<close> and \<^verbatim>\<open>Delete\<close> for keys and values of a request.\<close>

lemma put_batch:
  assumes "length k + length v < 2 ^ 16"
  obtains p where "WriteBatch_Put (Slice_string k) (Slice_string v) WriteBatch_make = Inr p" "batch_rep p 0 [UPut k v]"
    "WriteBatch_Bytes p \<le> 2 ^ 17"
proof -
  have hd: "wb_rep WriteBatch_make = replicate 12 0" by (simp add: WriteBatch_make_def WriteBatch_Clear_def kWriteBatchHeader_def)
  have "mkey_fits k v" using assms by (simp add: mkey_fits_def)
  then obtain p where p: "WriteBatch_Put (Slice_string k) (Slice_string v) WriteBatch_make = Inr p" "batch_rep p 0 [UPut k v]"
    using batch_rep_Put [OF batch_rep_make, of "Slice_string k" "Slice_string v"] assms by (auto simp: hd)
  have "WriteBatch_Bytes p \<le> 2 ^ 17"
    using p(2) assms EncodeVarint32_le_5 [of "word_of_nat (length k)"] EncodeVarint32_le_5 [of "word_of_nat (length v)"]
    by (simp add: WriteBatch_Bytes_def batch_rep_def batch_bytes_def)
  with p show thesis by (rule that)
qed

lemma delete_batch:
  assumes "length k < 2 ^ 16"
  obtains d where "WriteBatch_Delete (Slice_string k) WriteBatch_make = Inr d" "batch_rep d 0 [UDelete k]" "WriteBatch_Bytes d \<le> 2 ^ 17"
proof -
  have hd: "wb_rep WriteBatch_make = replicate 12 0" by (simp add: WriteBatch_make_def WriteBatch_Clear_def kWriteBatchHeader_def)
  have "mkey_fits k [32]" using assms by (simp add: mkey_fits_def)
  then obtain d where d: "WriteBatch_Delete (Slice_string k) WriteBatch_make = Inr d" "batch_rep d 0 [UDelete k]"
    using batch_rep_Delete [OF batch_rep_make, of "Slice_string k"] assms by (auto simp: hd)
  have "WriteBatch_Bytes d \<le> 2 ^ 17"
    using d(2) assms EncodeVarint32_le_5 [of "word_of_nat (length k)"]
    by (simp add: WriteBatch_Bytes_def batch_rep_def batch_bytes_def)
  with d show thesis by (rule that)
qed

lemma DBimpl_Put_mem:
  assumes "db_mem db M" "DBimpl_Put rand junk self (Slice_string k) (Slice_string v) r db = Inr (Some (r', n, db'))"
    "length k + length v < 2 ^ 16" "unat (db_last_sequence db) + 1 < 2 ^ 56"
  shows "db_mem db' (update_map (UPut k v) M)" "unat (db_last_sequence db') = unat (db_last_sequence db) + 1"
proof -
  obtain p where p: "WriteBatch_Put (Slice_string k) (Slice_string v) WriteBatch_make = Inr p" "batch_rep p 0 [UPut k v]"
    "WriteBatch_Bytes p \<le> 2 ^ 17" by (rule put_batch [OF assms(3)])
  from DBimpl_Write_mem [OF assms(1) _ p(2,3) assms(4)] show "db_mem db' (update_map (UPut k v) M)"
    "unat (db_last_sequence db') = unat (db_last_sequence db) + 1"
    using assms(2) p(1) by (auto simp: DBimpl_Put_def)
qed

lemma DBimpl_Delete_mem:
  assumes "db_mem db M" "DBimpl_Delete rand junk self (Slice_string k) r db = Inr (Some (r', n, db'))"
    "length k < 2 ^ 16" "unat (db_last_sequence db) + 1 < 2 ^ 56"
  shows "db_mem db' (update_map (UDelete k) M)" "unat (db_last_sequence db') = unat (db_last_sequence db) + 1"
proof -
  obtain d where d: "WriteBatch_Delete (Slice_string k) WriteBatch_make = Inr d" "batch_rep d 0 [UDelete k]"
    "WriteBatch_Bytes d \<le> 2 ^ 17" by (rule delete_batch [OF assms(3)])
  from DBimpl_Write_mem [OF assms(1) _ d(2,3) assms(4)] show "db_mem db' (update_map (UDelete k) M)"
    "unat (db_last_sequence db') = unat (db_last_sequence db) + 1"
    using assms(2) d(1) by (auto simp: DBimpl_Delete_def)
qed

lemma DBimpl_Get_mem:
  assumes "db_mem db M" "length k < 2 ^ 16"
  shows "DBimpl_Get os (Slice_string k) db w = Inr (M k)"
  using assms DBimpl_Get_rep [of db M "Slice_string k" os w] by (auto simp: db_mem_def mkey_fits_def split: option.splits)

text \<open>The switch of the task implements the operations on the map.\<close>

lemma answer_request_spec:
  assumes db: "db_mem db M" and ok: "request_ok req" and q: "unat (db_last_sequence db) + 1 < 2 ^ 56"
    and run: "answer_request rand os junk self req r db w = Inr (Some (req', answer, r', db'))"
  shows "db_mem db' (fst (request_spec req M))" "answer = snd (request_spec req M)"
    "unat (db_last_sequence db') \<le> unat (db_last_sequence db) + 1"
proof -
  have len: "length (rq_key req) < 2 ^ 16" "length (rq_key req) + length (rq_value req) < 2 ^ 16" using ok by (simp_all add: request_ok_def)
  consider (put) "rq_op_code req = 1" | (get) "rq_op_code req = 2" | (del) "rq_op_code req = 3"
    | (none) "rq_op_code req \<noteq> 1" "rq_op_code req \<noteq> 2" "rq_op_code req \<noteq> 3" by blast
  then have "db_mem db' (fst (request_spec req M)) \<and> answer = snd (request_spec req M) \<and>
    unat (db_last_sequence db') \<le> unat (db_last_sequence db) + 1"
  proof cases
    case put
    then show ?thesis
      using run DBimpl_Put_mem [OF db _ len(2) q, of rand junk self r]
      by (auto simp: answer_request_def request_spec_def simp del: update_map.simps split: option.split_asm)
  next
    case get
    then show ?thesis
      using run db DBimpl_Get_mem [OF db len(1), of os w] by (auto simp: answer_request_def request_spec_def split: option.split_asm)
  next
    case del
    then show ?thesis
      using run DBimpl_Delete_mem [OF db _ len(1) q, of rand junk self r]
      by (auto simp: answer_request_def request_spec_def simp del: update_map.simps split: option.split_asm)
  next
    case none
    then show ?thesis using run db by (auto simp: answer_request_def request_spec_def)
  qed
  then show "db_mem db' (fst (request_spec req M))" "answer = snd (request_spec req M)"
    "unat (db_last_sequence db') \<le> unat (db_last_sequence db) + 1" by auto
qed

section \<open>Invariants\<close>

text \<open>What a task that has been served leaves behind.\<close>

lemma serve_task_spec:
  assumes run: "serve_task rand os junk junk_op self fd (Some a) received w s = Inr (Some s')"
    and req: "Parser_read junk_op received (sv_heap s ! a) = Inr (True, conn)" "cn_req conn = Some req"
  shows "sv_tasks s' = sv_tasks s \<and> sv_closed s' = sv_closed s @ [fd] \<and>
    (db_mem (sv_db s) M \<and> request_ok req \<and> unat (db_last_sequence (sv_db s)) + 1 < 2 ^ 56 \<longrightarrow>
      db_mem (sv_db s') (fst (serve_spec (fd, req) (M, sv_written s))) \<and> sv_written s' = snd (serve_spec (fd, req) (M, sv_written s)) \<and>
      unat (db_last_sequence (sv_db s')) \<le> unat (db_last_sequence (sv_db s)) + 1)"
proof -
  obtain req' answer r' db' where a: "answer_request rand os junk self req (sv_rand s) (sv_db s) w = Inr (Some (req', answer, r', db'))"
    and s': "s' = serve_finish fd a conn (req', answer, r', db') s"
    using run req by (auto simp: serve_task_def)
  have "db_mem db' (fst (request_spec req M)) \<and> answer = snd (request_spec req M) \<and>
      unat (db_last_sequence db') \<le> unat (db_last_sequence (sv_db s)) + 1"
    if "db_mem (sv_db s) M" "request_ok req" "unat (db_last_sequence (sv_db s)) + 1 < 2 ^ 56"
    using answer_request_spec [OF that a] by simp
  then show ?thesis by (auto simp: s' serve_finish_def serve_spec_def split: prod.splits option.splits)
qed

lemma task_request_read:
  assumes "task_request junk_op received block s = Some req"
  obtains a conn where "snd (sv_tasks s ! block) = Some a" "Parser_read junk_op received (sv_heap s ! a) = Inr (True, conn)"
    "cn_req conn = Some req"
  using assms by (auto simp: task_request_def split: option.splits sum.splits bool.splits)

lemma task_callD:
  assumes "task_call rand os junk junk_op i received w block sy = Inr x"
  shows "ms_scope sy = Some block \<and>
    serve_task rand os junk junk_op i (fst (sv_tasks (ms_server sy) ! block)) (snd (sv_tasks (ms_server sy) ! block)) received w (ms_server sy) = Inr x"
  using assms by (simp add: task_call_def case_prod_beta split: if_splits)

lemma main_event_storage: "storage_inv s \<Longrightarrow> storage_inv (main_event listen_fd fd epollin epollerr accepted s)"
  by (auto simp: main_event_def storage_inv_def hashmap_set_def hashmap_get_def hashmap_erase_eq Let_def less_SucI
      split: if_splits option.splits)

lemma main_event_frame:
  "sv_db (main_event listen_fd fd epollin epollerr accepted s) = sv_db s"
  "sv_written (main_event listen_fd fd epollin epollerr accepted s) = sv_written s"
  "sv_closed (main_event listen_fd fd epollin epollerr accepted s) = sv_closed s"
  "\<exists>xs. sv_tasks (main_event listen_fd fd epollin epollerr accepted s) = sv_tasks s @ xs \<and> length xs \<le> 1"
  by (simp_all add: main_event_def Let_def case_prod_beta)

text \<open>
  The tasks of the pool are the blocks in their order, at most the last one is in scope, and those that have
  finished are the ones whose requests have been served, in the same order.
\<close>

definition main_inv :: "'r main_state \<Rightarrow> bool" where
  "main_inv sy \<longleftrightarrow>
     pool_inv thread_pool_size (ms_pool sy) \<and> \<not> tp_stop (ms_pool sy) \<and>
     tp_enqueued (ms_pool sy) = [0..<length (sv_tasks (ms_server sy))] \<and>
     (\<forall>n. ms_scope sy = Some n \<longrightarrow> Suc n = length (sv_tasks (ms_server sy))) \<and>
     storage_inv (ms_server sy) \<and>
     map fst (ms_served sy) = map (\<lambda>n. fst (sv_tasks (ms_server sy) ! n)) (tp_finished (ms_pool sy)) \<and>
     sv_closed (ms_server sy) = map fst (ms_served sy)"

text \<open>The database and the answers are those of the requests served so far.\<close>

definition main_data :: "(bytes \<rightharpoonup> bytes) \<Rightarrow> nat \<Rightarrow> 'r main_state \<Rightarrow> bool" where
  "main_data M0 q sy \<longleftrightarrow>
     ((\<forall>x\<in>set (ms_served sy). request_ok (snd x)) \<and> q + length (ms_served sy) < 2 ^ 56 \<longrightarrow>
        db_mem (sv_db (ms_server sy)) (fst (fold serve_spec (ms_served sy) (M0, []))) \<and>
        sv_written (ms_server sy) = snd (fold serve_spec (ms_served sy) (M0, [])) \<and>
        unat (db_last_sequence (sv_db (ms_server sy))) \<le> q + length (ms_served sy))"

lemma finished_bound:
  assumes "pool_inv n p" "tp_enqueued p = [0..<k]"
  shows "set (tp_finished p) \<subseteq> {..<k}" "distinct (tp_finished p)" "tp_started p = [0..<length (tp_started p)]"
proof -
  have inv: "tp_enqueued p = tp_started p @ tp_tasks p" "mset (tp_started p) = mset (tp_finished p) + running p"
    using assms(1) by (simp_all add: pool_inv_def pool_tasks_inv_def)
  have st: "tp_started p = take (length (tp_started p)) [0..<k]" using inv(1) assms(2) by simp
  have "length (tp_started p) \<le> k" using inv(1) assms(2) by (metis append_eq_conv_conj length_take length_upt min.cobounded2 diff_zero st nat_le_linear length_append le_add1)
  then show "tp_started p = [0..<length (tp_started p)]" using st by (simp add: take_upt)
  have "distinct (tp_started p)" using st by (metis distinct_take distinct_upt)
  moreover obtain ys where "mset ys = running p" using ex_mset by blast
  ultimately have "distinct (tp_finished p @ ys)" using inv(2) mset_eq_imp_distinct_iff [of "tp_started p" "tp_finished p @ ys"] by simp
  then show "distinct (tp_finished p)" by simp
  have "set (tp_finished p) \<subseteq> set (tp_started p)" using inv(2) by (metis mset_subset_eq_add_left set_mset_mono set_mset_mset)
  also have "\<dots> \<subseteq> {..<k}" using st by (metis atLeast_upt set_take_subset)
  finally show "set (tp_finished p) \<subseteq> {..<k}" .
qed

lemma main_inv_make: "main_inv (main_make r db)"
  using pool_inv_make [of thread_pool_size]
  by (simp add: main_inv_def main_make_def storage_inv_def, simp add: ThreadPool_make_def)

lemma pool_inv_step: "pool_step p p' \<Longrightarrow> pool_inv n p \<Longrightarrow> pool_inv n p'"
  by (auto simp: pool_inv_def pool_step_length intro: pool_tasks_inv_step pool_wake_inv_step)

lemma map_fst_tasks:
  assumes "set ns \<subseteq> {..<length xs}"
  shows "map (\<lambda>n. fst ((xs @ ys) ! n)) ns = map (\<lambda>n. fst (xs ! n)) ns"
  using assms by (auto simp: nth_append)

lemma main_body_inv:
  assumes inv: "main_inv sy" and run: "main_body listen_fd fd epollin epollerr accepted sy = Some sy'" "ms_scope sy = None"
  shows "main_inv sy'"
proof -
  let ?s = "ms_server sy"
  define s' where "s' = main_event listen_fd fd epollin epollerr accepted ?s"
  obtain xs where xs: "sv_tasks s' = sv_tasks ?s @ xs" "length xs \<le> 1" using main_event_frame(4) [of listen_fd fd epollin epollerr accepted ?s] by (auto simp: s'_def)
  have st: "storage_inv s'" "sv_closed s' = sv_closed ?s"
    using inv main_event_storage by (auto simp: s'_def main_inv_def main_event_frame)
  have fin: "set (tp_finished (ms_pool sy)) \<subseteq> {..<length (sv_tasks ?s)}"
    using finished_bound(1) [of thread_pool_size "ms_pool sy"] inv by (simp add: main_inv_def)
  note same = map_fst_tasks [OF fin, of xs]
  show ?thesis
  proof (cases "xs = []")
    case True
    then have "sy' = sy\<lparr>ms_server := s'\<rparr>" using run(1) xs by (simp add: main_body_def s'_def [symmetric])
    then show ?thesis using inv st xs True run(2) by (simp add: main_inv_def)
  next
    case False
    then have l: "length (sv_tasks s') = Suc (length (sv_tasks ?s))" using xs by (cases xs) auto
    then obtain p where p: "ThreadPool_enqueue (length (sv_tasks ?s)) (ms_pool sy) = Some p"
      "sy' = sy\<lparr>ms_server := s', ms_pool := p, ms_scope := Some (length (sv_tasks ?s))\<rparr>"
      using run(1) by (auto simp: main_body_def s'_def [symmetric] Let_def split: option.splits)
    have "pool_inv thread_pool_size p" using pool_inv_step [OF pool_step.enqueue [OF p(1)]] inv by (simp add: main_inv_def)
    moreover have "tp_enqueued p = [0..<length (sv_tasks s')]" "\<not> tp_stop p" "tp_finished p = tp_finished (ms_pool sy)"
      using p(1) inv l by (auto simp: ThreadPool_enqueue_def main_inv_def split: if_splits)
    ultimately show ?thesis using inv st l same xs(1) by (simp add: main_inv_def p(2))
  qed
qed

lemma task_served:
  assumes call: "task_call rand os junk junk_op i received w block sy = Inr (Some s)"
    "task_request junk_op received block (ms_server sy) = Some req"
  defines "fd \<equiv> fst (sv_tasks (ms_server sy) ! block)"
  shows "sv_tasks s = sv_tasks (ms_server sy)" "sv_closed s = sv_closed (ms_server sy) @ [fd]"
    "storage_inv (ms_server sy) \<Longrightarrow> storage_inv s"
    "db_mem (sv_db (ms_server sy)) M \<Longrightarrow> request_ok req \<Longrightarrow> unat (db_last_sequence (sv_db (ms_server sy))) + 1 < 2 ^ 56 \<Longrightarrow>
      db_mem (sv_db s) (fst (serve_spec (fd, req) (M, sv_written (ms_server sy)))) \<and>
      sv_written s = snd (serve_spec (fd, req) (M, sv_written (ms_server sy))) \<and>
      unat (db_last_sequence (sv_db s)) \<le> unat (db_last_sequence (sv_db (ms_server sy))) + 1"
proof -
  obtain a conn where req: "snd (sv_tasks (ms_server sy) ! block) = Some a" "Parser_read junk_op received (sv_heap (ms_server sy) ! a) = Inr (True, conn)"
    "cn_req conn = Some req"
    by (rule task_request_read [OF call(2)])
  have run: "serve_task rand os junk junk_op i fd (Some a) received w (ms_server sy) = Inr (Some s)"
    using task_callD [OF call(1)] req(1) by (simp add: fd_def)
  note spec = serve_task_spec [OF run req(2,3)]
  show "sv_tasks s = sv_tasks (ms_server sy)" "sv_closed s = sv_closed (ms_server sy) @ [fd]" using spec by simp_all
  show "storage_inv s" if "storage_inv (ms_server sy)" by (rule storage_inv_erase [OF that serve_task_frame [OF run]])
  show "db_mem (sv_db s) (fst (serve_spec (fd, req) (M, sv_written (ms_server sy)))) \<and>
      sv_written s = snd (serve_spec (fd, req) (M, sv_written (ms_server sy))) \<and>
      unat (db_last_sequence (sv_db s)) \<le> unat (db_last_sequence (sv_db (ms_server sy))) + 1"
    if "db_mem (sv_db (ms_server sy)) M" "request_ok req" "unat (db_last_sequence (sv_db (ms_server sy))) + 1 < 2 ^ 56"
    using spec [of M] that by blast
qed

lemma main_inv_step:
  assumes "server_step rand os w listen_fd sy sy'" "main_inv sy"
  shows "main_inv sy'"
  using assms
proof (induction rule: server_step.induct)
  case (event sy fd epollin epollerr accepted sy')
  then show ?case using main_body_inv by blast
next
  case (pool sy p)
  then have "pool_inv thread_pool_size p" using pool_inv_step by (auto simp: main_inv_def pool_moves_def)
  then show ?case using pool by (auto simp: main_inv_def pool_moves_def)
next
  case (serve sy i block junk junk_op received s req)
  have "pool_inv thread_pool_size (ThreadPool_run i block (ms_pool sy))"
    using pool_inv_step [OF pool_step.run [OF serve(2,3)]] serve.prems by (simp add: main_inv_def)
  then show ?case using task_served(1-3) [OF serve(4,5)] serve.prems by (simp add: main_inv_def, simp add: ThreadPool_run_def)
qed (auto simp: main_inv_def)

lemma main_data_step:
  assumes "server_step rand os w listen_fd sy sy'" "main_data M0 q sy"
  shows "main_data M0 q sy'"
  using assms
proof (induction rule: server_step.induct)
  case (event sy fd epollin epollerr accepted sy')
  then show ?case by (auto simp: main_body_def main_data_def main_event_frame Let_def split: if_splits option.splits)
next
  case (serve sy i block junk junk_op received s req)
  let ?st = "fold serve_spec (ms_served sy) (M0, [])"
  have "(fst ?st, snd ?st) = ?st" by simp
  then show ?case
    using task_served(4) [OF serve(4,5), of "fst ?st"] serve.prems by (fastforce simp: main_data_def)
qed (auto simp: main_data_def)

lemma main_data_make: "db_mem db M0 \<Longrightarrow> main_data M0 (unat (db_last_sequence db)) (main_make r db)"
  by (simp add: main_data_def main_make_def)

interpretation server: invariant_system "\<lambda>sy. sy = main_make r db" "server_step rand os w listen_fd" main_inv
  by unfold_locales (auto intro: main_inv_make main_inv_step)

interpretation server_data: invariant_system "main_data M0 q" "server_step rand os w listen_fd" "main_data M0 q"
  by unfold_locales (auto intro: main_data_step)

section \<open>Tasks that use variables out of scope\<close>

lemma pool_moves_notify:
  assumes "tp_notify p = Suc n"
  obtains p' where "pool_moves p p'" "tp_notify p' = n" "\<forall>i < length (tp_workers p). \<forall>t. tp_workers p ! i = WRun t \<longrightarrow> tp_workers p' ! i = WRun t"
    "length (tp_workers p') = length (tp_workers p)"
proof (cases "WSleep \<in> set (tp_workers p)")
  case True
  then obtain i where i: "i < length (tp_workers p)" "tp_workers p ! i = WSleep" by (auto simp: in_set_conv_nth)
  show thesis
    by (rule that [of "p\<lparr>tp_notify := n, tp_workers := (tp_workers p)[i := WCheck]\<rparr>"])
       (use pool_step.notify_one [OF assms i] i in \<open>auto simp: pool_moves_def nth_list_update\<close>)
next
  case False
  show thesis by (rule that [of "p\<lparr>tp_notify := n\<rparr>"]) (use pool_step.notify_none [OF assms False] in \<open>auto simp: pool_moves_def\<close>)
qed

text \<open>A worker that has a task can be late: the main thread sends its notification and leaves the block.\<close>

lemma task_can_dangle:
  "ms_fault sy = None \<Longrightarrow> i < length (tp_workers (ms_pool sy)) \<Longrightarrow> tp_workers (ms_pool sy) ! i = WRun block \<Longrightarrow>
     \<exists>sy'. (server_step rand os w listen_fd)\<^sup>*\<^sup>* sy sy' \<and> ms_fault sy' = Some UseAfterFree"
proof (induction "tp_notify (ms_pool sy)" arbitrary: sy)
  case 0
  have late: "server_step rand os w listen_fd s (s\<lparr>ms_fault := Some UseAfterFree\<rparr>)"
    if "ms_scope s \<noteq> Some block" "ms_fault s = None" "ms_pool s = ms_pool sy" for s
    using server_step.fault [of s i block rand os 0 0 None w UseAfterFree listen_fd] 0(3,4) that by (simp add: task_call_def)
  show ?case
  proof (cases "ms_scope sy = Some block")
    case True
    have "server_step rand os w listen_fd sy (sy\<lparr>ms_scope := None\<rparr>)" by (rule server_step.leave) (use 0 True in simp_all)
    moreover have "server_step rand os w listen_fd (sy\<lparr>ms_scope := None\<rparr>) (sy\<lparr>ms_scope := None, ms_fault := Some UseAfterFree\<rparr>)"
      using late [of "sy\<lparr>ms_scope := None\<rparr>"] 0(2) by simp
    ultimately show ?thesis by (intro exI [of _ "sy\<lparr>ms_scope := None, ms_fault := Some UseAfterFree\<rparr>"]) auto
  qed (use late [of sy] 0(2) in \<open>auto intro!: exI [of _ "sy\<lparr>ms_fault := Some UseAfterFree\<rparr>"]\<close>)
next
  case (Suc n)
  obtain p' where p': "pool_moves (ms_pool sy) p'" "tp_notify p' = n" "length (tp_workers p') = length (tp_workers (ms_pool sy))"
    "\<forall>i < length (tp_workers (ms_pool sy)). \<forall>t. tp_workers (ms_pool sy) ! i = WRun t \<longrightarrow> tp_workers p' ! i = WRun t"
    by (rule pool_moves_notify [OF Suc.hyps(2) [symmetric]])
  then obtain sy' where "(server_step rand os w listen_fd)\<^sup>*\<^sup>* (sy\<lparr>ms_pool := p'\<rparr>) sy'" "ms_fault sy' = Some UseAfterFree"
    using Suc.hyps(1) [of "sy\<lparr>ms_pool := p'\<rparr>"] Suc.prems by auto
  then show ?case using server_step.pool [OF Suc.prems(1) p'(1), of rand os w listen_fd] by (meson converse_rtranclp_into_rtranclp)
qed

text \<open>A task in the queue can be taken by a worker that does not run one.\<close>

lemma queued_can_dangle:
  assumes "ms_fault sy = None" "tp_tasks (ms_pool sy) \<noteq> []" "i < length (tp_workers (ms_pool sy))" "tp_workers (ms_pool sy) ! i = WCheck"
  shows "\<exists>sy'. (server_step rand os w listen_fd)\<^sup>*\<^sup>* sy sy' \<and> ms_fault sy' = Some UseAfterFree"
proof -
  let ?p = "ThreadPool_take i (ms_pool sy)"
  have "pool_moves (ms_pool sy) ?p"
    using pool_step.take [OF assms(3,4)] assms(2) by (simp add: pool_moves_def, simp add: ThreadPool_take_def Let_def)
  then have "server_step rand os w listen_fd sy (sy\<lparr>ms_pool := ?p\<rparr>)" by (rule server_step.pool [OF assms(1)])
  moreover have "i < length (tp_workers ?p)" "tp_workers ?p ! i = WRun (hd (tp_tasks (ms_pool sy)))"
    using assms(2,3) by (simp_all add: ThreadPool_take_def Let_def)
  then obtain sy' where "(server_step rand os w listen_fd)\<^sup>*\<^sup>* (sy\<lparr>ms_pool := ?p\<rparr>) sy'" "ms_fault sy' = Some UseAfterFree"
    using task_can_dangle [of "sy\<lparr>ms_pool := ?p\<rparr>" i "hd (tp_tasks (ms_pool sy))" rand os w listen_fd] assms(1) by auto
  ultimately show ?thesis by (meson converse_rtranclp_into_rtranclp)
qed

lemma unfinished_can_dangle:
  assumes inv: "main_inv sy" "ms_fault sy = None" and n: "length (tp_finished (ms_pool sy)) < length (sv_tasks (ms_server sy))"
  shows "\<exists>sy'. (server_step rand os w listen_fd)\<^sup>*\<^sup>* sy sy' \<and> ms_fault sy' = Some UseAfterFree"
proof (cases "\<exists>i t. i < length (tp_workers (ms_pool sy)) \<and> tp_workers (ms_pool sy) ! i = WRun t")
  case True
  then obtain i t where "i < length (tp_workers (ms_pool sy))" "tp_workers (ms_pool sy) ! i = WRun t" by blast
  then show ?thesis by (rule task_can_dangle [OF inv(2)])
next
  case False
  let ?p = "ms_pool sy"
  have p: "length (tp_workers ?p) = 10" "tp_enqueued ?p = tp_started ?p @ tp_tasks ?p" "mset (tp_started ?p) = mset (tp_finished ?p) + running ?p"
    "WDone \<notin> set (tp_workers ?p)" "tp_enqueued ?p = [0..<length (sv_tasks (ms_server sy))]"
    using inv(1) by (auto simp: main_inv_def pool_inv_def pool_tasks_inv_def pool_wake_inv_def thread_pool_size_def)
  have idle: "w = WCheck \<or> w = WSleep" if mem: "w \<in> set (tp_workers ?p)" for w
    by (cases w) (use mem False p(4) in \<open>auto simp: in_set_conv_nth\<close>)
  then have "running ?p = {#}" by (force simp: running_def tasks_none)
  then have "length (tp_started ?p) = length (tp_finished ?p)" using p(3) by (metis add.right_neutral size_mset)
  then have tasks: "tp_tasks ?p \<noteq> []" using n p(2,5) by (metis append_Nil2 length_upt diff_zero less_irrefl)
  have "tp_workers ?p ! 0 = WCheck \<or> tp_workers ?p ! 0 = WSleep" using idle p(1) by simp
  then show ?thesis
  proof
    assume "tp_workers ?p ! 0 = WCheck"
    then show ?thesis using queued_can_dangle [OF inv(2) tasks, of 0] p(1) by simp
  next
    assume z: "tp_workers ?p ! 0 = WSleep"
    let ?p' = "?p\<lparr>tp_workers := (tp_workers ?p)[0 := WCheck]\<rparr>"
    have "pool_moves ?p ?p'" using pool_step.spurious [of 0 ?p] z p(1) by (simp add: pool_moves_def)
    then have "server_step rand os w listen_fd sy (sy\<lparr>ms_pool := ?p'\<rparr>)" by (rule server_step.pool [OF inv(2)])
    moreover obtain sy' where "(server_step rand os w listen_fd)\<^sup>*\<^sup>* (sy\<lparr>ms_pool := ?p'\<rparr>) sy'" "ms_fault sy' = Some UseAfterFree"
      using queued_can_dangle [of "sy\<lparr>ms_pool := ?p'\<rparr>" 0 rand os w listen_fd] inv(2) tasks p(1) by auto
    ultimately show ?thesis by (meson converse_rtranclp_into_rtranclp)
  qed
qed

section \<open>Properties\<close>


text \<open>C13: the tasks capture variables of the loop's body by reference, and nothing makes the main thread wait for them:
  whenever a request has arrived whose task has not finished, the run can go on to a state in which a
  task uses variables that are out of scope.\<close>

theorem task_out_of_scope:
  assumes "(server_step rand os w listen_fd)\<^sup>*\<^sup>* (main_make r db) sy" "ms_fault sy = None"
    "length (tp_finished (ms_pool sy)) < length (sv_tasks (ms_server sy))"
  shows "\<exists>sy'. (server_step rand os w listen_fd)\<^sup>*\<^sup>* sy sy' \<and> ms_fault sy' = Some UseAfterFree"
  by (rule unfinished_can_dangle [OF server.reachable_inv [OF refl assms(1)] assms(2,3)])

text \<open>A client connects with the descriptor 5 and sends a request.\<close>

definition sample_main :: "nat main_state" where
  "sample_main =
     (let sy = the (main_body 3 3 True False 5 (main_make 0 fresh_db)) in the (main_body 3 5 True False 0 sy))"

lemma sample_main_eq:
  "sample_main = (main_make 0 fresh_db)
     \<lparr>ms_server := (ms_server (main_make 0 fresh_db))\<lparr>sv_heap := [connection_make], sv_connection_storage := [5 \<mapsto> Some 0], sv_tasks := [(5, Some 0)]\<rparr>,
      ms_pool := (ThreadPool_make thread_pool_size)\<lparr>tp_tasks := [0], tp_notify := 1, tp_enqueued := [0]\<rparr>, ms_scope := Some 0\<rparr>"
  by (simp add: sample_main_def main_body_def main_event_def main_make_def hashmap_count_def hashmap_set_def hashmap_get_def
      ThreadPool_enqueue_def ThreadPool_make_def Let_def)

lemma sample_main_reachable: "(server_step rand os w 3)\<^sup>*\<^sup>* (main_make 0 fresh_db) sample_main"
proof -
  define sy where "sy = the (main_body 3 3 True False 5 (main_make (0::nat) fresh_db))"
  have sy: "main_body 3 3 True False 5 (main_make 0 fresh_db) = Some sy"
    by (simp add: sy_def main_body_def main_event_def main_make_def Let_def)
  then have sy': "main_body 3 5 True False 0 sy = Some sample_main"
    by (auto simp: sample_main_def sy_def main_body_def main_event_def main_make_def ThreadPool_enqueue_def ThreadPool_make_def Let_def
        split: prod.splits)
  have "server_step rand os w 3 (main_make 0 fresh_db) sy" by (rule server_step.event [OF _ _ sy]) (simp_all add: main_make_def)
  moreover have "server_step rand os w 3 sy sample_main"
    by (rule server_step.event [OF _ _ sy']) (simp_all add: sy_def main_body_def main_event_def main_make_def Let_def)
  ultimately show ?thesis by auto
qed

theorem task_out_of_scope_witness:
  "\<exists>sy. (server_step (\<lambda>n. (n, n + 1)) slow_os [] 3)\<^sup>*\<^sup>* (main_make 0 fresh_db) sy \<and> ms_fault sy = Some UseAfterFree"
proof -
  have "ms_fault sample_main = None" "length (tp_finished (ms_pool sample_main)) < length (sv_tasks (ms_server sample_main))"
    by (simp_all add: sample_main_eq main_make_def ThreadPool_make_def)
  from task_out_of_scope [OF sample_main_reachable this] show ?thesis by (meson rtranclp_trans sample_main_reachable)
qed


end
