(* ===== verification/ServerThreads.thy ===== *)
theory ServerThreads
  imports DBThreads Servers
begin

text \<open>
  The whole program: the main thread, the workers of the thread pool and the threads of the database in one step
  relation. It is finer than the theory of the running server, where a task is one step and the database has no
  threads of its own: here a task is the sequence of the steps that other threads can observe (\<^verbatim>\<open>main.cc\<close>), a put or a delete
  is a writer among the threads of the database, and compactions run in between.

  The state extends the connections of the server. \<open>wh_calls\<close> is the place in its task of each worker. The
  variables of the block in which a task was created are there while the main thread is in it, \<open>wh_scope\<close>; the
  connection object is there while a pointer to it is in the table or in that block.
\<close>

text \<open>
  Before reading, before the switch, in a call of \<^verbatim>\<open>Write\<close> as a thread of the database, before the answer is written,
  before \<^verbatim>\<open>close\<close> and before \<^verbatim>\<open>erase\<close>. The first number is that of the commits when the request was read, the one with
  an answer that of the commits before the request took effect; they only record the order of events.
\<close>

datatype task_pc =
    AtRead
  | AtSwitch nat
  | InWrite nat request nat
  | AtAnswer nat request nat "bytes option"
  | AtClose
  | AtErase

text \<open>An answer that was written: the commits when the request was read, when it took effect and when it was answered.\<close>

record answered =
  an_fd :: int
  an_request :: request
  an_from :: nat
  an_at :: nat
  an_to :: nat
  an_answer :: bytes

record ('r, 'w) whole = conns +
  wh_sys :: "('r, 'w) system"
  wh_pool :: "nat ThreadPool"
  wh_scope :: "nat option"
  wh_fault :: "err option"
  wh_calls :: "nat \<Rightarrow> task_pc"
  wh_answers :: "answered list"

definition whole_make :: "'r \<Rightarrow> 'w \<Rightarrow> DBimpl \<Rightarrow> ('r, 'w) whole" where
  "whole_make r w db =
     \<lparr>sv_heap = [], sv_connection_storage = Map.empty, sv_tasks = [], sv_written = [], sv_closed = [], wh_sys = sys_start db r w,
      wh_pool = ThreadPool_make thread_pool_size, wh_scope = None, wh_fault = None, wh_calls = (\<lambda>i. AtRead), wh_answers = []\<rparr>"

text \<open>The body of the main loop, up to the call of \<^verbatim>\<open>enqueue\<close>; \<open>None\<close> is the exception of \<^verbatim>\<open>enqueue\<close>.\<close>

definition loop_body :: "int \<Rightarrow> int \<Rightarrow> bool \<Rightarrow> bool \<Rightarrow> int \<Rightarrow> ('r, 'w) whole \<Rightarrow> ('r, 'w) whole option" where
  "loop_body listen_fd fd epollin epollerr accepted s =
     (let s' = main_event listen_fd fd epollin epollerr accepted s; block = length (sv_tasks s) in
      if length (sv_tasks s') = block then Some s'
      else
        case ThreadPool_enqueue block (wh_pool s) of
          None \<Rightarrow> None
        | Some p \<Rightarrow> Some (s'\<lparr>wh_pool := p, wh_scope := Some block\<rparr>))"

section \<open>The steps of a task\<close>

definition commits :: "('r, 'w) whole \<Rightarrow> nat" where
  "commits s = length (sy_committed (wh_sys s))"

definition set_call :: "nat \<Rightarrow> task_pc \<Rightarrow> ('r, 'w) whole \<Rightarrow> ('r, 'w) whole" where
  "set_call i c s = s\<lparr>wh_calls := (wh_calls s)(i := c)\<rparr>"

text \<open>\<^verbatim>\<open>Parser::read\<close>, which gets both variables of the block. When it fails the lambda ends without a result.\<close>

definition task_read :: "int \<Rightarrow> bytes option \<Rightarrow> nat \<Rightarrow> nat \<Rightarrow> ('r, 'w) whole \<Rightarrow> ('r, 'w) whole res" where
  "task_read junk_op received i block s =
     (if wh_scope s \<noteq> Some block then Inl UseAfterFree
      else case snd (sv_tasks s ! block) of
        None \<Rightarrow> Inl NullDeref
      | Some a \<Rightarrow>
          rbind (Parser_read junk_op received (sv_heap s ! a)) (\<lambda>(ok, conn).
            if \<not> ok then Inl NoReturn
            else Inr (set_call i (AtSwitch (commits s)) (s\<lparr>sv_heap := (sv_heap s)[a := conn]\<rparr>))))"

definition conn_alive :: "nat \<Rightarrow> ('r, 'w) whole \<Rightarrow> bool" where
  "conn_alive block s \<longleftrightarrow>
     sv_connection_storage s (fst (sv_tasks s ! block)) = Some (snd (sv_tasks s ! block)) \<or>
     (case wh_scope s of None \<Rightarrow> False | Some b \<Rightarrow> snd (sv_tasks s ! b) = snd (sv_tasks s ! block))"

text \<open>\<^verbatim>\<open>req\<close> refers to the connection object.\<close>

definition heap_request :: "nat \<Rightarrow> ('r, 'w) whole \<Rightarrow> request option" where
  "heap_request block s = (case snd (sv_tasks s ! block) of None \<Rightarrow> None | Some a \<Rightarrow> cn_req (sv_heap s ! a))"

text \<open>The start of \<^verbatim>\<open>Write\<close>: the worker becomes a thread of the database, with a batch of one update.\<close>

definition start_write :: "nat \<Rightarrow> nat \<Rightarrow> request \<Rightarrow> WriteBatch \<Rightarrow> update \<Rightarrow> ('r, 'w) whole \<Rightarrow> ('r, 'w) whole" where
  "start_write i since req w u s =
     (let sys = wh_sys s in
      set_call i (InWrite since req (length (sy_threads sys)))
        (s\<lparr>wh_sys := sys\<lparr>sy_threads := sy_threads sys @ [writer_thread w [u]]\<rparr>\<rparr>))"

text \<open>\<^verbatim>\<open>Get\<close> with the answer for what it finds; the value that is found goes into the request.\<close>

definition lookup_answer :: "nat \<Rightarrow> nat \<Rightarrow> nat \<Rightarrow> request \<Rightarrow> bytes option \<Rightarrow> ('r, 'w) whole \<Rightarrow> ('r, 'w) whole" where
  "lookup_answer i a since req x s =
     (case x of
        None \<Rightarrow> set_call i (AtAnswer since req (commits s) (Some answer_fail)) s
      | Some v \<Rightarrow>
          set_call i (AtAnswer since req (commits s) (Some (answer_ok @ v @ [13, 10])))
            (s\<lparr>sv_heap := (sv_heap s)[a := (sv_heap s ! a)\<lparr>cn_req := Some (req\<lparr>rq_value := v\<rparr>)\<rparr>]\<rparr>))"

definition task_switch :: "'w posix \<Rightarrow> nat \<Rightarrow> nat \<Rightarrow> nat \<Rightarrow> ('r, 'w) whole \<Rightarrow> ('r, 'w) whole res" where
  "task_switch os i block since s =
     (if \<not> conn_alive block s then Inl UseAfterFree
      else case heap_request block s of
        None \<Rightarrow> Inl NullDeref
      | Some req \<Rightarrow>
          if rq_op_code req = 1 then
            rbind (WriteBatch_Put (Slice_string (rq_key req)) (Slice_string (rq_value req)) WriteBatch_make) (\<lambda>w.
              Inr (start_write i since req w (UPut (rq_key req) (rq_value req)) s))
          else if rq_op_code req = 2 then
            rbind (DBimpl_Get os (Slice_string (rq_key req)) (sy_db (wh_sys s)) (sy_disk (wh_sys s))) (\<lambda>x.
              Inr (lookup_answer i (the (snd (sv_tasks s ! block))) since req x s))
          else if rq_op_code req = 3 then
            rbind (WriteBatch_Delete (Slice_string (rq_key req)) WriteBatch_make) (\<lambda>w.
              Inr (start_write i since req w (UDelete (rq_key req)) s))
          else Inr (set_call i (AtAnswer since req (commits s) None) s))"

text \<open>The return of \<^verbatim>\<open>Put\<close> or \<^verbatim>\<open>Delete\<close>.\<close>

definition task_returned :: "nat \<Rightarrow> nat \<Rightarrow> request \<Rightarrow> nat \<Rightarrow> ('r, 'w) whole \<Rightarrow> ('r, 'w) whole" where
  "task_returned i since req t s =
     set_call i (AtAnswer since req (length (takeWhile (\<lambda>u. u \<noteq> t) (sy_committed (wh_sys s)))) (Some answer_ok)) s"

definition task_answer ::
  "nat \<Rightarrow> nat \<Rightarrow> nat \<Rightarrow> request \<Rightarrow> nat \<Rightarrow> bytes option \<Rightarrow> ('r, 'w) whole \<Rightarrow> ('r, 'w) whole res" where
  "task_answer i block since req at answer s =
     (case answer of
        None \<Rightarrow> Inr (set_call i AtClose s)
      | Some d \<Rightarrow>
          if wh_scope s \<noteq> Some block then Inl UseAfterFree
          else
            let fd = fst (sv_tasks s ! block) in
            Inr (set_call i AtClose
              (s\<lparr>sv_written := sv_written s @ [(fd, d)],
                 wh_answers := wh_answers s @
                   [\<lparr>an_fd = fd, an_request = req, an_from = since, an_at = at, an_to = commits s, an_answer = d\<rparr>]\<rparr>)))"

definition task_close :: "nat \<Rightarrow> nat \<Rightarrow> ('r, 'w) whole \<Rightarrow> ('r, 'w) whole res" where
  "task_close i block s =
     (if wh_scope s \<noteq> Some block then Inl UseAfterFree
      else Inr (set_call i AtErase (s\<lparr>sv_closed := sv_closed s @ [fst (sv_tasks s ! block)]\<rparr>)))"

text \<open>The entry is erased and the task returns; the worker goes back to the queue.\<close>

definition task_erase :: "nat \<Rightarrow> nat \<Rightarrow> ('r, 'w) whole \<Rightarrow> ('r, 'w) whole res" where
  "task_erase i block s =
     (if wh_scope s \<noteq> Some block then Inl UseAfterFree
      else Inr (set_call i AtRead
        (s\<lparr>sv_connection_storage := hashmap_erase (fst (sv_tasks s ! block)) (sv_connection_storage s),
           wh_pool := ThreadPool_run i block (wh_pool s)\<rparr>)))"

text \<open>
  A task can go on, unless it needs the lock of the database for a lookup and a writer has it, or is in \<^verbatim>\<open>Write\<close>.
\<close>

definition task_ready :: "nat \<Rightarrow> nat \<Rightarrow> ('r, 'w) whole \<Rightarrow> bool" where
  "task_ready i block s =
     (case wh_calls s i of
        AtSwitch since \<Rightarrow>
          (case heap_request block s of
             None \<Rightarrow> True
           | Some req \<Rightarrow> rq_op_code req = 2 \<longrightarrow> sy_rwlock (wh_sys s) = None)
      | InWrite since req t \<Rightarrow> t < length (sy_threads (wh_sys s)) \<and> th_pc (sy_threads (wh_sys s) ! t) = Written
      | _ \<Rightarrow> True)"

definition task_run :: "'w posix \<Rightarrow> int \<Rightarrow> bytes option \<Rightarrow> nat \<Rightarrow> nat \<Rightarrow> ('r, 'w) whole \<Rightarrow> ('r, 'w) whole res" where
  "task_run os junk_op received i block s =
     (case wh_calls s i of
        AtRead \<Rightarrow> task_read junk_op received i block s
      | AtSwitch since \<Rightarrow> task_switch os i block since s
      | InWrite since req t \<Rightarrow> Inr (task_returned i since req t s)
      | AtAnswer since req at answer \<Rightarrow> task_answer i block since req at answer s
      | AtClose \<Rightarrow> task_close i block s
      | AtErase \<Rightarrow> task_erase i block s)"

text \<open>
  What the clients are taken to do: a request is shorter than 64 kilobytes, as for a client of the database alone. The
  server reads at most 1024 bytes for it.
\<close>

definition request_short :: "nat \<Rightarrow> ('r, 'w) whole \<Rightarrow> bool" where
  "request_short block s = (case heap_request block s of None \<Rightarrow> True | Some req \<Rightarrow> request_ok req)"

text \<open>A step of the threads inside the database: no client comes to it, only a compaction may be started.\<close>

definition db_moves :: "('r \<Rightarrow> nat \<times> 'r) \<Rightarrow> 'w posix \<Rightarrow> ('r, 'w) system \<Rightarrow> ('r, 'w) system \<Rightarrow> bool" where
  "db_moves rand os sys sys' \<longleftrightarrow>
     sys_step rand os sys sys' \<and> list_all (\<lambda>th. th_pc th = WantCompact) (drop (length (sy_threads sys)) (sy_threads sys'))"

inductive whole_step ::
  "('r \<Rightarrow> nat \<times> 'r) \<Rightarrow> 'w posix \<Rightarrow> int \<Rightarrow> ('r, 'w) whole \<Rightarrow> ('r, 'w) whole \<Rightarrow> bool" for rand os listen_fd where
  event: "wh_fault s = None \<Longrightarrow> wh_scope s = None \<Longrightarrow> loop_body listen_fd fd epollin epollerr accepted s = Some s' \<Longrightarrow>
    whole_step rand os listen_fd s s'"
| leave: "wh_fault s = None \<Longrightarrow> wh_scope s = Some block \<Longrightarrow> tp_notify (wh_pool s) = 0 \<Longrightarrow>
    whole_step rand os listen_fd s (s\<lparr>wh_scope := None\<rparr>)"
| pool: "wh_fault s = None \<Longrightarrow> pool_moves (wh_pool s) p \<Longrightarrow> whole_step rand os listen_fd s (s\<lparr>wh_pool := p\<rparr>)"
| database: "wh_fault s = None \<Longrightarrow> db_moves rand os (wh_sys s) sys \<Longrightarrow> whole_step rand os listen_fd s (s\<lparr>wh_sys := sys\<rparr>)"
| task: "wh_fault s = None \<Longrightarrow> i < length (tp_workers (wh_pool s)) \<Longrightarrow> tp_workers (wh_pool s) ! i = WRun block \<Longrightarrow>
    task_ready i block s \<Longrightarrow> request_short block s \<Longrightarrow> task_run os junk_op received i block s = Inr s' \<Longrightarrow> whole_step rand os listen_fd s s'"
| fault: "wh_fault s = None \<Longrightarrow> i < length (tp_workers (wh_pool s)) \<Longrightarrow> tp_workers (wh_pool s) ! i = WRun block \<Longrightarrow>
    task_ready i block s \<Longrightarrow> task_run os junk_op received i block s = Inl e \<Longrightarrow>
    whole_step rand os listen_fd s (s\<lparr>wh_fault := Some e\<rparr>)"

inductive_cases whole_stepE: "whole_step rand os listen_fd s s'"

section \<open>The database within the program\<close>

lemma set_call_simps [simp]:
  "wh_sys (set_call i c s) = wh_sys s" "wh_calls (set_call i c s) = (wh_calls s)(i := c)" "wh_answers (set_call i c s) = wh_answers s"
  "sv_written (set_call i c s) = sv_written s" "wh_pool (set_call i c s) = wh_pool s"
  by (simp_all add: set_call_def)

lemma main_event_whole [simp]:
  "wh_sys (main_event listen_fd fd epollin epollerr accepted s) = wh_sys s"
  "wh_calls (main_event listen_fd fd epollin epollerr accepted s) = wh_calls s"
  "wh_answers (main_event listen_fd fd epollin epollerr accepted s) = wh_answers s"
  "wh_pool (main_event listen_fd fd epollin epollerr accepted s) = wh_pool s"
  "sv_written (main_event listen_fd fd epollin epollerr accepted s) = sv_written s"
  by (simp_all add: main_event_def Let_def case_prod_beta)

lemma loop_body_frame:
  assumes "loop_body listen_fd fd epollin epollerr accepted s = Some s'"
  shows "wh_sys s' = wh_sys s" "wh_calls s' = wh_calls s" "wh_answers s' = wh_answers s" "sv_written s' = sv_written s"
    "length (tp_workers (wh_pool s')) = length (tp_workers (wh_pool s))"
  using assms by (auto simp: loop_body_def ThreadPool_enqueue_def Let_def split: if_splits)

text \<open>What a request does to the map.\<close>

definition request_updates :: "request \<Rightarrow> update list" where
  "request_updates req =
     (if rq_op_code req = 1 then [UPut (rq_key req) (rq_value req)] else if rq_op_code req = 3 then [UDelete (rq_key req)] else [])"

text \<open>The step at the switch: a call of \<^verbatim>\<open>Write\<close> with the batch of the request, a lookup, or neither.\<close>

lemma task_switch_cases:
  assumes "task_switch os i block since s = Inr s'" "wh_calls s i = AtSwitch since" "task_ready i block s" "request_short block s"
  obtains (call) req w u where "rq_op_code req = 1 \<or> rq_op_code req = 3" "request_updates req = [u]" "batch_rep w 0 [u]" "WriteBatch_Bytes w \<le> 2 ^ 17"
      "s' = start_write i since req w u s"
  | (look) a req x where "rq_op_code req = 2" "length (rq_key req) < 2 ^ 16" "sy_rwlock (wh_sys s) = None" 
      "DBimpl_Get os (Slice_string (rq_key req)) (sy_db (wh_sys s)) (sy_disk (wh_sys s)) = Inr x" "s' = lookup_answer i a since req x s"
  | (other) req where "s' = set_call i (AtAnswer since req (commits s) None) s"
proof -
  obtain req where req: "heap_request block s = Some req" using assms(1) by (auto simp: task_switch_def split: if_splits option.splits)
  then have ok: "length (rq_key req) + length (rq_value req) < 2 ^ 16" "rq_op_code req = 2 \<longrightarrow> sy_rwlock (wh_sys s) = None"
    using assms(2,3,4) by (simp_all add: task_ready_def request_short_def request_ok_def)
  consider "rq_op_code req = 1" | "rq_op_code req = 2" | "rq_op_code req = 3"
    | "rq_op_code req \<noteq> 1" "rq_op_code req \<noteq> 2" "rq_op_code req \<noteq> 3" by blast
  then show thesis
  proof cases
    case 1
    obtain w where "WriteBatch_Put (Slice_string (rq_key req)) (Slice_string (rq_value req)) WriteBatch_make = Inr w"
      "batch_rep w 0 [UPut (rq_key req) (rq_value req)]" "WriteBatch_Bytes w \<le> 2 ^ 17" by (rule put_batch [OF ok(1)])
    then show thesis using assms(1) req 1 by (intro call) (auto simp: task_switch_def request_updates_def split: if_splits)
  next
    case 2
    then obtain x where "DBimpl_Get os (Slice_string (rq_key req)) (sy_db (wh_sys s)) (sy_disk (wh_sys s)) = Inr x"
      "s' = lookup_answer i (the (snd (sv_tasks s ! block))) since req x s"
      using assms(1) req by (auto simp: task_switch_def split: if_splits)
    then show thesis using ok 2 by (intro look) auto
  next
    case 3
    obtain w where "WriteBatch_Delete (Slice_string (rq_key req)) WriteBatch_make = Inr w"
      "batch_rep w 0 [UDelete (rq_key req)]" "WriteBatch_Bytes w \<le> 2 ^ 17" by (rule delete_batch [of "rq_key req"]) (use ok(1) in simp)
    then show thesis using assms(1) req 3 by (intro call) (auto simp: task_switch_def request_updates_def split: if_splits)
  next
    case 4
    then show thesis using assms(1) req by (intro other) (auto simp: task_switch_def split: if_splits)
  qed
qed

lemma lookup_answer_simps [simp]:
  "wh_sys (lookup_answer i a since req x s) = wh_sys s" "wh_answers (lookup_answer i a since req x s) = wh_answers s"
  "sv_written (lookup_answer i a since req x s) = sv_written s" "wh_pool (lookup_answer i a since req x s) = wh_pool s"
  "wh_calls (lookup_answer i a since req x s) = (wh_calls s)(i := AtAnswer since req (commits s)
     (Some (case x of None \<Rightarrow> answer_fail | Some v \<Rightarrow> answer_ok @ v @ [13, 10])))"
  by (simp_all add: lookup_answer_def split: option.splits)

lemma start_write_simps [simp]:
  "wh_sys (start_write i since req w u s) = (wh_sys s)\<lparr>sy_threads := sy_threads (wh_sys s) @ [writer_thread w [u]]\<rparr>"
  "wh_answers (start_write i since req w u s) = wh_answers s" "sv_written (start_write i since req w u s) = sv_written s"
  "wh_pool (start_write i since req w u s) = wh_pool s"
  "wh_calls (start_write i since req w u s) = (wh_calls s)(i := InWrite since req (length (sy_threads (wh_sys s))))"
  by (simp_all add: start_write_def Let_def)

text \<open>The other steps of a task.\<close>

lemma task_read_frame:
  assumes "task_read junk_op received i block s = Inr s'"
  shows "wh_sys s' = wh_sys s \<and> wh_answers s' = wh_answers s \<and> sv_written s' = sv_written s \<and> wh_pool s' = wh_pool s \<and>
    wh_calls s' = (wh_calls s)(i := AtSwitch (commits s))"
  using assms by (auto simp: task_read_def split: if_splits option.splits)

lemma task_close_frame:
  assumes "task_close i block s = Inr s'"
  shows "wh_sys s' = wh_sys s \<and> wh_answers s' = wh_answers s \<and> sv_written s' = sv_written s \<and> wh_pool s' = wh_pool s \<and>
    wh_calls s' = (wh_calls s)(i := AtErase)"
  using assms by (auto simp: task_close_def split: if_splits)

lemma task_erase_frame:
  assumes "task_erase i block s = Inr s'"
  shows "wh_sys s' = wh_sys s \<and> wh_answers s' = wh_answers s \<and> sv_written s' = sv_written s \<and>
    length (tp_workers (wh_pool s')) = length (tp_workers (wh_pool s)) \<and> wh_calls s' = (wh_calls s)(i := AtRead)"
  using assms by (auto simp: task_erase_def ThreadPool_run_def split: if_splits)

lemma task_answer_frame:
  assumes "task_answer i block since req at answer s = Inr s'"
  shows "wh_sys s' = wh_sys s \<and> wh_pool s' = wh_pool s \<and> wh_calls s' = (wh_calls s)(i := AtClose) \<and>
    (case answer of
       None \<Rightarrow> wh_answers s' = wh_answers s \<and> sv_written s' = sv_written s
     | Some d \<Rightarrow> \<exists>fd. sv_written s' = sv_written s @ [(fd, d)] \<and>
         wh_answers s' = wh_answers s @ [\<lparr>an_fd = fd, an_request = req, an_from = since, an_at = at, an_to = commits s, an_answer = d\<rparr>])"
  using assms by (auto simp: task_answer_def Let_def split: if_splits option.splits)

text \<open>Every step of the program is a step of the database, or none.\<close>

lemma whole_sys: "whole_step rand os listen_fd s s' \<Longrightarrow> wh_sys s' = wh_sys s \<or> sys_step rand os (wh_sys s) (wh_sys s')"
proof (induction rule: whole_step.induct)
  case (task s i block junk_op received s')
  show ?case
  proof (cases "wh_calls s i")
    case (AtSwitch since)
    have "task_switch os i block since s = Inr s'" using task AtSwitch by (simp add: task_run_def)
    from task_switch_cases [OF this AtSwitch task(4,5)] show ?thesis
      by cases (auto intro: sys_step.call)
  qed (use task in \<open>auto simp: task_run_def task_returned_def dest: task_read_frame task_close_frame task_erase_frame task_answer_frame\<close>)
qed (auto simp: loop_body_frame db_moves_def)

lemma whole_run_sys: "(whole_step rand os listen_fd)\<^sup>*\<^sup>* s s' \<Longrightarrow> (sys_step rand os)\<^sup>*\<^sup>* (wh_sys s) (wh_sys s')"
proof (induction rule: rtranclp_induct)
  case (step s1 s2)
  then show ?case using whole_sys [OF step(2)] by (metis rtranclp.rtrancl_into_rtrancl)
qed simp

section \<open>What the database keeps\<close>

definition no_compaction :: "('r, 'w) system \<Rightarrow> bool" where
  "no_compaction sys \<longleftrightarrow> (\<forall>th\<in>set (sy_threads sys). th_pc th \<noteq> Compacted)"

text \<open>Commits are added at the end, threads keep what they write, and a finished compaction stays finished.\<close>

definition sys_extends :: "('r, 'w) system \<Rightarrow> ('r, 'w) system \<Rightarrow> bool" where
  "sys_extends sys sys' \<longleftrightarrow>
     (\<exists>ts. sy_committed sys' = sy_committed sys @ ts) \<and> length (sy_threads sys) \<le> length (sy_threads sys') \<and>
     (\<forall>t<length (sy_threads sys). th_updates (sy_threads sys' ! t) = th_updates (sy_threads sys ! t)) \<and>
     (no_compaction sys' \<longrightarrow> no_compaction sys)"

lemma sys_extends_refl [simp]: "sys_extends sys sys"
  by (simp add: sys_extends_def)

lemma set_pc_extends:
  assumes "t < length (sy_threads sys)" "th_pc (sy_threads sys ! t) \<noteq> Compacted" "sy_threads sys' = set_pc t c (sy_threads sys) @ ths"
    "sy_committed sys' = sy_committed sys @ ts"
  shows "sys_extends sys sys'"
proof -
  have "\<not> no_compaction sys \<Longrightarrow> \<not> no_compaction sys'"
    using compacted_stays [of _ "sy_threads sys" t c] assms(1-3) by (fastforce simp: no_compaction_def)
  then show ?thesis using assms by (auto simp: sys_extends_def nth_append)
qed

lemma sys_step_extends:
  assumes "sys_step rand os sys sys'" "sys_inv sys"
  shows "sys_extends sys sys'"
  using assms
proof (induction rule: sys_step.induct)
  case (call w q us s)
  then show ?case by (simp add: sys_extends_def nth_append no_compaction_def)
next
  case (enter t s)
  then show ?case by (intro set_pc_extends [where t = t and ths = "[]" and ts = "[]"]) (auto simp: Write_enter_def Let_def)
next
  case (woken t s)
  then show ?case by (simp add: sys_inv_def lock_inv_def)
next
  case (room t s junk)
  obtain ok db n where r: "MakeRoomForWrite junk (sy_db s) = (ok, db, n)" by (metis prod_cases3)
  show ?case
    by (rule set_pc_extends [where t = t and c = "if ok then InGroup else RoomWait" and ts = "[]" and ths = "replicate n compaction_thread"])
       (use room in \<open>auto simp: Write_room_def r\<close>)
next
  case (commit t s s')
  then have "lock_inv s" "commit_inv s" by (simp_all add: sys_inv_def)
  from commit_log_commit [OF this commit(1-3)] show ?case
    by (intro set_pc_extends [where t = t and ths = "[]"]) (use commit in auto)
next
  case (compact t s buf s')
  then show ?case by (intro set_pc_extends [where t = t and ths = "[]" and ts = "[]"]) (auto simp: Compact_call_def)
qed

text \<open>As long as no compaction has finished there are no table files, if there were none.\<close>

definition files_inv :: "('r, 'w) system \<Rightarrow> bool" where
  "files_inv sys \<longleftrightarrow> (no_compaction sys \<longrightarrow> db_file_metas (sy_db sys) = [])"

lemma files_inv_step:
  assumes "sys_step rand os sys sys'" "sys_inv sys" "files_inv sys"
  shows "files_inv sys'"
proof -
  have "no_compaction sys' \<longrightarrow> db_file_metas (sy_db sys') = db_file_metas (sy_db sys)"
    using assms(1,2)
  proof (induction rule: sys_step.induct)
    case (room t s junk)
    then show ?case by (simp add: Write_room_def MakeRoom_eq Let_def)
  next
    case (commit t s s')
    then have "lock_inv s" by (simp add: sys_inv_def)
    from commit_eq [OF this commit(1-3)] show ?case
      using Write_group_single(4) [of "sy_db s" t] \<open>lock_inv s\<close> commit(1,2) by (fastforce simp: lock_inv_def in_write_def)
  next
    case (compact t s buf s')
    then have "set_pc t Compacted (sy_threads s) ! t \<in> set (sy_threads s')" by (auto simp: Compact_call_def)
    then show ?case using compact(1) by (auto simp: no_compaction_def)
  qed (auto simp: Write_enter_def Write_woken_def Let_def)
  then show ?thesis using assms sys_step_extends [OF assms(1,2)] by (auto simp: files_inv_def sys_extends_def)
qed

text \<open>The map after the first commits.\<close>

definition map_after :: "(bytes \<rightharpoonup> bytes) \<Rightarrow> ('r, 'w) system \<Rightarrow> nat \<Rightarrow> (bytes \<rightharpoonup> bytes)" where
  "map_after M0 sys n = fold update_map (concat (map (\<lambda>t. th_updates (sy_threads sys ! t)) (take n (sy_committed sys)))) M0"

lemma committed_threads: "sys_inv sys \<Longrightarrow> t \<in> set (sy_committed sys) \<Longrightarrow> t < length (sy_threads sys)"
  by (auto simp: sys_inv_def commit_inv_def)

lemma extends_updates:
  assumes "sys_extends sys sys'" "sys_inv sys" "n \<le> length (sy_committed sys)"
  shows "map (\<lambda>t. th_updates (sy_threads sys' ! t)) (take n (sy_committed sys')) =
    map (\<lambda>t. th_updates (sy_threads sys ! t)) (take n (sy_committed sys))"
proof -
  obtain ts where ts: "sy_committed sys' = sy_committed sys @ ts"
    and same: "\<forall>t<length (sy_threads sys). th_updates (sy_threads sys' ! t) = th_updates (sy_threads sys ! t)"
    using assms(1) by (auto simp: sys_extends_def)
  then show ?thesis using assms(3) committed_threads [OF assms(2)] by (auto dest!: in_set_takeD)
qed

lemma map_after_extends:
  "sys_extends sys sys' \<Longrightarrow> sys_inv sys \<Longrightarrow> n \<le> length (sy_committed sys) \<Longrightarrow> map_after M0 sys' n = map_after M0 sys n"
  by (simp add: map_after_def extends_updates)

lemma commit_log_extends:
  assumes "sys_extends sys sys'" "sys_inv sys"
  shows "length (commit_log sys) \<le> length (commit_log sys')"
proof -
  obtain ts where ts: "sy_committed sys' = sy_committed sys @ ts" using assms(1) by (auto simp: sys_extends_def)
  have "map (\<lambda>t. th_updates (sy_threads sys' ! t)) (sy_committed sys) = map (\<lambda>t. th_updates (sy_threads sys ! t)) (sy_committed sys)"
    using extends_updates [OF assms, of "length (sy_committed sys)"] ts by simp
  then show ?thesis unfolding commit_log_def ts map_append concat_append length_append by (metis le_add1)
qed

text \<open>A lookup reads the map after all commits so far.\<close>

lemma lookup_map:
  assumes "sys_inv sys" "map_inv M0 q0 sys" "files_inv sys" "unat q0 + length (commit_log sys) < 2 ^ 56" "no_compaction sys"
    "length k < 2 ^ 16"
  shows "DBimpl_Get os (Slice_string k) (sy_db sys) w = Inr (map_after M0 sys (length (sy_committed sys)) k)"
proof -
  have "db_rep (sy_db sys) (fold update_map (commit_log sys) M0)"
    using assms(2,4,5) by (auto simp: map_inv_def no_compaction_def)
  then show ?thesis
    using DBimpl_Get_rep [of "sy_db sys" _ "Slice_string k" os w] assms(3,5,6)
    by (auto simp: files_inv_def mkey_fits_def map_after_def commit_log_def split: option.splits)
qed

section \<open>Answers\<close>

text \<open>
  An answer is that of the map after the first \<open>an_at\<close> commits, which lies between the time when its request was read and
  the time when it was given; for a put or a delete the next commit is that of the request. A lookup may miss
  the map once a compaction has finished.
\<close>

definition answered_ok :: "(bytes \<rightharpoonup> bytes) \<Rightarrow> ('r, 'w) system \<Rightarrow> answered \<Rightarrow> bool" where
  "answered_ok M0 sys a \<longleftrightarrow>
     an_from a \<le> an_at a \<and> an_at a \<le> an_to a \<and> an_to a \<le> length (sy_committed sys) \<and>
     (request_updates (an_request a) \<noteq> [] \<longrightarrow>
        an_at a < an_to a \<and> th_updates (sy_threads sys ! (sy_committed sys ! an_at a)) = request_updates (an_request a)) \<and>
     (rq_op_code (an_request a) \<noteq> 2 \<or> no_compaction sys \<longrightarrow>
        Some (an_answer a) = snd (request_spec (an_request a) (map_after M0 sys (an_at a))))"

fun call_ok :: "(bytes \<rightharpoonup> bytes) \<Rightarrow> ('r, 'w) system \<Rightarrow> task_pc \<Rightarrow> bool" where
  "call_ok M0 sys (AtSwitch since) \<longleftrightarrow> since \<le> length (sy_committed sys)"
| "call_ok M0 sys (InWrite since req t) \<longleftrightarrow>
     since \<le> length (sy_committed sys) \<and> t < length (sy_threads sys) \<and> th_updates (sy_threads sys ! t) = request_updates req \<and>
     request_updates req \<noteq> [] \<and> t \<notin> set (take since (sy_committed sys))"
| "call_ok M0 sys (AtAnswer since req at (Some d)) \<longleftrightarrow>
     answered_ok M0 sys \<lparr>an_fd = 0, an_request = req, an_from = since, an_at = at, an_to = length (sy_committed sys), an_answer = d\<rparr>"
| "call_ok M0 sys c \<longleftrightarrow> True"

definition answers_inv :: "(bytes \<rightharpoonup> bytes) \<Rightarrow> ('r, 'w) whole \<Rightarrow> bool" where
  "answers_inv M0 s \<longleftrightarrow>
     sv_written s = map (\<lambda>a. (an_fd a, an_answer a)) (wh_answers s) \<and> sorted (map an_to (wh_answers s)) \<and>
     (\<forall>a\<in>set (wh_answers s). answered_ok M0 (wh_sys s) a) \<and> (\<forall>i. call_ok M0 (wh_sys s) (wh_calls s i))"

lemma answered_ok_extends:
  assumes "sys_extends sys sys'" "sys_inv sys" "answered_ok M0 sys a" "an_to a \<le> n" "n \<le> length (sy_committed sys')"
  shows "answered_ok M0 sys' (a\<lparr>an_to := n\<rparr>)"
proof -
  obtain ts where ts: "sy_committed sys' = sy_committed sys @ ts"
    and same: "\<forall>t<length (sy_threads sys). th_updates (sy_threads sys' ! t) = th_updates (sy_threads sys ! t)"
    "no_compaction sys' \<longrightarrow> no_compaction sys"
    using assms(1) by (auto simp: sys_extends_def)
  have "th_updates (sy_threads sys' ! (sy_committed sys' ! k)) = th_updates (sy_threads sys ! (sy_committed sys ! k))"
    if "k < length (sy_committed sys)" for k
    using that same(1) committed_threads [OF assms(2) nth_mem [OF that]] by (simp add: ts nth_append)
  then show ?thesis
    using assms(3-5) same(2) map_after_extends [OF assms(1,2)] by (auto simp: answered_ok_def)
qed

lemma call_ok_extends:
  assumes "sys_extends sys sys'" "sys_inv sys" "call_ok M0 sys c"
  shows "call_ok M0 sys' c"
proof -
  obtain ts where ts: "sy_committed sys' = sy_committed sys @ ts" using assms(1) by (auto simp: sys_extends_def)
  show ?thesis
  proof (cases c)
    case (AtAnswer since req at answer)
    then show ?thesis
      using assms(3) answered_ok_extends [OF assms(1,2), of M0 _ "length (sy_committed sys')"] ts
      by (cases answer) fastforce+
  qed (use assms ts in \<open>auto simp: sys_extends_def\<close>)
qed

lemma answers_inv_extends:
  assumes "sys_extends (wh_sys s) sys" "sys_inv (wh_sys s)" "answers_inv M0 s"
  shows "answers_inv M0 (s\<lparr>wh_sys := sys\<rparr>)"
proof -
  have "answered_ok M0 sys a" if "a \<in> set (wh_answers s)" for a
  proof -
    have a: "answered_ok M0 (wh_sys s) a" using that assms(3) by (simp add: answers_inv_def)
    then have "an_to a \<le> length (sy_committed sys)" using assms(1) by (auto simp: answered_ok_def sys_extends_def)
    from answered_ok_extends [OF assms(1,2) a order_refl this] show ?thesis by simp
  qed
  moreover have "call_ok M0 sys (wh_calls s i)" for i
    using call_ok_extends [OF assms(1,2)] assms(3) by (simp add: answers_inv_def)
  ultimately show ?thesis using assms(3) by (simp add: answers_inv_def)
qed

text \<open>A worker goes on, and nothing else changes.\<close>

lemma answers_inv_call:
  assumes "answers_inv M0 s" "wh_sys s' = wh_sys s" "wh_answers s' = wh_answers s" "sv_written s' = sv_written s"
    "wh_calls s' = (wh_calls s)(i := c)" "call_ok M0 (wh_sys s) c"
  shows "answers_inv M0 s'"
  using assms by (simp add: answers_inv_def)

lemma call_ok_lookup:
  assumes "sys_inv sys" "map_inv M0 q0 sys" "files_inv sys" "unat q0 + length (commit_log sys) < 2 ^ 56" "since \<le> length (sy_committed sys)"
    "rq_op_code req = 2" "length (rq_key req) < 2 ^ 16" "DBimpl_Get os (Slice_string (rq_key req)) (sy_db sys) w = Inr x"
  shows "call_ok M0 sys (AtAnswer since req (length (sy_committed sys))
    (Some (case x of None \<Rightarrow> answer_fail | Some v \<Rightarrow> answer_ok @ v @ [13, 10])))"
proof -
  have "no_compaction sys \<Longrightarrow> x = map_after M0 sys (length (sy_committed sys)) (rq_key req)"
    using lookup_map [OF assms(1-4) _ assms(7), of os w] assms(8) by simp
  then show ?thesis using assms(5,6) by (auto simp: answered_ok_def request_updates_def request_spec_def)
qed

lemma call_ok_returned:
  assumes "sys_inv sys" "call_ok M0 sys (InWrite since req t)" "th_pc (sy_threads sys ! t) = Written"
  shows "call_ok M0 sys (AtAnswer since req (length (takeWhile (\<lambda>u. u \<noteq> t) (sy_committed sys))) (Some answer_ok))"
proof -
  have w: "since \<le> length (sy_committed sys)" "th_updates (sy_threads sys ! t) = request_updates req" "request_updates req \<noteq> []"
    "t \<notin> set (take since (sy_committed sys))" "t \<in> set (sy_committed sys)"
    using assms by (auto simp: sys_inv_def commit_inv_def)
  obtain ts us where ts: "sy_committed sys = ts @ t # us" "t \<notin> set ts" using split_list_first [OF w(5)] by blast
  then have k: "takeWhile (\<lambda>u. u \<noteq> t) (sy_committed sys) = ts" by (metis (mono_tags, lifting) takeWhile_append2 takeWhile.simps(2) append_Nil2)
  have "since \<le> length ts" using w(4) unfolding ts(1) by (cases "since \<le> length ts") (auto simp: take_Cons')
  then show ?thesis using ts(1) w(1-3) unfolding k by (auto simp: answered_ok_def request_updates_def request_spec_def split: if_splits)
qed

lemma answers_inv_switch:
  assumes inv: "sys_inv (wh_sys s)" "map_inv M0 q0 (wh_sys s)" "files_inv (wh_sys s)" "unat q0 + length (commit_log (wh_sys s)) < 2 ^ 56"
    "answers_inv M0 s" and run: "task_switch os i block since s = Inr s'" "wh_calls s i = AtSwitch since" "task_ready i block s" "request_short block s"
  shows "answers_inv M0 s'"
proof -
  have since: "since \<le> length (sy_committed (wh_sys s))" proof -
    have "call_ok M0 (wh_sys s) (wh_calls s i)" using inv(5) by (simp add: answers_inv_def)
    then show ?thesis by (simp add: run(2))
  qed
  show ?thesis using run
  proof (cases rule: task_switch_cases)
    case (call req w u)
    let ?sys = "(wh_sys s)\<lparr>sy_threads := sy_threads (wh_sys s) @ [writer_thread w [u]]\<rparr>"
    have "sys_step (\<lambda>r. (0, r)) os (wh_sys s) ?sys" by (rule sys_step.call [OF call(3,4)])
    note ext = answers_inv_extends [OF sys_step_extends [OF this inv(1)] inv(1,5)]
    have "call_ok M0 ?sys (InWrite since req (length (sy_threads (wh_sys s))))"
      using since call(2) committed_threads [OF inv(1)] by (auto simp: writer_thread_def dest: in_set_takeD)
    then show ?thesis by (intro answers_inv_call [OF ext, where i = i]) (auto simp: call(5))
  next
    case (look a req x)
    from call_ok_lookup [OF inv(1-4) since look(1,2,4)] show ?thesis
      by (intro answers_inv_call [OF inv(5), where i = i]) (auto simp: look(5) commits_def)
  next
    case (other req)
    then show ?thesis by (intro answers_inv_call [OF inv(5), where i = i and c = "AtAnswer since req (commits s) None"]) simp_all
  qed
qed

lemma answers_inv_answer:
  assumes inv: "answers_inv M0 s" and run: "task_answer i block since req at answer s = Inr s'" "wh_calls s i = AtAnswer since req at answer"
  shows "answers_inv M0 s'"
proof (cases answer)
  case None
  with task_answer_frame [OF run(1)] show ?thesis
    by (intro answers_inv_call [OF inv, where i = i and c = AtClose]) simp_all
next
  case (Some d)
  then obtain fd where f: "wh_sys s' = wh_sys s" "wh_calls s' = (wh_calls s)(i := AtClose)" "sv_written s' = sv_written s @ [(fd, d)]"
    "wh_answers s' = wh_answers s @ [\<lparr>an_fd = fd, an_request = req, an_from = since, an_at = at, an_to = commits s, an_answer = d\<rparr>]"
    using task_answer_frame [OF run(1)] by auto
  have "call_ok M0 (wh_sys s) (wh_calls s i)" using inv by (simp add: answers_inv_def)
  then have "answered_ok M0 (wh_sys s) \<lparr>an_fd = fd, an_request = req, an_from = since, an_at = at, an_to = commits s, an_answer = d\<rparr>"
    by (simp add: run(2) Some answered_ok_def commits_def)
  then show ?thesis
    using inv f by (auto simp: answers_inv_def sorted_append answered_ok_def commits_def)
qed

section \<open>Invariants of the program\<close>

definition whole_inv :: "(bytes \<rightharpoonup> bytes) \<Rightarrow> u64 \<Rightarrow> ('r, 'w) whole \<Rightarrow> bool" where
  "whole_inv M0 q0 s \<longleftrightarrow>
     sys_inv (wh_sys s) \<and> map_inv M0 q0 (wh_sys s) \<and> files_inv (wh_sys s) \<and> length (tp_workers (wh_pool s)) = thread_pool_size \<and>
     (unat q0 + length (commit_log (wh_sys s)) < 2 ^ 56 \<longrightarrow> answers_inv M0 s)"

definition whole_init :: "(bytes \<rightharpoonup> bytes) \<Rightarrow> u64 \<Rightarrow> ('r, 'w) whole \<Rightarrow> bool" where
  "whole_init M0 q0 s \<longleftrightarrow>
     (\<exists>r w db. s = whole_make r w db \<and> db_rep db M0 \<and> db_last_sequence db = q0 \<and> db_writers db = [] \<and> db_file_metas db = [])"

lemma whole_init_make:
  "db_rep db M0 \<Longrightarrow> db_last_sequence db = q0 \<Longrightarrow> db_writers db = [] \<Longrightarrow> db_file_metas db = [] \<Longrightarrow> whole_init M0 q0 (whole_make r w db)"
  unfolding whole_init_def by blast

lemma whole_init_inv: "whole_init M0 q0 s \<Longrightarrow> whole_inv M0 q0 s"
proof -
  assume "whole_init M0 q0 s"
  then obtain r w db where s: "s = whole_make r w db" "db_rep db M0" "db_last_sequence db = q0" "db_writers db = []" "db_file_metas db = []"
    by (auto simp: whole_init_def)
  then have "wh_sys s = sys_start db r w" "sys_init M0 q0 (wh_sys s)" by (simp_all add: whole_make_def sys_init_start)
  from db_sys.inv_init [OF this(2)] have "sys_inv (wh_sys s)" "map_inv M0 q0 (wh_sys s)" by simp_all
  then show ?thesis using s(5)
    by (simp add: whole_inv_def s(1) whole_make_def files_inv_def sys_start_def ThreadPool_make_def answers_inv_def )
qed

lemma answers_inv_task:
  assumes inv: "sys_inv (wh_sys s)" "map_inv M0 q0 (wh_sys s)" "files_inv (wh_sys s)" "unat q0 + length (commit_log (wh_sys s)) < 2 ^ 56"
    "answers_inv M0 s" and run: "task_run os junk_op received i block s = Inr s'" "task_ready i block s" "request_short block s"
  shows "answers_inv M0 s'"
proof (cases "wh_calls s i")
  case AtRead
  then show ?thesis using run task_read_frame [of junk_op received i block s s']
    by (intro answers_inv_call [OF inv(5), where i = i and c = "AtSwitch (commits s)"]) (auto simp: task_run_def commits_def)
next
  case (AtSwitch since)
  then show ?thesis using run by (intro answers_inv_switch [OF inv]) (auto simp: task_run_def)
next
  case (InWrite since req t)
  have "call_ok M0 (wh_sys s) (wh_calls s i)" using inv(5) by (simp add: answers_inv_def)
  then have "call_ok M0 (wh_sys s) (AtAnswer since req (length (takeWhile (\<lambda>u. u \<noteq> t) (sy_committed (wh_sys s)))) (Some answer_ok))"
    using call_ok_returned [OF inv(1)] run(2) by (simp add: InWrite task_ready_def)
  then show ?thesis using run(1) by (intro answers_inv_call [OF inv(5), where i = i]) (auto simp: task_run_def InWrite task_returned_def)
next
  case (AtAnswer since req at answer)
  then show ?thesis using run(1) by (intro answers_inv_answer [OF inv(5)]) (auto simp: task_run_def)
next
  case AtClose
  then show ?thesis using run task_close_frame [of i block s s']
    by (intro answers_inv_call [OF inv(5), where i = i and c = AtErase]) (auto simp: task_run_def )
next
  case AtErase
  then show ?thesis using run task_erase_frame [of i block s s']
    by (intro answers_inv_call [OF inv(5), where i = i and c = AtRead]) (auto simp: task_run_def )
qed

lemma task_run_workers:
  assumes "task_run os junk_op received i block s = Inr s'" "task_ready i block s" "request_short block s"
  shows "length (tp_workers (wh_pool s')) = length (tp_workers (wh_pool s))"
proof (cases "wh_calls s i")
  case (AtSwitch since)
  have "task_switch os i block since s = Inr s'" using assms AtSwitch by (simp add: task_run_def)
  from task_switch_cases [OF this AtSwitch assms(2,3)] show ?thesis by cases auto
qed (use assms in \<open>auto simp: task_run_def task_returned_def dest: task_read_frame task_close_frame task_erase_frame task_answer_frame\<close>)

lemma whole_workers:
  "whole_step rand os listen_fd s s' \<Longrightarrow> length (tp_workers (wh_pool s')) = length (tp_workers (wh_pool s))"
  by (induction rule: whole_step.induct) (auto simp: loop_body_frame pool_moves_def pool_step_length task_run_workers)

lemma whole_answers:
  assumes "whole_step rand os listen_fd s s'" "whole_inv M0 q0 s" "answers_inv M0 s" "unat q0 + length (commit_log (wh_sys s)) < 2 ^ 56"
  shows "answers_inv M0 s'"
  using assms
proof (induction rule: whole_step.induct)
  case (event s fd epollin epollerr accepted s')
  from loop_body_frame(1-4) [OF event(3)] show ?case using event(5) by (simp add: answers_inv_def)
next
  case (database s sys)
  then have "sys_extends (wh_sys s) sys" "sys_inv (wh_sys s)" by (auto simp: db_moves_def whole_inv_def intro: sys_step_extends)
  then show ?case using database by (intro answers_inv_extends)
next
  case (task s i block junk_op received s')
  show ?case by (rule answers_inv_task [OF _ _ _ task(9,8,6,4,5)]) (use task(7) in \<open>simp_all add: whole_inv_def\<close>)
qed (simp_all add: answers_inv_def)

lemma whole_inv_step:
  assumes "whole_inv M0 q0 s" "whole_step rand os listen_fd s s'"
  shows "whole_inv M0 q0 s'"
proof -
  have inv: "sys_inv (wh_sys s)" "map_inv M0 q0 (wh_sys s)" "files_inv (wh_sys s)" using assms(1) by (simp_all add: whole_inv_def)
  have "sys_inv (wh_sys s') \<and> map_inv M0 q0 (wh_sys s') \<and> files_inv (wh_sys s') \<and> sys_extends (wh_sys s) (wh_sys s')"
    using whole_sys [OF assms(2)]
  proof
    assume step: "sys_step rand os (wh_sys s) (wh_sys s')"
    show ?thesis
      using sys_inv_step [OF inv(1) step] map_inv_step [OF step inv(1,2)] files_inv_step [OF step inv(1,3)] sys_step_extends [OF step inv(1)]
      by blast
  qed (use inv in simp)
  moreover from this have "length (commit_log (wh_sys s)) \<le> length (commit_log (wh_sys s'))"
    using commit_log_extends inv(1) by blast
  ultimately show ?thesis
    using assms whole_answers [OF assms(2,1)] whole_workers [OF assms(2)] by (auto simp: whole_inv_def)
qed

interpretation whole: invariant_system "whole_init M0 q0" "whole_step rand os listen_fd" "whole_inv M0 q0"
  by unfold_locales (use whole_init_inv whole_inv_step in blast)+

section \<open>Properties\<close>

text \<open>C1: the whole program, with the steps of its tasks and the threads of the database in any interleaving, answers
  like a map that handles one request at a time. Every answer on a socket is that of the map after the
  first \<open>an_at\<close> commits, for a moment between reading the request and answering it; a put or a delete is
  answered after its own update has become the next commit. Only lookups that come after a finished compaction
  may miss the map. There are fewer than \<open>2 ^ 56\<close> updates and requests are shorter than 64 kilobytes.\<close>

theorem server_linearizable:
  assumes "whole_init M0 q0 s0" "(whole_step rand os listen_fd)\<^sup>*\<^sup>* s0 s" "unat q0 + length (commit_log (wh_sys s)) < 2 ^ 56"
  shows "sv_written s = map (\<lambda>a. (an_fd a, an_answer a)) (wh_answers s) \<and> sorted (map an_to (wh_answers s)) \<and>
    (\<forall>a\<in>set (wh_answers s).
       an_from a \<le> an_at a \<and> an_at a \<le> an_to a \<and> an_to a \<le> commits s \<and>
       (request_updates (an_request a) \<noteq> [] \<longrightarrow> an_at a < an_to a \<and>
          th_updates (sy_threads (wh_sys s) ! (sy_committed (wh_sys s) ! an_at a)) = request_updates (an_request a)) \<and>
       (rq_op_code (an_request a) \<noteq> 2 \<or> no_compaction (wh_sys s) \<longrightarrow>
          Some (an_answer a) = snd (request_spec (an_request a) (map_after M0 (wh_sys s) (an_at a)))))"
  using whole.reachable_inv [OF assms(1,2)] assms(3) by (simp add: whole_inv_def answers_inv_def answered_ok_def commits_def)

text \<open>A client connects with the descriptor 5 and sends a put; its task is in \<^verbatim>\<open>Write\<close>.\<close>

definition sample_request :: request where
  "sample_request = \<lparr>rq_op_code = 1, rq_key = [97], rq_value = [98]\<rparr>"

definition sample_conn :: connection where
  "sample_conn = connection_make\<lparr>cn_read := request_bytes 1 [97] (Some [98]), cn_req := Some sample_request\<rparr>"

definition sample_pool :: "nat ThreadPool" where
  "sample_pool = (ThreadPool_make thread_pool_size)\<lparr>tp_tasks := [0], tp_notify := 1, tp_enqueued := [0]\<rparr>"

definition sample_whole :: "(nat, bytes) system \<Rightarrow> task_pc \<Rightarrow> (nat, bytes) whole" where
  "sample_whole sys c = (whole_make 0 [] fresh_db)
     \<lparr>sv_heap := [sample_conn], sv_connection_storage := [5 \<mapsto> Some 0], sv_tasks := [(5, Some 0)], wh_sys := sys,
      wh_pool := ThreadPool_take 0 sample_pool, wh_scope := Some 0, wh_calls := (\<lambda>i. AtRead)(0 := c)\<rparr>"

lemma sample_batch:
  "WriteBatch_Put (Slice_string [97]) (Slice_string [98]) WriteBatch_make = Inr \<lparr>wb_rep = batch_bytes 0 [UPut [97] [98]]\<rparr>"
proof -
  obtain p where "WriteBatch_Put (Slice_string [97]) (Slice_string [98]) WriteBatch_make = Inr p" "batch_rep p 0 [UPut [97] [98]]"
    by (rule put_batch [of "[97]" "[98]"]) simp
  then show ?thesis by (cases p) (simp add: batch_rep_def)
qed

lemma sample_worker:
  "tp_workers (wh_pool (sample_whole sys c)) \<noteq> []" "tp_workers (wh_pool (sample_whole sys c)) ! 0 = WRun 0"
  "wh_fault (sample_whole sys c) = None" "wh_scope (sample_whole sys c) = Some 0" "wh_calls (sample_whole sys c) 0 = c"
  "wh_sys (sample_whole sys c) = sys" "heap_request 0 (sample_whole sys c) = Some sample_request"
  by (simp_all add: sample_whole_def heap_request_def sample_conn_def sample_pool_def ThreadPool_take_def ThreadPool_make_def thread_pool_size_def whole_make_def Let_def)

lemma sample_call_run:
  "(whole_step rand os 3)\<^sup>*\<^sup>* (whole_make 0 [] db) (sample_whole (one_put db) (InWrite 0 sample_request 0))"
proof -
  let ?step = "whole_step rand os 3" and ?s0 = "whole_make 0 [] db :: (nat, bytes) whole"
  let ?s1 = "?s0\<lparr>sv_heap := [connection_make], sv_connection_storage := [5 \<mapsto> Some 0]\<rparr>"
  let ?s2 = "?s1\<lparr>sv_tasks := [(5, Some 0)], wh_pool := sample_pool, wh_scope := Some 0\<rparr>"
  let ?s3 = "?s2\<lparr>wh_pool := ThreadPool_take 0 sample_pool\<rparr>"
  let ?s4 = "sample_whole (sys_start db 0 []) (AtSwitch 0)"
  have "loop_body 3 3 True False 5 ?s0 = Some ?s1"
    by (simp add: loop_body_def main_event_def whole_make_def hashmap_set_def hashmap_count_def Let_def)
  then have 1: "?step ?s0 ?s1" by (rule whole_step.event [rotated 2]) (simp_all add: whole_make_def)
  have "loop_body 3 5 True False 0 ?s1 = Some ?s2"
    by (simp add: loop_body_def main_event_def whole_make_def hashmap_get_def ThreadPool_enqueue_def ThreadPool_make_def sample_pool_def Let_def)
  then have 2: "?step ?s1 ?s2" by (rule whole_step.event [rotated 2]) (simp_all add: whole_make_def)
  have "pool_moves sample_pool (ThreadPool_take 0 sample_pool)"
    using pool_step.take [of 0 sample_pool] by (simp add: pool_moves_def sample_pool_def ThreadPool_make_def thread_pool_size_def ThreadPool_take_def Let_def)
  then have 3: "?step ?s2 ?s3" using whole_step.pool [of ?s2] by (simp add: whole_make_def)
  have "task_run os 0 (Some (request_bytes 1 [97] (Some [98]))) 0 0 ?s3 = Inr ?s4"
    using Parser_read_request [of 1 "[97]" "Some [98]" connection_make 0]
    by (simp add: task_run_def task_read_def whole_make_def sent_value_def set_call_def commits_def sys_start_def sample_whole_def sample_conn_def sample_request_def
        connection_make_def)
  then have 4: "?step ?s3 ?s4"
    by (rule whole_step.task [rotated 5]) (simp_all add: whole_make_def sample_pool_def ThreadPool_take_def ThreadPool_make_def thread_pool_size_def task_ready_def request_short_def heap_request_def connection_make_def)
  have wr: "start_write 0 0 sample_request \<lparr>wb_rep = batch_bytes 0 [UPut [97] [98]]\<rparr> (UPut [97] [98]) ?s4 =
      sample_whole (one_put db) (InWrite 0 sample_request 0)"
    by (simp add: start_write_def set_call_def sample_whole_def whole_make_def one_put_def sys_start_def)
  have alive: "conn_alive 0 ?s4" by (simp add: conn_alive_def sample_worker)
  have "task_run os 0 None 0 0 ?s4 = Inr (sample_whole (one_put db) (InWrite 0 sample_request 0))"
    unfolding wr [symmetric] task_run_def task_switch_def sample_worker using alive sample_batch by (simp add: sample_request_def)
  then have 5: "?step ?s4 (sample_whole (one_put db) (InWrite 0 sample_request 0))"
    by (rule whole_step.task [rotated 5]) (simp_all add: sample_worker task_ready_def request_short_def request_ok_def sample_request_def)
  note run = converse_rtranclp_into_rtranclp
  show ?thesis by (rule run [OF 1 run [OF 2 run [OF 3 run [OF 4 r_into_rtranclp [of ?step, OF 5]]]]])
qed

text \<open>Steps of the database within the sample.\<close>

lemma sample_db_step:
  assumes "sys_step rand os sys sys'" "sy_threads sys' = set_pc t pc ths @ replicate n compaction_thread" "length ths = length (sy_threads sys)"
  shows "whole_step rand os 3 (sample_whole sys c) (sample_whole sys' c)"
proof -
  have "db_moves rand os sys sys'" using assms by (simp add: db_moves_def list_all_iff)
  from whole_step.database [of "sample_whole sys c", unfolded sample_worker, OF refl this]
  have "whole_step rand os 3 (sample_whole sys c) ((sample_whole sys c)\<lparr>wh_sys := sys'\<rparr>)" .
  moreover have "(sample_whole sys c)\<lparr>wh_sys := sys'\<rparr> = sample_whole sys' c" by (simp add: sample_whole_def whole_make_def)
  ultimately show ?thesis by simp
qed

text \<open>The put of the sample is committed and answered.\<close>

lemma sample_answer:
  assumes "0 < length (sy_threads sys)" "th_pc (sy_threads sys ! 0) = Written" "sy_committed sys = [0]"
  shows "\<exists>s. (whole_step rand os 3)\<^sup>*\<^sup>* (sample_whole sys (InWrite 0 sample_request 0)) s \<and> wh_sys s = sys \<and>
    wh_answers s = [\<lparr>an_fd = 5, an_request = sample_request, an_from = 0, an_at = 0, an_to = 1, an_answer = answer_ok\<rparr>]"
proof -
  let ?s1 = "sample_whole sys (AtAnswer 0 sample_request 0 (Some answer_ok))"
  have "task_run os 0 None 0 0 (sample_whole sys (InWrite 0 sample_request 0)) = Inr ?s1"
    by (simp add: task_run_def task_returned_def sample_worker assms(3)) (simp add: sample_whole_def whole_make_def set_call_def)
  then have 1: "whole_step rand os 3 (sample_whole sys (InWrite 0 sample_request 0)) ?s1"
    by (rule whole_step.task [rotated 5]) (use assms in \<open>simp_all add: sample_worker task_ready_def request_short_def request_ok_def sample_request_def\<close>)
  obtain s where s: "task_run os 0 None 0 0 ?s1 = Inr s" "wh_sys s = sys"
    "wh_answers s = [\<lparr>an_fd = 5, an_request = sample_request, an_from = 0, an_at = 0, an_to = 1, an_answer = answer_ok\<rparr>]"
    by (simp add: task_run_def task_answer_def sample_worker commits_def assms(3)) (simp add: sample_whole_def whole_make_def)
  have "whole_step rand os 3 ?s1 s" by (rule whole_step.task [OF _ _ _ _ _ s(1)]) (simp_all add: sample_worker task_ready_def request_short_def request_ok_def sample_request_def)
  with 1 have "(whole_step rand os 3)\<^sup>*\<^sup>* (sample_whole sys (InWrite 0 sample_request 0)) s" by auto
  then show ?thesis using s(2,3) by blast
qed

theorem server_linearizable_witness:
  "\<exists>s. (whole_step (\<lambda>n. (n, n + 1)) slow_os 3)\<^sup>*\<^sup>* (whole_make 0 [] fresh_db) s \<and> sv_written s = [(5, answer_ok)] \<and>
     th_updates (sy_threads (wh_sys s) ! (sy_committed (wh_sys s) ! 0)) = [UPut [97] [98]]"
proof -
  let ?rand = "\<lambda>n::nat. (n, n + 1)" and ?c = "InWrite 0 sample_request 0" and ?sys = "one_put fresh_db"
  let ?sys1 = "Write_enter 0 ?sys"
  let ?sys2 = "Write_room 0 0 ?sys1"
  have one: "sy_threads ?sys = [writer_thread \<lparr>wb_rep = batch_bytes 0 [UPut [97] [98]]\<rparr> [UPut [97] [98]]]" "sy_committed ?sys = []"
    "sy_rwlock ?sys = None" "sy_db ?sys = fresh_db" "commit_log ?sys = []"
    by (simp_all add: one_put_def sys_start_def commit_log_def)
  have inv: "sys_inv ?sys" "map_inv Map.empty 1 ?sys"
    using db_sys.reachable_inv [OF fresh_init one_put_run [of ?rand slow_os]] by simp_all
  have hyp: "0 < length (sy_threads ?sys)" "th_pc (sy_threads ?sys ! 0) = WantWrite" "sy_rwlock ?sys = None" "db_room 0 (sy_db ?sys)"
    "unat (1::u64) + length (commit_log ?sys) + length (th_updates (sy_threads ?sys ! 0)) < 2 ^ 56"
    using fresh_db_rep(3) by (simp_all add: one writer_thread_def)
  note w = writer_commits [OF inv hyp]
  obtain n where n: "sy_threads ?sys2 = set_pc 0 InGroup (set_pc 0 InRoom (sy_threads ?sys)) @ replicate n compaction_thread"
    using w(11) by blast
  obtain sys3 where c: "Write_commit ?rand 0 ?sys2 = Inr sys3" using w(5) by blast
  note c' = commit_log_commit [OF w(6,7,3,4) c]
  have 1: "whole_step ?rand slow_os 3 (sample_whole ?sys ?c) (sample_whole ?sys1 ?c)"
    by (rule sample_db_step [OF w(1), where ths = "sy_threads ?sys" and n = 0]) (simp_all add: Write_enter_def Let_def)
  have 2: "whole_step ?rand slow_os 3 (sample_whole ?sys1 ?c) (sample_whole ?sys2 ?c)"
    by (rule sample_db_step [OF w(2) n]) (simp add: Write_enter_def Let_def)
  have 3: "whole_step ?rand slow_os 3 (sample_whole ?sys2 ?c) (sample_whole sys3 ?c)"
    by (rule sample_db_step [OF sys_step.commit [OF w(3,4) c], where ths = "sy_threads ?sys2" and n = 0]) (simp_all add: c')
  obtain s where s: "(whole_step ?rand slow_os 3)\<^sup>*\<^sup>* (sample_whole sys3 ?c) s" "wh_sys s = sys3"
    "wh_answers s = [\<lparr>an_fd = 5, an_request = sample_request, an_from = 0, an_at = 0, an_to = 1, an_answer = answer_ok\<rparr>]"
    using sample_answer [of sys3 ?rand slow_os] c' w(3,10) one(2) by auto
  have run: "(whole_step ?rand slow_os 3)\<^sup>*\<^sup>* (whole_make 0 [] fresh_db) s"
    using sample_call_run [of ?rand slow_os fresh_db] 1 2 3 s(1) by (meson rtranclp.rtrancl_into_rtrancl rtranclp_trans)
  have init: "whole_init Map.empty 1 (whole_make 0 [] fresh_db :: (nat, bytes) whole)"
    using fresh_db_rep by (intro whole_init_make) (simp_all add: fresh_db_def)
  have "commit_log sys3 = [UPut [97] [98]]" using c'(1) w(8,9) one by (simp add: writer_thread_def)
  then show ?thesis
    using server_linearizable [OF init run] run s(2,3) by (intro exI [of _ s]) (simp add: request_updates_def sample_request_def)
qed

end
