(* ===== verification/ServerHangs.thy ===== *)
theory ServerHangs
  imports ServerThreads
begin

text \<open>
  The deadlock of the database within the whole program: a writer that waits for a compaction keeps \<^verbatim>\<open>rwlock_\<close> for ever, so
  every task that needs the database waits too.
\<close>

section \<open>What does not change\<close>

text \<open>The answer of this task does not need the database any more.\<close>

fun answer_due :: "nat list \<Rightarrow> task_pc \<Rightarrow> bool" where
  "answer_due committed (InWrite since req t) \<longleftrightarrow> t \<in> set committed"
| "answer_due committed (AtAnswer since req at (Some d)) \<longleftrightarrow> True"
| "answer_due committed c \<longleftrightarrow> False"

definition answers_due :: "('r, 'w) whole \<Rightarrow> nat" where
  "answers_due s = (\<Sum>i<thread_pool_size. if answer_due (sy_committed (wh_sys s)) (wh_calls s i) then 1 else 0)"

text \<open>A writer waits with the lock: since \<open>s0\<close> no answer was given that was not due, and every call of \<^verbatim>\<open>Write\<close> goes on.\<close>

definition hang_inv :: "nat \<Rightarrow> ('r, 'w) whole \<Rightarrow> ('r, 'w) whole \<Rightarrow> bool" where
  "hang_inv t s0 s \<longleftrightarrow>
     sys_inv (wh_sys s) \<and> stuck_at t (wh_sys s0) (wh_sys s) \<and> length (tp_workers (wh_pool s)) = thread_pool_size \<and>
     length (sv_written s) + answers_due s \<le> length (sv_written s0) + answers_due s0 \<and>
     (\<forall>i since req u. wh_calls s0 i = InWrite since req u \<and> u \<notin> set (sy_committed (wh_sys s0)) \<longrightarrow> wh_calls s i = InWrite since req u)"

lemma sum_upd:
  fixes g :: "'a \<Rightarrow> nat" and n :: nat
  assumes "i < n"
  shows "(\<Sum>j<n. g ((f(i := c)) j)) + g (f i) = (\<Sum>j<n. g (f j)) + g c"
proof -
  have "(\<Sum>j<n. h j) = h i + (\<Sum>j\<in>{..<n} - {i}. h j)" for h :: "nat \<Rightarrow> nat" by (rule sum.remove) (use assms in auto)
  moreover have "(\<Sum>j\<in>{..<n} - {i}. g ((f(i := c)) j)) = (\<Sum>j\<in>{..<n} - {i}. g (f j))" by (rule sum.cong) auto
  ultimately show ?thesis by (metis (no_types, lifting) add.assoc add.commute fun_upd_same)
qed

text \<open>The step of a worker that gives no answer and gets none.\<close>

lemma hang_inv_call:
  assumes inv: "hang_inv t s0 s" and i: "i < thread_pool_size" and sys: "sys_inv (wh_sys s')" "stuck_at t (wh_sys s0) (wh_sys s')"
    and pool: "length (tp_workers (wh_pool s')) = thread_pool_size" and calls: "wh_calls s' = (wh_calls s)(i := c)"
    and due: "length (sv_written s') + (if answer_due (sy_committed (wh_sys s)) c then 1 else 0) \<le>
      length (sv_written s) + (if answer_due (sy_committed (wh_sys s)) (wh_calls s i) then 1 else 0)"
    and stay: "\<And>since req u. wh_calls s i = InWrite since req u \<Longrightarrow> u \<in> set (sy_committed (wh_sys s))"
  shows "hang_inv t s0 s'"
proof -
  have com: "sy_committed (wh_sys s') = sy_committed (wh_sys s)" "sy_committed (wh_sys s) = sy_committed (wh_sys s0)"
    using inv sys(2) by (simp_all add: hang_inv_def stuck_at_def)
  have "answers_due s' + (if answer_due (sy_committed (wh_sys s)) (wh_calls s i) then 1 else 0) =
      answers_due s + (if answer_due (sy_committed (wh_sys s)) c then 1 else 0)"
    unfolding answers_due_def com(1) calls by (rule sum_upd [OF i])
  then have "length (sv_written s') + answers_due s' \<le> length (sv_written s0) + answers_due s0"
    using inv due by (simp add: hang_inv_def)
  moreover have "wh_calls s' j = InWrite since req u"
    if w: "wh_calls s0 j = InWrite since req u" "u \<notin> set (sy_committed (wh_sys s0))" for j since req u
  proof -
    have "wh_calls s j = InWrite since req u" using inv w by (simp add: hang_inv_def)
    then show ?thesis using stay [of since req u] w(2) by (auto simp: calls com(2))
  qed
  ultimately show ?thesis using sys pool by (simp add: hang_inv_def)
qed

lemma hang_inv_same:
  assumes "hang_inv t s0 s" "sys_inv (wh_sys s')" "stuck_at t (wh_sys s0) (wh_sys s')" "wh_calls s' = wh_calls s" "sv_written s' = sv_written s"
    "length (tp_workers (wh_pool s')) = length (tp_workers (wh_pool s))"
  shows "hang_inv t s0 s'"
proof -
  have "sy_committed (wh_sys s') = sy_committed (wh_sys s)" using assms(1,3) by (simp add: hang_inv_def stuck_at_def)
  then have "answers_due s' = answers_due s" by (simp add: answers_due_def assms(4))
  then show ?thesis using assms by (simp add: hang_inv_def)
qed

lemma hang_inv_task:
  assumes inv: "hang_inv t s0 s" and i: "i < thread_pool_size" and run: "task_run os junk_op received i block s = Inr s'" "task_ready i block s" "request_short block s"
    and sys: "sys_inv (wh_sys s')" "stuck_at t (wh_sys s0) (wh_sys s')"
  shows "hang_inv t s0 s'"
proof -
  have pool: "length (tp_workers (wh_pool s')) = thread_pool_size" using task_run_workers [OF run] inv by (simp add: hang_inv_def)
  note next_call = hang_inv_call [OF inv i sys pool]
  have lock: "sy_rwlock (wh_sys s) = Some t" "sys_inv (wh_sys s)" using inv by (simp_all add: hang_inv_def stuck_at_def)
  show ?thesis
  proof (cases "wh_calls s i")
    case (AtSwitch since)
    have "task_switch os i block since s = Inr s'" using run AtSwitch by (simp add: task_run_def)
    then show ?thesis using AtSwitch run(2,3)
    proof (cases rule: task_switch_cases)
      case (call req w u)
      have "length (sy_threads (wh_sys s)) \<notin> set (sy_committed (wh_sys s))" using committed_threads [OF lock(2)] by blast
      then show ?thesis by (intro next_call [where c = "InWrite since req (length (sy_threads (wh_sys s)))"]) (simp_all add: call(5) AtSwitch)
    next
      case (look a req x)
      then show ?thesis using lock by simp
    next
      case (other req)
      then show ?thesis by (intro next_call [where c = "AtAnswer since req (commits s) None"]) (simp_all add: AtSwitch)
    qed
  next
    case AtRead
    then have "task_read junk_op received i block s = Inr s'" using run by (simp add: task_run_def)
    from task_read_frame [OF this] show ?thesis by (intro next_call [where c = "AtSwitch (commits s)"]) (simp_all add: AtRead)
  next
    case (InWrite since req u)
    then have "u \<in> set (sy_committed (wh_sys s))" using run(2) lock(2) by (auto simp: task_ready_def sys_inv_def commit_inv_def)
    moreover have "s' = task_returned i since req u s" using InWrite run(1) by (simp add: task_run_def)
    ultimately show ?thesis
      by (intro next_call [where c = "AtAnswer since req (length (takeWhile (\<lambda>v. v \<noteq> u) (sy_committed (wh_sys s)))) (Some answer_ok)"])
         (simp_all add: InWrite task_returned_def)
  next
    case (AtAnswer since req at answer)
    then have "task_answer i block since req at answer s = Inr s'" using run by (simp add: task_run_def)
    from task_answer_frame [OF this] show ?thesis
      by (intro next_call [where c = AtClose]) (auto simp: AtAnswer split: option.splits)
  next
    case AtClose
    then have "task_close i block s = Inr s'" using run by (simp add: task_run_def)
    from task_close_frame [OF this] show ?thesis by (intro next_call [where c = AtErase]) (simp_all add: AtClose)
  next
    case AtErase
    then have "task_erase i block s = Inr s'" using run by (simp add: task_run_def)
    from task_erase_frame [OF this] show ?thesis by (intro next_call [where c = AtRead]) (simp_all add: AtErase)
  qed
qed

lemma hang_inv_step:
  assumes inv: "hang_inv t s0 s" and step: "whole_step rand os listen_fd s s'"
  shows "hang_inv t s0 s'"
proof -
  have sys: "sys_inv (wh_sys s)" "stuck_at t (wh_sys s0) (wh_sys s)" using inv by (simp_all add: hang_inv_def)
  have "sys_inv (wh_sys s') \<and> stuck_at t (wh_sys s0) (wh_sys s')"
    using whole_sys [OF step]
  proof
    assume d: "sys_step rand os (wh_sys s) (wh_sys s')"
    then show ?thesis using sys_inv_step [OF sys(1) d] stuck_step [OF d sys] by simp
  qed (use sys in simp)
  then have sys': "sys_inv (wh_sys s')" "stuck_at t (wh_sys s0) (wh_sys s')" by simp_all
  note same = hang_inv_same [OF inv sys' _ _ whole_workers [OF step]]
  show ?thesis using step
  proof cases
    case event
    from loop_body_frame [OF event(3)] show ?thesis by (intro same)
  next
    case task
    then show ?thesis using inv by (intro hang_inv_task [OF inv _ task(6,4,5) sys']) (simp add: hang_inv_def)
  qed (rule same; simp)+
qed

interpretation hang: invariant_system "\<lambda>s. hang_inv t s s \<and> s = s0" "whole_step rand os listen_fd" "hang_inv t s0"
  by unfold_locales (use hang_inv_step in auto)

section \<open>Properties\<close>

text \<open>C7: a writer that has to wait for a compaction hangs the server. From then on, in every interleaving, it waits and
  holds the lock, the database and its files stay as they are, every task whose put or delete is not committed stays
  in \<^verbatim>\<open>Write\<close>, and there are no more answers than the tasks have that do not need the database any more: no
  request that is read later is answered.\<close>

theorem server_hangs:
  assumes "whole_init M0 q0 s0" "(whole_step rand os listen_fd)\<^sup>*\<^sup>* s0 s" "t < length (sy_threads (wh_sys s))"
    "th_pc (sy_threads (wh_sys s) ! t) = RoomWait" "(whole_step rand os listen_fd)\<^sup>*\<^sup>* s s'"
  shows "sy_rwlock (wh_sys s') = Some t \<and> sy_db (wh_sys s') = sy_db (wh_sys s) \<and> sy_disk (wh_sys s') = sy_disk (wh_sys s) \<and>
    length (sv_written s') \<le> length (sv_written s) + answers_due s \<and> answers_due s \<le> thread_pool_size \<and>
    (\<forall>i since req u. wh_calls s i = InWrite since req u \<and> u \<notin> set (sy_committed (wh_sys s)) \<longrightarrow> wh_calls s' i = InWrite since req u)"
proof -
  have inv: "sys_inv (wh_sys s)" "length (tp_workers (wh_pool s)) = thread_pool_size"
    using whole.reachable_inv [OF assms(1,2)] by (simp_all add: whole_inv_def)
  then have "stuck_at t (wh_sys s) (wh_sys s)"
    using assms(3,4) by (auto simp: stuck_at_def sys_inv_def lock_inv_def wait_inv_def in_write_def)
  then have "hang_inv t s s'" using hang.reachable_inv [OF _ assms(5), of t s] inv by (simp add: hang_inv_def)
  moreover have "answers_due s \<le> (\<Sum>i<thread_pool_size. 1)" unfolding answers_due_def by (rule sum_mono) simp
  ultimately show ?thesis by (simp add: hang_inv_def stuck_at_def)
qed

theorem server_hangs_witness:
  "\<exists>s. (whole_step (\<lambda>n. (n, n + 1)) slow_os 3)\<^sup>*\<^sup>* (whole_make 0 [] (fresh_db\<lparr>db_memtable := Memtable_make 4096\<rparr>)) s \<and>
     (\<forall>s'. (whole_step (\<lambda>n. (n, n + 1)) slow_os 3)\<^sup>*\<^sup>* s s' \<longrightarrow> sv_written s' = [])"
proof -
  let ?db = "fresh_db\<lparr>db_memtable := Memtable_make 4096\<rparr>" and ?rand = "\<lambda>n::nat. (n, n + 1)" and ?c = "InWrite 0 sample_request 0"
  let ?sys1 = "Write_enter 0 (one_put ?db)"
  let ?sys2 = "Write_room 4096 0 ?sys1"
  have init: "whole_init Map.empty 1 (whole_make 0 [] ?db :: (nat, bytes) whole)"
    using mem_state_make [of 4096 1] by (intro whole_init_make) (auto simp: fresh_db_def db_rep_def)
  have sys: "sy_threads ?sys1 = set_pc 0 InRoom (sy_threads (one_put ?db)) @ replicate 0 compaction_thread"
    "\<exists>n. sy_threads ?sys2 = set_pc 0 RoomWait (sy_threads ?sys1) @ replicate n compaction_thread" "length (sy_threads (one_put ?db)) = 1"
    "th_pc (sy_threads ?sys2 ! 0) = RoomWait" "sy_committed ?sys2 = []"
    by (simp_all add: one_put_def sys_start_def writer_thread_def Write_enter_def fresh_db_def Writer_make_def Write_room_def
        MakeRoom_eq Memtable_EstimatedSize_make kMaxMemtableSize_def nth_append Let_def)
  then obtain n where n: "sy_threads ?sys2 = set_pc 0 RoomWait (sy_threads ?sys1) @ replicate n compaction_thread" by blast
  have "sys_step ?rand slow_os (one_put ?db) ?sys1"
    by (rule sys_step.enter) (simp_all add: one_put_def sys_start_def writer_thread_def)
  then have 1: "whole_step ?rand slow_os 3 (sample_whole (one_put ?db) ?c) (sample_whole ?sys1 ?c)"
    by (rule sample_db_step [OF _ sys(1)]) simp
  have "sys_step ?rand slow_os ?sys1 ?sys2"
    by (rule sys_step.room) (simp_all add: one_put_def sys_start_def writer_thread_def Write_enter_def fresh_db_def Writer_make_def)
  then have 2: "whole_step ?rand slow_os 3 (sample_whole ?sys1 ?c) (sample_whole ?sys2 ?c)" by (rule sample_db_step [OF _ n]) simp
  have run: "(whole_step ?rand slow_os 3)\<^sup>*\<^sup>* (whole_make 0 [] ?db) (sample_whole ?sys2 ?c)"
    using sample_call_run [of ?rand slow_os ?db] 1 2 by (meson rtranclp.rtrancl_into_rtrancl)
  have "0 < length (sy_threads (wh_sys (sample_whole ?sys2 ?c)))" "th_pc (sy_threads (wh_sys (sample_whole ?sys2 ?c)) ! 0) = RoomWait"
    using n sys by (simp_all add: sample_worker)
  note hangs = server_hangs [OF init run this]
  have "answers_due (sample_whole ?sys2 ?c) = 0" "sv_written (sample_whole ?sys2 ?c) = []"
    by (simp_all add: answers_due_def sample_whole_def whole_make_def sys(5) del: sum.neutral_const)
  then show ?thesis using run hangs by (intro exI [of _ "sample_whole ?sys2 ?c"]) fastforce
qed

end
