(* ===== verification/TableMemory.thy ===== *)
theory TableMemory
  imports SSTables "HOL-Library.Multiset"
begin

text \<open>
  Who owns what of a table: the objects that \<^verbatim>\<open>SSTable\<close> (\<^verbatim>\<open>disk/sstable.cc\<close>), \<^verbatim>\<open>SSTableIterator\<close>
  (\<^verbatim>\<open>disk/sstable_iterator.cc\<close>) and \<^verbatim>\<open>TableBuilder\<close> (\<^verbatim>\<open>disk/table_builder.cc\<close>) create with \<^verbatim>\<open>new\<close>, and their destructors. The
  operations are those of the theory of tables with a heap; \<^verbatim>\<open>delete\<close> of an object that is gone, and using one, is an error.
\<close>

section \<open>Objects\<close>

datatype obj = CharArray | BlockObj | BlockIteratorObj | SSTableIteratorObj | FilterBlockReaderObj | RepObj | SSTableObj | BuilderRepObj

record heap =
  hp_live :: "(nat \<times> obj) list"
  hp_fresh :: nat

definition new_object :: "obj \<Rightarrow> heap \<Rightarrow> nat \<times> heap" where
  "new_object k h = (hp_fresh h, \<lparr>hp_live = (hp_fresh h, k) # hp_live h, hp_fresh = hp_fresh h + 1\<rparr>)"

definition check_live :: "nat \<Rightarrow> heap \<Rightarrow> unit res" where
  "check_live a h = (if map_of (hp_live h) a = None then Inl UseAfterFree else Inr ())"

definition delete_object :: "nat \<Rightarrow> heap \<Rightarrow> heap res" where
  "delete_object a h = rbind (check_live a h) (\<lambda>_. Inr (h\<lparr>hp_live := filter (\<lambda>x. fst x \<noteq> a) (hp_live h)\<rparr>))"

text \<open>A pointer that may be null.\<close>

definition delete_pointer :: "nat option \<Rightarrow> heap \<Rightarrow> heap res" where
  "delete_pointer p h = (case p of None \<Rightarrow> Inr h | Some a \<Rightarrow> delete_object a h)"

section \<open>Tables\<close>

text \<open>The array of a block that was read belongs to nobody; it is released when reading fails.\<close>

definition ReadBlock_mem ::
  "'w posix \<Rightarrow> RandomAccessFile \<Rightarrow> BlockHandle \<Rightarrow> 'w \<Rightarrow> heap \<Rightarrow> ((slice \<times> nat) option \<times> heap) res" where
  "ReadBlock_mem os file block_handle w h =
     (let (block_content, h) = new_object CharArray h in
      rbind (ReadBlock os file block_handle w) (\<lambda>result. case result of
        None \<Rightarrow> rbind (delete_object block_content h) (\<lambda>h. Inr (None, h))
      | Some content \<Rightarrow> Inr (Some (content, block_content), h)))"

record SSTable_mem =
  tm_table :: SSTable
  tm_this :: nat
  tm_rep :: nat
  tm_filter_block_reader :: nat
  tm_filter_data :: nat
  tm_index_block :: nat

definition SSTable_Open_mem ::
  "'w posix \<Rightarrow> RandomAccessFile \<Rightarrow> nat \<Rightarrow> 'w \<Rightarrow> heap \<Rightarrow> (SSTable_mem option \<times> heap) res" where
  "SSTable_Open_mem os file file_size w h =
     (if file_size < kFixedFooterSize then Inr (None, h)
      else
        rbind (RandomAccessFile_Read os file (file_size - kFixedFooterSize) kFixedFooterSize w) (\<lambda>(s, footer_content).
        if \<not> Status_ok s then Inr (None, h)
        else
          rbind (Footer_DecodeFrom footer_content Footer_make) (\<lambda>(s, footer, _).
          if \<not> Status_ok s then Inr (None, h)
          else
            rbind (ReadBlock_mem os file (ft_index footer) w h) (\<lambda>(index_block_content, h).
            case index_block_content of
              None \<Rightarrow> Inr (None, h)
            | Some (index_content, _) \<Rightarrow>
                let (block, h) = new_object BlockObj h in
                rbind (ReadBlock_mem os file (ft_filter footer) w h) (\<lambda>(filter_block_content, h).
                case filter_block_content of
                  None \<Rightarrow> rbind (delete_object block h) (\<lambda>h. Inr (None, h))
                | Some (filter_content, filter_data) \<Rightarrow>
                    let (rep, h) = new_object RepObj h in
                    rbind (Slice_cstr (sl_mem filter_content)) (\<lambda>c.
                    rbind (FilterBlockReader_make c) (\<lambda>reader.
                    let (r, h) = new_object FilterBlockReaderObj h; (this, h) = new_object SSTableObj h in
                    Inr (Some \<lparr>tm_table = \<lparr>ss_file = file, ss_filter_block_reader = reader, ss_filter_data = sl_mem filter_content,
                                            ss_index_block = Block_make index_content\<rparr>,
                               tm_this = this, tm_rep = rep, tm_filter_block_reader = r, tm_filter_data = filter_data,
                               tm_index_block = block\<rparr>, h))))))))"

text \<open>\<^verbatim>\<open>~SSTable\<close>, which deletes its \<^verbatim>\<open>Rep\<close>, and \<^verbatim>\<open>delete\<close> of a table.\<close>

definition SSTable_destroy :: "SSTable_mem \<Rightarrow> heap \<Rightarrow> heap res" where
  "SSTable_destroy t h =
     rbind (check_live (tm_rep t) h) (\<lambda>_.
     rbind (delete_object (tm_filter_block_reader t) h) (\<lambda>h.
     rbind (delete_object (tm_filter_data t) h) (\<lambda>h.
     rbind (delete_object (tm_index_block t) h) (\<lambda>h.
       delete_object (tm_rep t) h))))"

definition SSTable_delete :: "SSTable_mem \<Rightarrow> heap \<Rightarrow> heap res" where
  "SSTable_delete t h = rbind (SSTable_destroy t h) (delete_object (tm_this t))"

section \<open>Table iterators\<close>

record SSTableIterator_mem =
  im_iter :: SSTableIterator
  im_this :: nat
  im_index_iter :: nat
  im_data_iter :: "nat option"

definition SSTable_NewIterator_mem :: "SSTable_mem \<Rightarrow> heap \<Rightarrow> (SSTableIterator_mem \<times> heap) res" where
  "SSTable_NewIterator_mem t h =
     rbind (check_live (tm_rep t) h) (\<lambda>_.
     rbind (check_live (tm_index_block t) h) (\<lambda>_.
     let (this, h) = new_object SSTableIteratorObj h; (index_iter, h) = new_object BlockIteratorObj h in
     Inr (\<lparr>im_iter = SSTable_NewIterator (tm_table t), im_this = this, im_index_iter = index_iter, im_data_iter = None\<rparr>, h)))"

text \<open>The block object is given to the iterator of its data, which does not keep it.\<close>

definition BlockReader_mem ::
  "'w posix \<Rightarrow> RandomAccessFile \<Rightarrow> slice \<Rightarrow> 'w \<Rightarrow> heap \<Rightarrow> ((BlockIterator \<times> nat) option \<times> heap) res" where
  "BlockReader_mem os file index_value w h =
     rbind (BlockHandle_DecodeFrom index_value BlockHandle_make) (\<lambda>(s, block_handle, _).
       if \<not> Status_ok s then Inr (None, h)
       else
         rbind (ReadBlock_mem os file block_handle w h) (\<lambda>(block_content, h). case block_content of
           None \<Rightarrow> Inr (None, h)
         | Some (content, _) \<Rightarrow>
             let (block, h) = new_object BlockObj h; (iter, h) = new_object BlockIteratorObj h in
             Inr (Some (BlockIterator_make (Block_make content), iter), h)))"

definition UpdateDataIterator_mem ::
  "'w posix \<Rightarrow> SSTableIterator_mem \<Rightarrow> 'w \<Rightarrow> heap \<Rightarrow> (SSTableIterator_mem \<times> heap) res" where
  "UpdateDataIterator_mem os im w h =
     (let it = im_iter im in
      rbind (check_live (im_index_iter im) h) (\<lambda>_.
      if \<not> BlockIterator_Valid (si_index_iter it) then Inr (im\<lparr>im_iter := it\<lparr>si_data_iter := None\<rparr>, im_data_iter := None\<rparr>, h)
      else
        let block_handle = BlockIterator_Value (si_index_iter it) in
        rbind (delete_pointer (im_data_iter im) h) (\<lambda>h.
        rbind (BlockReader_mem os (si_file it) block_handle w h) (\<lambda>(data_iter, h).
        rbind (read_mem (sl_mem block_handle) (sl_size block_handle)) (\<lambda>hd.
        rbind (assert_that (data_iter \<noteq> None)) (\<lambda>_.
          Inr (im\<lparr>im_iter := it\<lparr>si_data_iter := map_option (\<lambda>x. BlockIterator_SeekToFirst (fst x)) data_iter, si_data_block_handle := hd\<rparr>,
                  im_data_iter := map_option snd data_iter\<rparr>, h)))))))"

definition SSTableIterator_SeekToFirst_mem ::
  "'w posix \<Rightarrow> SSTableIterator_mem \<Rightarrow> 'w \<Rightarrow> heap \<Rightarrow> (SSTableIterator_mem \<times> heap) res" where
  "SSTableIterator_SeekToFirst_mem os im w h =
     rbind (check_live (im_index_iter im) h) (\<lambda>_.
     rbind (BlockIterator_Next (BlockIterator_SeekToFirst (si_index_iter (im_iter im)))) (\<lambda>index_iter.
       UpdateDataIterator_mem os (im\<lparr>im_iter := (im_iter im)\<lparr>si_index_iter := index_iter\<rparr>\<rparr>) w h))"

fun Next_loop_mem ::
  "nat \<Rightarrow> 'w posix \<Rightarrow> SSTableIterator_mem \<Rightarrow> 'w \<Rightarrow> heap \<Rightarrow> (SSTableIterator_mem \<times> heap) res" where
  "Next_loop_mem fuel os im w h =
     (case (si_data_iter (im_iter im), im_data_iter im) of
        (Some d, Some a) \<Rightarrow>
          rbind (check_live a h) (\<lambda>_.
          rbind (BlockIterator_Next d) (\<lambda>d.
          let im = im\<lparr>im_iter := (im_iter im)\<lparr>si_data_iter := Some d\<rparr>\<rparr> in
          if BlockIterator_Valid d then Inr (im, h)
          else
            rbind (BlockIterator_Next (si_index_iter (im_iter im))) (\<lambda>index_iter.
            let im = im\<lparr>im_iter := (im_iter im)\<lparr>si_index_iter := index_iter\<rparr>\<rparr> in
            if BlockIterator_Valid index_iter then
              rbind (UpdateDataIterator_mem os im w h) (\<lambda>(im, h).
                case fuel of 0 \<Rightarrow> Inl Diverged | Suc fuel \<Rightarrow> Next_loop_mem fuel os im w h)
            else Inr (im, h))))
      | _ \<Rightarrow> Inl NullDeref)"

declare Next_loop_mem.simps [simp del]

definition SSTableIterator_Next_mem ::
  "'w posix \<Rightarrow> SSTableIterator_mem \<Rightarrow> 'w \<Rightarrow> heap \<Rightarrow> (SSTableIterator_mem \<times> heap) res" where
  "SSTableIterator_Next_mem os im w h =
     rbind (assert_that (im_data_iter im \<noteq> None)) (\<lambda>_. Next_loop_mem (bi_size (si_index_iter (im_iter im))) os im w h)"

definition SSTableIterator_Seek_mem ::
  "'w posix \<Rightarrow> (slice \<Rightarrow> slice \<Rightarrow> int res) \<Rightarrow> slice \<Rightarrow> SSTableIterator_mem \<Rightarrow> 'w \<Rightarrow> heap \<Rightarrow>
     (bool \<times> SSTableIterator_mem \<times> heap) res" where
  "SSTableIterator_Seek_mem os cmp target im w h =
     rbind (check_live (im_index_iter im) h) (\<lambda>_.
     rbind (BlockIterator_Seek cmp target (si_index_iter (im_iter im))) (\<lambda>(_, index_iter).
     let im = im\<lparr>im_iter := (im_iter im)\<lparr>si_index_iter := index_iter\<rparr>\<rparr>; block_handle = BlockIterator_Value index_iter in
     rbind (read_mem (sl_mem block_handle) (sl_size block_handle)) (\<lambda>hd.
     rbind (if hd \<noteq> si_data_block_handle (im_iter im) then UpdateDataIterator_mem os im w h else Inr (im, h)) (\<lambda>(im, h).
     case (si_data_iter (im_iter im), im_data_iter im) of
       (Some d, Some a) \<Rightarrow>
         rbind (check_live a h) (\<lambda>_.
         rbind (BlockIterator_Seek cmp target d) (\<lambda>(found, d).
           Inr (found, im\<lparr>im_iter := (im_iter im)\<lparr>si_data_iter := Some d\<rparr>\<rparr>, h)))
     | _ \<Rightarrow> Inl AssertFail))))"

text \<open>\<^verbatim>\<open>~SSTableIterator\<close> releases the iterator of the data and keeps that of the index.\<close>

definition SSTableIterator_destroy :: "SSTableIterator_mem \<Rightarrow> heap \<Rightarrow> heap res" where
  "SSTableIterator_destroy im h = delete_pointer (im_data_iter im) h"

definition SSTableIterator_delete :: "SSTableIterator_mem \<Rightarrow> heap \<Rightarrow> heap res" where
  "SSTableIterator_delete im h = rbind (SSTableIterator_destroy im h) (delete_object (im_this im))"

text \<open>The iterator is deleted only when the key was found, and then used.\<close>

definition SSTable_InternalGet_mem ::
  "'w posix \<Rightarrow> (slice \<Rightarrow> slice \<Rightarrow> int res) \<Rightarrow> slice \<Rightarrow> SSTable_mem \<Rightarrow> 'w \<Rightarrow> heap \<Rightarrow> (bytes option \<times> heap) res" where
  "SSTable_InternalGet_mem os cmp key t w h =
     rbind (check_live (tm_rep t) h) (\<lambda>_.
     rbind (check_live (tm_filter_data t) h) (\<lambda>_.
     rbind (Slice_cstr (ss_filter_data (tm_table t))) (\<lambda>filt.
     rbind (BloomFilter_KeyMayMatch key filt) (\<lambda>may.
       if \<not> may then Inr (None, h)
       else
         rbind (SSTable_NewIterator_mem t h) (\<lambda>(im, h).
         rbind (SSTableIterator_SeekToFirst_mem os im w h) (\<lambda>(im, h).
         rbind (SSTableIterator_Seek_mem os cmp key im w h) (\<lambda>(flag, im, h).
         rbind (SSTableIterator_Valid (im_iter im)) (\<lambda>valid.
           if \<not> valid \<or> \<not> flag then Inr (None, h)
           else
             rbind (SSTableIterator_delete im h) (\<lambda>h.
             rbind (check_live (im_this im) h) (\<lambda>_.
             rbind (SSTableIterator_Value (im_iter im)) (\<lambda>v.
             rbind (read_mem (sl_mem v) (sl_size v)) (\<lambda>d. Inr (Some d, h)))))))))))))"

section \<open>The table builder\<close>

text \<open>The constructor and the destructor of \<^verbatim>\<open>TableBuilder\<close>, as far as they concern the heap.\<close>

definition TableBuilder_make_mem :: "heap \<Rightarrow> nat \<times> heap" where
  "TableBuilder_make_mem h = new_object BuilderRepObj h"

definition TableBuilder_destroy :: "nat \<Rightarrow> heap \<Rightarrow> heap res" where
  "TableBuilder_destroy rep h = delete_object rep h"

section \<open>The heap\<close>

definition heap_ok :: "heap \<Rightarrow> bool" where
  "heap_ok h \<longleftrightarrow> distinct (map fst (hp_live h)) \<and> (\<forall>x\<in>set (hp_live h). fst x < hp_fresh h)"

definition obj_at :: "heap \<Rightarrow> nat \<rightharpoonup> obj" where
  "obj_at h = map_of (hp_live h)"

text \<open>The objects that are there, by their kinds.\<close>

definition kinds :: "heap \<Rightarrow> obj multiset" where
  "kinds h = mset (map snd (hp_live h))"

text \<open>Objects stay where they are.\<close>

definition heap_ext :: "heap \<Rightarrow> heap \<Rightarrow> bool" where
  "heap_ext h h' \<longleftrightarrow> obj_at h \<subseteq>\<^sub>m obj_at h'"

lemma heap_ext_refl [simp]: "heap_ext h h" by (simp add: heap_ext_def)

lemma heap_ext_trans: "heap_ext h h' \<Longrightarrow> heap_ext h' h'' \<Longrightarrow> heap_ext h h''"
  unfolding heap_ext_def by (rule map_le_trans)

lemma heap_extD: "heap_ext h h' \<Longrightarrow> obj_at h a = Some k \<Longrightarrow> obj_at h' a = Some k"
  unfolding heap_ext_def map_le_def by (metis domI)

lemma check_live_ok [simp]: "obj_at h a = Some k \<Longrightarrow> check_live a h = Inr ()"
  by (simp add: check_live_def obj_at_def)

lemma new_object_ok:
  assumes "heap_ok h" "new_object k h = (a, h')"
  shows "heap_ok h' \<and> kinds h' = add_mset k (kinds h) \<and> obj_at h' a = Some k \<and> heap_ext h h'"
proof -
  have a: "a = hp_fresh h" "h' = \<lparr>hp_live = (hp_fresh h, k) # hp_live h, hp_fresh = hp_fresh h + 1\<rparr>"
    using assms(2) by (auto simp: new_object_def)
  have "map_of (hp_live h) (hp_fresh h) = None" using assms(1) by (force simp: heap_ok_def map_of_eq_None_iff)
  then show ?thesis using assms(1) by (force simp: a heap_ok_def kinds_def obj_at_def heap_ext_def map_le_def)
qed

lemma mset_delete_key:
  "distinct (map fst xs) \<Longrightarrow> map_of xs a = Some k \<Longrightarrow> mset (map snd xs) = add_mset k (mset (map snd (filter (\<lambda>x. fst x \<noteq> a) xs)))"
proof (induction xs)
  case (Cons x xs)
  have "fst x \<notin> fst ` set xs" using Cons.prems(1) by simp
  then have "filter (\<lambda>y. fst y \<noteq> fst x) xs = xs" by (intro filter_True) (metis imageI)
  then show ?case using Cons by (auto simp flip: mset_filter split: if_splits)
qed simp

lemma map_of_filter_key: "map_of (filter (\<lambda>x. fst x \<noteq> a) xs) = (map_of xs)(a := None)"
  by (induction xs) auto

lemma delete_object_ok:
  assumes "heap_ok h" "obj_at h a = Some k"
  obtains h' where "delete_object a h = Inr h'" "heap_ok h'" "kinds h = add_mset k (kinds h')" "obj_at h' = (obj_at h)(a := None)"
proof (rule that)
  let ?h = "h\<lparr>hp_live := filter (\<lambda>x. fst x \<noteq> a) (hp_live h)\<rparr>"
  show "delete_object a h = Inr ?h" using assms(2) by (simp add: delete_object_def)
  show "heap_ok ?h" using assms(1) by (simp add: heap_ok_def distinct_map_filter)
  show "kinds h = add_mset k (kinds ?h)" using assms mset_delete_key [of "hp_live h" a k] by (simp add: heap_ok_def kinds_def obj_at_def)
  show "obj_at ?h = (obj_at h)(a := None)" by (simp add: obj_at_def map_of_filter_key)
qed

section \<open>What a table owns\<close>

definition table_owned :: "SSTable_mem \<Rightarrow> heap \<Rightarrow> bool" where
  "table_owned t h \<longleftrightarrow>
     obj_at h (tm_this t) = Some SSTableObj \<and> obj_at h (tm_rep t) = Some RepObj \<and>
     obj_at h (tm_filter_block_reader t) = Some FilterBlockReaderObj \<and> obj_at h (tm_filter_data t) = Some CharArray \<and>
     obj_at h (tm_index_block t) = Some BlockObj"

lemma table_owned_ext: "table_owned t h \<Longrightarrow> heap_ext h h' \<Longrightarrow> table_owned t h'"
  by (simp add: table_owned_def heap_extD)

lemma ReadBlock_mem_ok:
  assumes "heap_ok h" "ReadBlock os f bh w = Inr (Some c)"
  obtains a h' where "ReadBlock_mem os f bh w h = Inr (Some (c, a), h')" "heap_ok h'" "kinds h' = add_mset CharArray (kinds h)"
    "obj_at h' a = Some CharArray" "heap_ext h h'"
proof -
  obtain a h' where n: "new_object CharArray h = (a, h')" by fastforce
  then show thesis using new_object_ok [OF assms(1) n] assms(2) by (intro that [of a h']) (simp_all add: ReadBlock_mem_def)
qed

text \<open>Opening a table creates six objects; the array of the index block is not among those the table owns.\<close>

lemma SSTable_Open_mem_ok:
  assumes "heap_ok h" "SSTable_Open os f n w = Inr (Some t)"
  obtains tm h' where "SSTable_Open_mem os f n w h = Inr (Some tm, h')" "tm_table tm = t" "table_owned tm h'" "heap_ok h'" "heap_ext h h'"
    "kinds h' = kinds h + {#CharArray, CharArray, BlockObj, RepObj, FilterBlockReaderObj, SSTableObj#}"
proof -
  obtain s1 fc s2 ft rest ic fl c r where o: "\<not> n < kFixedFooterSize"
    "RandomAccessFile_Read os f (n - kFixedFooterSize) kFixedFooterSize w = Inr (s1, fc)" "Status_ok s1"
    "Footer_DecodeFrom fc Footer_make = Inr (s2, ft, rest)" "Status_ok s2" "ReadBlock os f (ft_index ft) w = Inr (Some ic)"
    "ReadBlock os f (ft_filter ft) w = Inr (Some fl)" "Slice_cstr (sl_mem fl) = Inr c" "FilterBlockReader_make c = Inr r"
    "t = \<lparr>ss_file = f, ss_filter_block_reader = r, ss_filter_data = sl_mem fl, ss_index_block = Block_make ic\<rparr>"
    using assms(2) by (auto simp: SSTable_Open_def split: if_splits option.splits)
  obtain a h1 where 1: "ReadBlock_mem os f (ft_index ft) w h = Inr (Some (ic, a), h1)" "heap_ok h1" "kinds h1 = add_mset CharArray (kinds h)"
    "heap_ext h h1" by (rule ReadBlock_mem_ok [OF assms(1) o(6)])
  obtain b h2 where 2: "new_object BlockObj h1 = (b, h2)" by fastforce
  note 2 = 2 new_object_ok [OF 1(2) 2]
  obtain d h3 where 3: "ReadBlock_mem os f (ft_filter ft) w h2 = Inr (Some (fl, d), h3)" "heap_ok h3" "kinds h3 = add_mset CharArray (kinds h2)"
    "obj_at h3 d = Some CharArray" "heap_ext h2 h3" using ReadBlock_mem_ok [OF _ o(7), of h2] 2 by metis
  obtain rep h4 where 4: "new_object RepObj h3 = (rep, h4)" by fastforce
  note 4 = 4 new_object_ok [OF 3(2) 4]
  obtain rd h5 where 5: "new_object FilterBlockReaderObj h4 = (rd, h5)" by fastforce
  then have 5: "new_object FilterBlockReaderObj h4 = (rd, h5)" "heap_ok h5" "kinds h5 = add_mset FilterBlockReaderObj (kinds h4)"
    "obj_at h5 rd = Some FilterBlockReaderObj" "heap_ext h4 h5" using new_object_ok [of h4] 4 by auto
  obtain this h6 where 6: "new_object SSTableObj h5 = (this, h6)" by fastforce
  note 6 = 6 new_object_ok [OF 5(2) 6]
  have ext: "heap_ext h5 h6" "heap_ext h4 h6" "heap_ext h3 h6" "heap_ext h2 h6" "heap_ext h h6"
    using 1 2 3 4 5 6 heap_ext_trans by metis+
  show thesis
  proof (rule that)
    show "SSTable_Open_mem os f n w h = Inr (Some \<lparr>tm_table = t, tm_this = this, tm_rep = rep, tm_filter_block_reader = rd,
        tm_filter_data = d, tm_index_block = b\<rparr>, h6)"
      using o 1(1) 2(1) 3(1) 4(1) 5(1) 6(1) by (simp add: SSTable_Open_mem_def)
    show "kinds h6 = kinds h + {#CharArray, CharArray, BlockObj, RepObj, FilterBlockReaderObj, SSTableObj#}"
      using 1(3) 2(2) 3(3) 4(2) 5(3) 6(2) by (simp add: add_mset_commute)
  qed (use 2 3 4 5 6 ext in \<open>auto simp: table_owned_def intro: heap_extD\<close>)
qed

lemma SSTable_delete_ok:
  assumes "heap_ok h" "table_owned t h"
  obtains h' where "SSTable_delete t h = Inr h'" "heap_ok h'"
    "kinds h = kinds h' + {#CharArray, BlockObj, RepObj, FilterBlockReaderObj, SSTableObj#}"
proof -
  note own = assms(2) [unfolded table_owned_def]
  obtain h1 where 1: "delete_object (tm_filter_block_reader t) h = Inr h1" "heap_ok h1" "kinds h = add_mset FilterBlockReaderObj (kinds h1)"
    "obj_at h1 = (obj_at h)(tm_filter_block_reader t := None)" by (rule delete_object_ok [OF assms(1), of "tm_filter_block_reader t" FilterBlockReaderObj]) (use own in auto)
  obtain h2 where 2: "delete_object (tm_filter_data t) h1 = Inr h2" "heap_ok h2" "kinds h1 = add_mset CharArray (kinds h2)"
    "obj_at h2 = (obj_at h1)(tm_filter_data t := None)" by (rule delete_object_ok [OF 1(2), of "tm_filter_data t" CharArray]) (use own 1(4) in auto)
  obtain h3 where 3: "delete_object (tm_index_block t) h2 = Inr h3" "heap_ok h3" "kinds h2 = add_mset BlockObj (kinds h3)"
    "obj_at h3 = (obj_at h2)(tm_index_block t := None)"
    by (rule delete_object_ok [OF 2(2), of "tm_index_block t" BlockObj]) (use own 1(4) 2(4) in auto)
  obtain h4 where 4: "delete_object (tm_rep t) h3 = Inr h4" "heap_ok h4" "kinds h3 = add_mset RepObj (kinds h4)"
    "obj_at h4 = (obj_at h3)(tm_rep t := None)"
    by (rule delete_object_ok [OF 3(2), of "tm_rep t" RepObj]) (use own 1(4) 2(4) 3(4) in auto)
  obtain h5 where 5: "delete_object (tm_this t) h4 = Inr h5" "heap_ok h5" "kinds h4 = add_mset SSTableObj (kinds h5)"
    by (rule delete_object_ok [OF 4(2), of "tm_this t" SSTableObj]) (use own 1(4) 2(4) 3(4) 4(4) in auto)
  show thesis
  proof (rule that [OF _ 5(2)])
    show "SSTable_delete t h = Inr h5" using own 1(1) 2(1) 3(1) 4(1) 5(1) by (simp add: SSTable_delete_def SSTable_destroy_def)
    show "kinds h = kinds h5 + {#CharArray, BlockObj, RepObj, FilterBlockReaderObj, SSTableObj#}"
      using 1(3) 2(3) 3(3) 4(3) 5(3) by (simp add: add_mset_commute)
  qed
qed

section \<open>What an iterator owns\<close>

text \<open>An iterator of a table as the builder writes it, with the objects that it has.\<close>

definition iter_owned :: "SSTableIterator_mem \<Rightarrow> heap \<Rightarrow> bool" where
  "iter_owned im h \<longleftrightarrow>
     obj_at h (im_this im) = Some SSTableIteratorObj \<and> obj_at h (im_index_iter im) = Some BlockIteratorObj \<and>
     (\<exists>a. im_data_iter im = Some a \<and> obj_at h a = Some BlockIteratorObj)"

lemma NewIterator_mem_ok:
  assumes "heap_ok h" "table_owned t h"
  obtains im h' where "SSTable_NewIterator_mem t h = Inr (im, h')" "im_iter im = SSTable_NewIterator (tm_table t)" "im_data_iter im = None"
    "obj_at h' (im_this im) = Some SSTableIteratorObj" "obj_at h' (im_index_iter im) = Some BlockIteratorObj"
    "heap_ok h'" "heap_ext h h'" "kinds h' = kinds h + {#SSTableIteratorObj, BlockIteratorObj#}"
proof -
  obtain a h1 where 1: "new_object SSTableIteratorObj h = (a, h1)" by fastforce
  note 1 = 1 new_object_ok [OF assms(1) 1]
  obtain b h2 where 2: "new_object BlockIteratorObj h1 = (b, h2)" by fastforce
  then have 2: "new_object BlockIteratorObj h1 = (b, h2)" "heap_ok h2" "kinds h2 = add_mset BlockIteratorObj (kinds h1)"
    "obj_at h2 b = Some BlockIteratorObj" "heap_ext h1 h2" using new_object_ok [of h1] 1 by auto
  have "heap_ext h h2" using 1(2) 2(5) heap_ext_trans by blast
  then show thesis
    using 1 2 assms(2)
    by (intro that [of "\<lparr>im_iter = SSTable_NewIterator (tm_table t), im_this = a, im_index_iter = b, im_data_iter = None\<rparr>" h2])
       (auto simp: SSTable_NewIterator_mem_def table_owned_def add_mset_commute intro: heap_extD)
qed

lemma BlockReader_mem_ok:
  assumes "heap_ok h" "BlockReader os f v w = Inr (Some d)"
  obtains a h' where "BlockReader_mem os f v w h = Inr (Some (d, a), h')" "heap_ok h'" "obj_at h' a = Some BlockIteratorObj" "heap_ext h h'"
    "kinds h' = kinds h + {#CharArray, BlockObj, BlockIteratorObj#}"
proof -
  obtain s bh rest c where o: "BlockHandle_DecodeFrom v BlockHandle_make = Inr (s, bh, rest)" "Status_ok s" "ReadBlock os f bh w = Inr (Some c)"
    "d = BlockIterator_make (Block_make c)"
    using assms(2) by (auto simp: BlockReader_def split: if_splits option.splits)
  obtain x h1 where 1: "ReadBlock_mem os f bh w h = Inr (Some (c, x), h1)" "heap_ok h1" "kinds h1 = add_mset CharArray (kinds h)"
    "heap_ext h h1" by (rule ReadBlock_mem_ok [OF assms(1) o(3)])
  obtain b h2 where 2: "new_object BlockObj h1 = (b, h2)" by fastforce
  note 2 = 2 new_object_ok [OF 1(2) 2]
  obtain a h3 where 3: "new_object BlockIteratorObj h2 = (a, h3)" by fastforce
  then have 3: "new_object BlockIteratorObj h2 = (a, h3)" "heap_ok h3" "kinds h3 = add_mset BlockIteratorObj (kinds h2)"
    "obj_at h3 a = Some BlockIteratorObj" "heap_ext h2 h3" using new_object_ok [of h2] 2 by auto
  have "heap_ext h h3" using 1(4) 2(2) 3(5) heap_ext_trans by blast
  then show thesis
    using o 1 2 3 by (intro that [of a h3]) (auto simp: BlockReader_mem_def add_mset_commute)
qed

lemma UpdateDataIterator_mem_ok:
  assumes "heap_ok h" "obj_at h (im_index_iter im) = Some BlockIteratorObj" "im_data_iter im = None"
    "BlockIterator_Valid (si_index_iter (im_iter im))" "UpdateDataIterator os (im_iter im) w = Inr it"
  obtains a h' where "UpdateDataIterator_mem os im w h = Inr (im\<lparr>im_iter := it, im_data_iter := Some a\<rparr>, h')" "heap_ok h'"
    "obj_at h' a = Some BlockIteratorObj" "heap_ext h h'" "kinds h' = kinds h + {#CharArray, BlockObj, BlockIteratorObj#}"
proof -
  let ?v = "BlockIterator_Value (si_index_iter (im_iter im))"
  obtain d hd where o: "BlockReader os (si_file (im_iter im)) ?v w = Inr (Some d)" "read_mem (sl_mem ?v) (sl_size ?v) = Inr hd"
    "it = (im_iter im)\<lparr>si_data_iter := Some (BlockIterator_SeekToFirst d), si_data_block_handle := hd\<rparr>"
    using assms(4,5) by (auto simp: UpdateDataIterator_def Let_def assert_that_def split: if_splits)
  obtain a h' where r: "BlockReader_mem os (si_file (im_iter im)) ?v w h = Inr (Some (d, a), h')" "heap_ok h'"
    "obj_at h' a = Some BlockIteratorObj" "heap_ext h h'" "kinds h' = kinds h + {#CharArray, BlockObj, BlockIteratorObj#}"
    by (rule BlockReader_mem_ok [OF assms(1) o(1)])
  show thesis
    by (rule that [of a h']) (use assms(2-4) o r in \<open>simp_all add: UpdateDataIterator_mem_def Let_def delete_pointer_def\<close>)
qed

definition iterator_kinds :: "obj multiset" where
  "iterator_kinds = {#SSTableIteratorObj, BlockIteratorObj, CharArray, BlockObj, BlockIteratorObj#}"

lemma SeekToFirst_mem_table:
  assumes h: "heap_ok h" "table_owned t h" and t: "table_open (tm_table t) f es filt" "file_content os f (table_bytes es filt) w"
    "length (block_bytes es) < 2 ^ 32" "length (block_bytes [index_entry es]) < 2 ^ 32"
  obtains im0 h0 im h' where "SSTable_NewIterator_mem t h = Inr (im0, h0)" "SSTableIterator_SeekToFirst_mem os im0 w h0 = Inr (im, h')"
    "table_at os w filt [] es (im_iter im)" "iter_owned im h'" "heap_ok h'" "heap_ext h h'" "kinds h' = kinds h + iterator_kinds"
proof -
  obtain im0 h0 where n: "SSTable_NewIterator_mem t h = Inr (im0, h0)" "im_iter im0 = SSTable_NewIterator (tm_table t)" "im_data_iter im0 = None"
    "obj_at h0 (im_this im0) = Some SSTableIteratorObj" "obj_at h0 (im_index_iter im0) = Some BlockIteratorObj"
    "heap_ok h0" "heap_ext h h0" "kinds h0 = kinds h + {#SSTableIteratorObj, BlockIteratorObj#}"
    by (rule NewIterator_mem_ok [OF h])
  obtain it where it: "SSTableIterator_SeekToFirst os (im_iter im0) w = Inr it" "table_at os w filt [] es it"
    using table_SeekToFirst [OF t] n(2) by auto
  then obtain i where i: "BlockIterator_Next (BlockIterator_SeekToFirst (si_index_iter (im_iter im0))) = Inr i"
    "UpdateDataIterator os ((im_iter im0)\<lparr>si_index_iter := i\<rparr>) w = Inr it"
    by (auto simp: SSTableIterator_SeekToFirst_def)
  let ?im = "im0\<lparr>im_iter := (im_iter im0)\<lparr>si_index_iter := i\<rparr>\<rparr>"
  have v: "BlockIterator_Valid (si_index_iter (im_iter ?im))"
  proof (rule ccontr)
    assume "\<not> BlockIterator_Valid (si_index_iter (im_iter ?im))"
    then have "si_data_iter it = None" using i(2) by (auto simp: UpdateDataIterator_def)
    then show False using it(2) by (simp add: table_at_def)
  qed
  have u: "obj_at h0 (im_index_iter ?im) = Some BlockIteratorObj" "im_data_iter ?im = None" "UpdateDataIterator os (im_iter ?im) w = Inr it"
    using n i by simp_all
  obtain a h' where a: "UpdateDataIterator_mem os ?im w h0 = Inr (?im\<lparr>im_iter := it, im_data_iter := Some a\<rparr>, h')" "heap_ok h'"
    "obj_at h' a = Some BlockIteratorObj" "heap_ext h0 h'" "kinds h' = kinds h0 + {#CharArray, BlockObj, BlockIteratorObj#}"
    by (rule UpdateDataIterator_mem_ok [OF n(6) u(1,2) v u(3)])
  have "iter_owned (?im\<lparr>im_iter := it, im_data_iter := Some a\<rparr>) h'"
    using n(4,5) a(3,4) by (auto simp: iter_owned_def intro: heap_extD)
  moreover have "heap_ext h h'" using n(7) a(4) by (rule heap_ext_trans)
  ultimately show thesis
    using n(1,5,8) i(1) a it(2)
    by (intro that [of im0 h0 "?im\<lparr>im_iter := it, im_data_iter := Some a\<rparr>" h'])
       (simp_all add: SSTableIterator_SeekToFirst_mem_def iterator_kinds_def add_mset_commute)
qed

lemma SSTableIterator_delete_ok:
  assumes "heap_ok h" "iter_owned im h"
  obtains h' where "SSTableIterator_delete im h = Inr h'" "heap_ok h'" "kinds h = kinds h' + {#SSTableIteratorObj, BlockIteratorObj#}"
    "obj_at h' (im_this im) = None" "table_owned t h \<Longrightarrow> table_owned t h'"
proof -
  obtain a where own: "obj_at h (im_this im) = Some SSTableIteratorObj" "im_data_iter im = Some a" "obj_at h a = Some BlockIteratorObj"
    using assms(2) by (auto simp: iter_owned_def)
  obtain h1 where 1: "delete_object a h = Inr h1" "heap_ok h1" "kinds h = add_mset BlockIteratorObj (kinds h1)"
    "obj_at h1 = (obj_at h)(a := None)" by (rule delete_object_ok [OF assms(1) own(3)])
  obtain h2 where 2: "delete_object (im_this im) h1 = Inr h2" "heap_ok h2" "kinds h1 = add_mset SSTableIteratorObj (kinds h2)"
    "obj_at h2 = (obj_at h1)(im_this im := None)"
    by (rule delete_object_ok [OF 1(2), of "im_this im" SSTableIteratorObj]) (use own 1(4) in auto)
  show thesis
  proof (rule that [OF _ 2(2)])
    show "SSTableIterator_delete im h = Inr h2"
      using own(2) 1(1) 2(1) by (simp add: SSTableIterator_delete_def SSTableIterator_destroy_def delete_pointer_def)
    show "kinds h = kinds h2 + {#SSTableIteratorObj, BlockIteratorObj#}" using 1(3) 2(3) by (simp add: add_mset_commute)
    show "obj_at h2 (im_this im) = None" by (simp add: 2(4))
    show "table_owned t h \<Longrightarrow> table_owned t h2" using own by (auto simp: table_owned_def 1(4) 2(4))
  qed
qed

text \<open>Seeking and stepping in such a table stay in its only block, and leave the heap alone.\<close>

lemma Seek_mem_table:
  assumes "iter_owned im h" "table_at os w filt pre post (im_iter im)" "valid_bkey key" "ikeys_ok (pre @ post)" "pre @ post \<noteq> []"
    "SSTableIterator_Seek os icmp key (im_iter im) w = Inr (hit, it)"
  shows "SSTableIterator_Seek_mem os icmp key im w h = Inr (hit, im\<lparr>im_iter := it\<rparr>, h)"
proof -
  let ?es = "pre @ post"
  obtain d where d: "si_data_iter (im_iter im) = Some d" and i: "index_at ?es (si_index_iter (im_iter im))"
    and hd: "si_data_block_handle (im_iter im) = handle_bytes (data_handle ?es)"
    using assms(2) by (auto simp: table_at_def Let_def)
  have "valid_bkey (Slice_string (fst (last ?es)))" using assms(4) last_in_set [OF assms(5)] by (auto simp only: ikeys_ok_def)
  then obtain b i' where i': "BlockIterator_Seek icmp key (si_index_iter (im_iter im)) = Inr (b, i')" "index_at ?es i'"
    using index_at_Seek [OF i assms(3)] by blast
  have rd: "read_mem (sl_mem (BlockIterator_Value i')) (sl_size (BlockIterator_Value i')) = Inr (handle_bytes (data_handle ?es))"
    using i'(2) by (simp add: index_at_def read_mem_ok)
  obtain a where a: "im_data_iter im = Some a" "obj_at h a = Some BlockIteratorObj" "obj_at h (im_index_iter im) = Some BlockIteratorObj"
    using assms(1) by (auto simp: iter_owned_def)
  then show ?thesis
    using assms(6) d hd i'(1) rd by (auto simp: SSTableIterator_Seek_mem_def SSTableIterator_Seek_def Let_def)
qed

lemma Next_mem_table:
  assumes "iter_owned im h" "table_at os w filt pre post (im_iter im)" "SSTableIterator_Next os (im_iter im) w = Inr it"
  shows "SSTableIterator_Next_mem os im w h = Inr (im\<lparr>im_iter := it\<rparr>, h)"
proof -
  obtain d where d: "si_data_iter (im_iter im) = Some d" and i: "index_at (pre @ post) (si_index_iter (im_iter im))"
    using assms(2) by (auto simp: table_at_def Let_def)
  obtain i' where i': "BlockIterator_Next (si_index_iter (im_iter im)) = Inr i'" "\<not> BlockIterator_Valid i'"
    using index_at_end [OF i] by blast
  obtain a where a: "im_data_iter im = Some a" "obj_at h a = Some BlockIteratorObj" using assms(1) by (auto simp: iter_owned_def)
  then show ?thesis
    using assms(3) d i'
    by (auto simp: SSTableIterator_Next_mem_def SSTableIterator_Next_def Next_loop_mem.simps [of _ os im]
        SSTableIterator_Next_loop.simps [of _ os "im_iter im"] Let_def split: if_splits)
qed

section \<open>Lookups and iterations\<close>

definition filter_passes :: "bytes \<Rightarrow> slice \<Rightarrow> bool" where
  "filter_passes filt key \<longleftrightarrow>
     BloomFilter_KeyMayMatch key \<lparr>sl_mem = filt, sl_size = length (takeWhile (\<lambda>b. b \<noteq> 0) filt)\<rparr> = Inr True"

text \<open>A table file with one block, as the builder writes it, that has been opened.\<close>

definition open_table :: "'w posix \<Rightarrow> RandomAccessFile \<Rightarrow> 'w \<Rightarrow> kv list \<Rightarrow> bytes \<Rightarrow> SSTable_mem \<Rightarrow> heap \<Rightarrow> bool" where
  "open_table os f w es filt t h \<longleftrightarrow>
     heap_ok h \<and> table_owned t h \<and> table_open (tm_table t) f es filt \<and> file_content os f (table_bytes es filt) w \<and>
     length (block_bytes es) < 2 ^ 32 \<and> length (block_bytes [index_entry es]) < 2 ^ 32 \<and> 0 \<in> set filt \<and> length filt < 2 ^ 64"

lemma InternalGet_mem_table:
  assumes t: "open_table os f w es filt t h" and es: "es \<noteq> []" "ikeys_ok es" and key: "valid_bkey key"
  defines "stored \<equiv> \<exists>e\<in>set es. ikey_rank (Slice_string (fst e)) = ikey_rank key"
  shows "if filter_passes filt key \<and> stored then SSTable_InternalGet_mem os icmp key t w h = Inl UseAfterFree
    else \<exists>h'. SSTable_InternalGet_mem os icmp key t w h = Inr (None, h') \<and> open_table os f w es filt t h' \<and>
      kinds h' = kinds h + (if filter_passes filt key then iterator_kinds else {#})"
proof -
  let ?c = "\<lparr>sl_mem = filt, sl_size = length (takeWhile (\<lambda>b. b \<noteq> 0) filt)\<rparr>"
  have own: "obj_at h (tm_rep t) = Some RepObj" "obj_at h (tm_filter_data t) = Some CharArray" using t by (simp_all add: open_table_def table_owned_def)
  have c: "Slice_cstr (ss_filter_data (tm_table t)) = Inr ?c" "slice_ok ?c"
    using t length_takeWhile_le [of "\<lambda>b. b \<noteq> 0" filt] by (auto simp: open_table_def table_open_def Slice_cstr_def strlen_def slice_ok_def)
  obtain may where may: "BloomFilter_KeyMayMatch key ?c = Inr may" using KeyMayMatch_total [OF _ c(2)] key by (auto simp: valid_bkey_def)
  then have p: "filter_passes filt key = may" by (simp add: filter_passes_def)
  show ?thesis
  proof (cases may)
    case False
    then show ?thesis using own c(1) may t p by (simp add: SSTable_InternalGet_mem_def)
  next
    case True
    obtain im0 h0 im h' where i: "SSTable_NewIterator_mem t h = Inr (im0, h0)" "SSTableIterator_SeekToFirst_mem os im0 w h0 = Inr (im, h')"
      "table_at os w filt [] es (im_iter im)" "iter_owned im h'" "heap_ok h'" "heap_ext h h'" "kinds h' = kinds h + iterator_kinds"
      using SeekToFirst_mem_table [of h t f es filt os w] t unfolding open_table_def by metis
    obtain hit it v where k: "SSTableIterator_Seek os icmp key (im_iter im) w = Inr (hit, it)" "SSTableIterator_Valid it = Inr v" "v \<and> hit \<longleftrightarrow> stored"
      unfolding stored_def by (rule table_lookup [OF i(3) es key])
    have seek: "SSTableIterator_Seek_mem os icmp key im w h' = Inr (hit, im\<lparr>im_iter := it\<rparr>, h')"
      by (rule Seek_mem_table [OF i(4,3) key _ _ k(1)]) (use es in simp_all)
    have own': "iter_owned (im\<lparr>im_iter := it\<rparr>) h'" using i(4) by (simp add: iter_owned_def)
    obtain h2 where d: "SSTableIterator_delete (im\<lparr>im_iter := it\<rparr>) h' = Inr h2" "obj_at h2 (im_this (im\<lparr>im_iter := it\<rparr>)) = None"
      by (rule SSTableIterator_delete_ok [OF i(5) own'])
    have t': "open_table os f w es filt t h'" using t i(5,6) table_owned_ext by (auto simp: open_table_def)
    have "SSTable_InternalGet_mem os icmp key t w h = (if stored then Inl UseAfterFree else Inr (None, h'))"
      using own c(1) may True i(1,2) seek k(2,3) d by (auto simp: SSTable_InternalGet_mem_def check_live_def obj_at_def)
    then show ?thesis using p True t' i(7) by simp
  qed
qed

fun InternalGets_mem ::
  "'w posix \<Rightarrow> (slice \<Rightarrow> slice \<Rightarrow> int res) \<Rightarrow> slice list \<Rightarrow> SSTable_mem \<Rightarrow> 'w \<Rightarrow> heap \<Rightarrow> heap res" where
  "InternalGets_mem os cmp [] t w h = Inr h"
| "InternalGets_mem os cmp (key # keys) t w h = rbind (SSTable_InternalGet_mem os cmp key t w h) (\<lambda>(v, h). InternalGets_mem os cmp keys t w h)"

lemma InternalGets_mem_table:
  "open_table os f w es filt t h \<Longrightarrow> es \<noteq> [] \<Longrightarrow> ikeys_ok es \<Longrightarrow>
     \<forall>key\<in>set keys. valid_bkey key \<and> \<not> (filter_passes filt key \<and> (\<exists>e\<in>set es. ikey_rank (Slice_string (fst e)) = ikey_rank key)) \<Longrightarrow>
     \<exists>h'. InternalGets_mem os icmp keys t w h = Inr h' \<and> open_table os f w es filt t h' \<and>
       kinds h' = kinds h + repeat_mset (length (filter (filter_passes filt) keys)) iterator_kinds"
proof (induction keys arbitrary: h)
  case (Cons key keys)
  obtain h1 where 1: "SSTable_InternalGet_mem os icmp key t w h = Inr (None, h1)" "open_table os f w es filt t h1"
    "kinds h1 = kinds h + (if filter_passes filt key then iterator_kinds else {#})"
    using InternalGet_mem_table [OF Cons.prems(1-3), of key] Cons.prems(4) by (auto split: if_splits)
  then show ?case using Cons.IH [OF 1(2) Cons.prems(2,3)] Cons.prems(4) by (auto simp: ac_simps)
qed simp

fun Next_times_mem :: "'w posix \<Rightarrow> 'w \<Rightarrow> nat \<Rightarrow> SSTableIterator_mem \<Rightarrow> heap \<Rightarrow> (SSTableIterator_mem \<times> heap) res" where
  "Next_times_mem os w 0 im h = Inr (im, h)"
| "Next_times_mem os w (Suc n) im h = rbind (SSTableIterator_Next_mem os im w h) (\<lambda>(im, h). Next_times_mem os w n im h)"

lemma Next_times_mem_table:
  "iter_owned im h \<Longrightarrow> table_at os w filt pre post (im_iter im) \<Longrightarrow> \<exists>im'. Next_times_mem os w n im h = Inr (im', h) \<and> iter_owned im' h"
proof (induction n arbitrary: im pre post)
  case (Suc n)
  obtain it pre' post' where n: "SSTableIterator_Next os (im_iter im) w = Inr it" "table_at os w filt pre' post' it"
  proof (cases post)
    case Nil
    then show thesis using table_Next_end [of os w filt pre "im_iter im"] Suc.prems(2) that by blast
  next
    case (Cons e es)
    then show thesis using table_Next_entry [of os w filt pre e es "im_iter im"] Suc.prems(2) that by blast
  qed
  have "iter_owned (im\<lparr>im_iter := it\<rparr>) h" using Suc.prems(1) by (simp add: iter_owned_def)
  then show ?case using Suc.IH [of "im\<lparr>im_iter := it\<rparr>" pre' post'] n Next_mem_table [OF Suc.prems n(1)] by simp
qed simp

text \<open>Deleting a table that was opened leaves the array of its index block.\<close>

lemma open_delete_leak:
  assumes "kinds h1 = kinds h + {#CharArray, CharArray, BlockObj, RepObj, FilterBlockReaderObj, SSTableObj#}" "heap_ok h2" "table_owned t h2"
    "kinds h2 = kinds h1 + leak"
  obtains h3 where "SSTable_delete t h2 = Inr h3" "kinds h3 = kinds h + {#CharArray#} + leak"
proof -
  let ?own = "{#CharArray, BlockObj, RepObj, FilterBlockReaderObj, SSTableObj#}"
  obtain h3 where d: "SSTable_delete t h2 = Inr h3" "kinds h2 = kinds h3 + ?own" by (rule SSTable_delete_ok [OF assms(2,3)])
  have "kinds h3 + ?own = (kinds h + {#CharArray#} + leak) + ?own" using d(2) assms(1,4) by simp
  then have "kinds h3 = kinds h + {#CharArray#} + leak" by (rule add_right_imp_eq)
  with d(1) show thesis by (rule that)
qed

lemma iteration_leak:
  assumes t: "open_table os f w es filt t h"
  obtains im0 h1 im h2 im' h3 where "SSTable_NewIterator_mem t h = Inr (im0, h1)" "SSTableIterator_SeekToFirst_mem os im0 w h1 = Inr (im, h2)"
    "Next_times_mem os w n im h2 = Inr (im', h2)" "SSTableIterator_delete im' h2 = Inr h3" "heap_ok h3" "table_owned t h3"
    "kinds h3 = kinds h + {#BlockIteratorObj, CharArray, BlockObj#}"
proof -
  obtain im0 h1 im h2 where i: "SSTable_NewIterator_mem t h = Inr (im0, h1)" "SSTableIterator_SeekToFirst_mem os im0 w h1 = Inr (im, h2)"
    "table_at os w filt [] es (im_iter im)" "iter_owned im h2" "heap_ok h2" "heap_ext h h2" "kinds h2 = kinds h + iterator_kinds"
    using SeekToFirst_mem_table [of h t f es filt os w] t unfolding open_table_def by metis
  obtain im' where m: "Next_times_mem os w n im h2 = Inr (im', h2)" "iter_owned im' h2" using Next_times_mem_table [OF i(4,3)] by blast
  have "table_owned t h2" using t i(6) table_owned_ext by (auto simp: open_table_def)
  then obtain h3 where d: "SSTableIterator_delete im' h2 = Inr h3" "heap_ok h3" "kinds h2 = kinds h3 + {#SSTableIteratorObj, BlockIteratorObj#}"
    "table_owned t h3" using SSTableIterator_delete_ok [OF i(5) m(2)] by metis
  have "kinds h3 + {#SSTableIteratorObj, BlockIteratorObj#} =
      (kinds h + {#BlockIteratorObj, CharArray, BlockObj#}) + {#SSTableIteratorObj, BlockIteratorObj#}"
    using d(3) i(7) by (simp add: iterator_kinds_def add_mset_commute)
  then have "kinds h3 = kinds h + {#BlockIteratorObj, CharArray, BlockObj#}" by (rule add_right_imp_eq)
  then show thesis using i(1,2) m(1) d(1,2,4) that by blast
qed

lemma builder_balanced:
  assumes "heap_ok h"
  shows "\<exists>h1. (case TableBuilder_make_mem h of (rep, h0) \<Rightarrow> TableBuilder_destroy rep h0) = Inr h1 \<and> kinds h1 = kinds h"
proof -
  obtain rep h0 where n: "new_object BuilderRepObj h = (rep, h0)" by fastforce
  note ok = new_object_ok [OF assms n]
  obtain h1 where "delete_object rep h0 = Inr h1" "kinds h0 = add_mset BuilderRepObj (kinds h1)"
    by (rule delete_object_ok [of h0 rep BuilderRepObj]) (use ok in auto)
  then show ?thesis using n ok by (simp add: TableBuilder_make_mem_def TableBuilder_destroy_def)
qed

section \<open>Properties\<close>

text \<open>C18: what lookups and iterations over a table leave in memory. No object is deleted twice or used after it was
  deleted, as long as no lookup finds its key; but a table that is opened and deleted leaves the bytes of its index
  block behind, every lookup that passes the filter leaves its iterator with two block iterators, a block and the
  block's bytes, and an iterator that is deleted leaves its index iterator, a block and the block's bytes. The
  destructor of the table builder leaves nothing.\<close>

theorem table_memory:
  assumes "file_content os f (table_bytes es (filter_block [x])) w" "filter_rep the_bloom (map fst es) x" "es \<noteq> []"
    "length (block_bytes es) < 2 ^ 29" "ikeys_ok es" "heap_ok h"
    "\<forall>key\<in>set keys. valid_bkey key \<and>
       \<not> (filter_passes (filter_block [x]) key \<and> (\<exists>e\<in>set es. ikey_rank (Slice_string (fst e)) = ikey_rank key))"
  shows "(\<exists>t h1 h2 h3. SSTable_Open_mem os f (table_size es (filter_block [x])) w h = Inr (Some t, h1) \<and>
      InternalGets_mem os icmp keys t w h1 = Inr h2 \<and> SSTable_delete t h2 = Inr h3 \<and>
      kinds h3 = kinds h + {#CharArray#} +
        repeat_mset (length (filter (filter_passes (filter_block [x])) keys))
          {#SSTableIteratorObj, BlockIteratorObj, CharArray, BlockObj, BlockIteratorObj#}) \<and>
    (\<exists>t h1 im0 h2 im h3 im' h4 h5. SSTable_Open_mem os f (table_size es (filter_block [x])) w h = Inr (Some t, h1) \<and>
      SSTable_NewIterator_mem t h1 = Inr (im0, h2) \<and> SSTableIterator_SeekToFirst_mem os im0 w h2 = Inr (im, h3) \<and>
      Next_times_mem os w n im h3 = Inr (im', h3) \<and> SSTableIterator_delete im' h3 = Inr h4 \<and> SSTable_delete t h4 = Inr h5 \<and>
      kinds h5 = kinds h + {#CharArray#} + {#BlockIteratorObj, CharArray, BlockObj#}) \<and>
    (\<exists>h1. (case TableBuilder_make_mem h of (rep, h0) \<Rightarrow> TableBuilder_destroy rep h0) = Inr h1 \<and> kinds h1 = kinds h)"
proof -
  obtain t where t: "SSTable_Open os f (table_size es (filter_block [x])) w = Inr (Some t)"
    "table_open t f es (filter_block [x])" "length (block_bytes [index_entry es]) < 2 ^ 32"
    by (rule Open_built_table [OF assms(1-4)])
  obtain tm h1 where o: "SSTable_Open_mem os f (table_size es (filter_block [x])) w h = Inr (Some tm, h1)" "tm_table tm = t" "table_owned tm h1"
    "heap_ok h1" "kinds h1 = kinds h + {#CharArray, CharArray, BlockObj, RepObj, FilterBlockReaderObj, SSTableObj#}"
    by (rule SSTable_Open_mem_ok [OF assms(6) t(1)])
  have "length (filter_block [x]) < 2 ^ 64" using filter_block_le [OF assms(2)] assms(4) by simp
  then have ot: "open_table os f w es (filter_block [x]) tm h1"
    using o t assms(1,4) filter_block_zero by (simp add: open_table_def)
  obtain h2 where g: "InternalGets_mem os icmp keys tm w h1 = Inr h2" "open_table os f w es (filter_block [x]) tm h2"
    "kinds h2 = kinds h1 + repeat_mset (length (filter (filter_passes (filter_block [x])) keys)) iterator_kinds"
    using InternalGets_mem_table [OF ot assms(3,5,7)] by blast
  have "heap_ok h2" "table_owned tm h2" using g(2) by (simp_all add: open_table_def)
  then obtain h3 where d: "SSTable_delete tm h2 = Inr h3"
    "kinds h3 = kinds h + {#CharArray#} + repeat_mset (length (filter (filter_passes (filter_block [x])) keys)) iterator_kinds"
    using open_delete_leak [OF o(5) _ _ g(3)] by blast
  obtain im0 i1 im i2 im' i3 where i: "SSTable_NewIterator_mem tm h1 = Inr (im0, i1)" "SSTableIterator_SeekToFirst_mem os im0 w i1 = Inr (im, i2)"
    "Next_times_mem os w n im i2 = Inr (im', i2)" "SSTableIterator_delete im' i2 = Inr i3" "heap_ok i3" "table_owned tm i3"
    "kinds i3 = kinds h1 + {#BlockIteratorObj, CharArray, BlockObj#}" by (rule iteration_leak [OF ot])
  obtain i4 where "SSTable_delete tm i3 = Inr i4" "kinds i4 = kinds h + {#CharArray#} + {#BlockIteratorObj, CharArray, BlockObj#}"
    by (rule open_delete_leak [OF o(5) i(5-7)])
  then show ?thesis using o(1) g(1) d i(1-4) builder_balanced [OF assms(6)] unfolding iterator_kinds_def by blast
qed

theorem table_memory_witness:
  "\<exists>x t h1 h2 h3. filter_rep the_bloom (map fst small_table) x \<and>
    (let w = table_bytes small_table (filter_block [x]); key = Slice_string (internal_bytes [98] 257) in
     SSTable_Open_mem slow_os open_file (table_size small_table (filter_block [x])) w \<lparr>hp_live = [], hp_fresh = 0\<rparr> = Inr (Some t, h1) \<and>
     InternalGets_mem slow_os icmp [key] t w h1 = Inr h2 \<and> SSTable_delete t h2 = Inr h3 \<and>
     size (kinds h3) = (if filter_passes (filter_block [x]) key then 6 else 1))"
proof -
  obtain x where x: "filter_rep the_bloom (map fst small_table) x" using small_filter by blast
  let ?key = "Slice_string (internal_bytes [98] 257)" and ?h = "\<lparr>hp_live = [], hp_fresh = 0\<rparr>"
  have h: "heap_ok ?h" "kinds ?h = {#}" by (simp_all add: heap_ok_def kinds_def)
  have "\<forall>key\<in>set [?key]. valid_bkey key \<and>
      \<not> (filter_passes (filter_block [x]) key \<and> (\<exists>e\<in>set small_table. ikey_rank (Slice_string (fst e)) = ikey_rank key))"
    by (simp add: small_table_def internal_bytes_key)
  from table_memory [OF small_table_ok(4) x small_table_ok(1,2,3) h(1) this, of 1] obtain t h1 h2 h3 where
    o: "SSTable_Open_mem slow_os open_file (table_size small_table (filter_block [x])) (table_bytes small_table (filter_block [x])) ?h = Inr (Some t, h1)"
      "InternalGets_mem slow_os icmp [?key] t (table_bytes small_table (filter_block [x])) h1 = Inr h2" "SSTable_delete t h2 = Inr h3"
    and k: "kinds h3 = {#} + {#CharArray#} + repeat_mset (length (filter (filter_passes (filter_block [x])) [?key]))
      {#SSTableIteratorObj, BlockIteratorObj, CharArray, BlockObj, BlockIteratorObj#}"
    unfolding h(2) by blast
  have "size (kinds h3) = (if filter_passes (filter_block [x]) ?key then 6 else 1)" unfolding k by simp
  then show ?thesis using x o unfolding Let_def by blast
qed

end
