(* ===== verification/DBDisk.thy ===== *)
theory DBDisk
  imports DBImpls
begin

text \<open>
  What the database of \<^verbatim>\<open>db_impl.cc\<close> keeps on disk: the table files that a compaction writes and a lookup
  searches, and the manifest that the destructor writes and the constructor reads.
\<close>

section \<open>Table files\<close>

text \<open>
  The metadata belongs to a table file that \<^verbatim>\<open>BuildTable\<close> has written for the entries \<open>es\<close>, whose sequence
  numbers are below the one that lookups use.
\<close>

definition table_file :: "'w posix \<Rightarrow> 'w \<Rightarrow> entry list \<Rightarrow> FileMeta \<Rightarrow> bool" where
  "table_file os w es meta \<longleftrightarrow>
     es \<noteq> [] \<and> (\<forall>e\<in>set es. entry_fits e \<and> ik_seq (entry_rank e) < max_seq) \<and> ikeys_ok (map entry_kv es) \<and>
     length (block_bytes (map entry_kv es)) < 2 ^ 29 \<and>
     ik_rep (fm_smallest_key meta) = fst (entry_kv (hd es)) \<and> ik_rep (fm_largest_key meta) = fst (entry_kv (last es)) \<and>
     (\<exists>x. filter_rep the_bloom (map fst (map entry_kv es)) x \<and>
       unat (fm_file_size meta) = table_size (map entry_kv es) (filter_block [x]) \<and>
       file_content os (RandomAccessFile_make os (sstable_name (fm_number meta)) w)
         (table_bytes (map entry_kv es) (filter_block [x])) w)"

text \<open>The internal key of a lookup has a sequence number that no entry has.\<close>

abbreviation seek_key :: "bytes \<Rightarrow> slice" where
  "seek_key uk \<equiv> Slice_buf (internal_bytes uk (make_tag (- 1) kTypeSeek)) (length uk + 8)"

lemma seek_key_rank:
  assumes "length uk + 8 < 2 ^ 64"
  shows "valid_bkey (seek_key uk)" "ikey_rank (seek_key uk) = IKey uk max_seq"
proof -
  have "drop_bit 8 (make_tag (- 1) kTypeSeek) = max_seq"
    unfolding make_tag_seq max_seq_def by (rule bit_word_eqI) (auto simp: bit_simps)
  then have "internal_ikey (seek_key uk) = Inr (IKey uk max_seq)"
    using internal_ikey_bytes [of "seek_key uk" uk "make_tag (- 1) kTypeSeek" "[]"] assms by (simp add: Slice_buf_def)
  then show "valid_bkey (seek_key uk)" "ikey_rank (seek_key uk) = IKey uk max_seq"
    using assms by (simp_all add: valid_bkey_def valid_ikey_def ikey_rank_def slice_ok_def Slice_buf_def)
qed

lemma entry_kv_key:
  assumes "entry_fits e"
  shows "valid_bkey (Slice_string (fst (entry_kv e)))" "ikey_rank (Slice_string (fst (entry_kv e))) = entry_rank e"
  using assms by (cases e; simp add: internal_bytes_key mkey_fits_def)+

lemma Get_files_none:
  assumes uk: "length uk + 8 < 2 ^ 64"
  shows "\<forall>meta\<in>set metas. \<exists>es. table_file os w es meta \<Longrightarrow> Get_files os (seek_key uk) metas w = Inr None"
proof (induction metas)
  case (Cons meta metas)
  then obtain es where t: "table_file os w es meta" by auto
  then obtain x where x: "filter_rep the_bloom (map fst (map entry_kv es)) x"
    "unat (fm_file_size meta) = table_size (map entry_kv es) (filter_block [x])"
    "file_content os (RandomAccessFile_make os (sstable_name (fm_number meta)) w) (table_bytes (map entry_kv es) (filter_block [x])) w"
    and es: "es \<noteq> []" "\<forall>e\<in>set es. entry_fits e \<and> ik_seq (entry_rank e) < max_seq" "ikeys_ok (map entry_kv es)"
      "length (block_bytes (map entry_kv es)) < 2 ^ 29"
    and keys: "ik_rep (fm_smallest_key meta) = fst (entry_kv (hd es))" "ik_rep (fm_largest_key meta) = fst (entry_kv (last es))"
    by (auto simp: table_file_def)
  note key = seek_key_rank [OF uk]
  let ?f = "RandomAccessFile_make os (sstable_name (fm_number meta)) w"
  let ?c = "\<lparr>sl_mem = filter_block [x], sl_size = length (takeWhile (\<lambda>b. b \<noteq> 0) (filter_block [x]))\<rparr>"
  have "slice_ok ?c"
    using filter_block_le [OF x(1)] es(4) length_takeWhile_le [of "\<lambda>b. b \<noteq> 0" "filter_block [x]"] by (simp add: slice_ok_def)
  then obtain may where "BloomFilter_KeyMayMatch (seek_key uk) ?c = Inr may"
    using KeyMayMatch_total key(1) by (auto simp: valid_bkey_def)
  moreover have "\<not> (\<exists>e\<in>set (map entry_kv es). ikey_rank (Slice_string (fst e)) = ikey_rank (seek_key uk))"
    using es(2) key(2) entry_kv_key(2) by force
  ultimately obtain t where t: "SSTable_Open os ?f (unat (fm_file_size meta)) w = Inr (Some t)"
    "SSTable_InternalGet os icmp (seek_key uk) t w = Inr None"
    using InternalGet_table [OF x(3,1) _ es(4,3) key(1)] es(1) x(2) by auto
  have fits: "entry_fits (hd es)" "entry_fits (last es)" using es(1,2) by auto
  have cmp: "icmp (InternalKey_ToSlice (fm_smallest_key meta)) (seek_key uk) = Inr (order_cmp (entry_rank (hd es)) (IKey uk max_seq))"
    "icmp (InternalKey_ToSlice (fm_largest_key meta)) (seek_key uk) = Inr (order_cmp (entry_rank (last es)) (IKey uk max_seq))"
    using keys entry_kv_key [OF fits(1)] entry_kv_key [OF fits(2)] key
    by (simp_all add: InternalKey_ToSlice_def internal_block.cmp_rank)
  have "rf_fd ?f \<noteq> -1" using x(3) by (simp add: file_content_def)
  then show ?case using t cmp Cons by (auto simp: Let_def)
qed simp

section \<open>Compaction of a memtable\<close>

text \<open>The conditions under which the memtable is written as one table of one data block.\<close>

definition dumpable :: "entry list \<Rightarrow> bool" where
  "dumpable es \<longleftrightarrow>
     es \<noteq> [] \<and> length (block_bytes (map entry_kv es)) < kBlockSize \<and>
     (\<forall>e\<in>set es. 8 \<le> length (cut_at_zero (fst (entry_kv e))) \<and> 0 \<in> set (fst (entry_kv e)))"

text \<open>
  What the database relies on of the system when it writes the file \<open>name\<close>: the file can be created, with
  the descriptor \<open>fd\<close>, all writes succeed, and the file opened for reading holds what was written.
\<close>

definition disk_ok :: "'w posix \<Rightarrow> ('w \<Rightarrow> int \<Rightarrow> bytes) \<Rightarrow> bytes \<Rightarrow> int \<Rightarrow> 'w \<Rightarrow> bool" where
  "disk_ok os written name fd w \<longleftrightarrow>
     (\<exists>w1. sys_open_write os name w = (fd, w1) \<and> written w1 fd = []) \<and> fd \<noteq> -1 \<and> reliable os written name \<and>
     (\<forall>w'. file_content os (RandomAccessFile_make os name w') (written w' fd) w')"

lemma CompactMemtable_table:
  assumes db: "db_immutable_memtable db = Some imm" and m: "memtable_rep imm es" "entries_upto es q" "q < max_seq"
    and d: "dumpable es" and os: "disk_ok os written (sstable_name (db_sstable_number db)) fd w"
    and buf: "length buf = kWritableFileBuffer"
  shows "\<exists>meta w'. CompactMemtable os buf db w =
      Inr (Status_OK, db\<lparr>db_file_metas := db_file_metas db @ [meta], db_sstable_number := db_sstable_number db + 1\<rparr>, w') \<and>
    table_file os w' es meta \<and> fm_number meta = db_sstable_number db"
proof -
  let ?n = "sstable_name (db_sstable_number db)" and ?kvs = "map entry_kv es"
  have dist: "distinct (map entry_rank es)" and fits: "\<forall>e\<in>set es. entry_fits e"
    using m by (simp_all add: memtable_rep_def entries_upto_def)
  have es: "es \<noteq> []" "length (block_bytes ?kvs) < kBlockSize" using d by (simp_all add: dumpable_def)
  have cut: "cut_checks ?kvs"
    using d fits by (intro cut_checks_long [OF memtable_rep_sorted [OF m(1)]]) (auto simp: dumpable_def)
  obtain w1 where op: "sys_open_write os ?n w = (fd, w1)" "written w1 fd = []" and io: "fd \<noteq> -1" "reliable os written ?n"
    and rd: "\<And>w'. file_content os (RandomAccessFile_make os ?n w') (written w' fd) w'"
    using os by (auto simp: disk_ok_def)
  obtain it x w' where b: "MemtableIterator_make imm = Inr it" "filter_rep the_bloom (map fst ?kvs) x"
    "BuildTable os buf ?n FileMeta_make imm it w = Inr (Status_OK, table_meta es (filter_block [x]) FileMeta_make, w')"
    "written w' fd = table_bytes ?kvs (filter_block [x])"
    by (rule BuildTable_small [OF m(1) dist es(1) cut es(2) op(1) io(1) op(2) io(2) buf])
  let ?m = "(table_meta es (filter_block [x]) FileMeta_make)\<lparr>fm_number := db_sstable_number db\<rparr>"
  have run: "CompactMemtable os buf db w =
      Inr (Status_OK, db\<lparr>db_file_metas := db_file_metas db @ [?m], db_sstable_number := db_sstable_number db + 1\<rparr>, w')"
    using db b(1,3) by (simp add: CompactMemtable_def Let_def)
  have "file_content os (RandomAccessFile_make os ?n w') (table_bytes ?kvs (filter_block [x])) w'"
    using rd [of w'] b(4) by simp
  moreover have "\<forall>e\<in>set es. ik_seq (entry_rank e) < max_seq" using m(2,3) by (auto simp: entries_upto_def intro: le_less_trans)
  ultimately have "table_file os w' es ?m"
    using es fits b(2) entries_ikeys_ok [OF memtable_rep_sorted [OF m(1)] dist fits] table_size_small [OF b(2)]
    by (auto simp: table_file_def table_meta_def kBlockSize_def)
  then show ?thesis using run by (intro exI [of _ ?m] exI [of _ w']) simp
qed

lemma BuildTable_empty:
  assumes "memtable_rep m []"
  shows "\<exists>it. MemtableIterator_make m = Inr it \<and> BuildTable os buf name meta m it w = Inl AssertFail"
proof -
  obtain it where it: "MemtableIterator_make m = Inr it" "mem_iter_at m [] it" using mem_iter_make [OF assms] by blast
  then show ?thesis using mem_iter_Valid [OF it(2)] by (auto simp: BuildTable_def MemtableIterator_SeekToFirst_def)
qed

section \<open>The manifest\<close>

lemma PrintFileMeta_long:
  assumes "8 \<le> length (ik_rep (fm_smallest_key m))" "8 \<le> length (ik_rep (fm_largest_key m))"
  shows "PrintFileMeta m = Inr ()"
proof -
  have k: "\<exists>q. ExtractUserKey (Slice_string k) = Inr (Slice_buf (string_data k) (length k - 8), q)" if "8 \<le> length k" for k
    using that DecodeFixed64_total [of "drop (length k - 8) (string_data k)"]
    by (auto simp: ExtractUserKey_def Slice_string_def string_data_def Slice_buf_def)
  obtain q1 q2 where
    "ExtractUserKey (Slice_string (ik_rep (fm_smallest_key m))) =
       Inr (Slice_buf (string_data (ik_rep (fm_smallest_key m))) (length (ik_rep (fm_smallest_key m)) - 8), q1)"
    "ExtractUserKey (Slice_string (ik_rep (fm_largest_key m))) =
       Inr (Slice_buf (string_data (ik_rep (fm_largest_key m))) (length (ik_rep (fm_largest_key m)) - 8), q2)"
    using k [OF assms(1)] k [OF assms(2)] by blast
  then show ?thesis
    by (simp add: PrintFileMeta_def InternalKey_ToSlice_def Slice_buf_def read_mem_def string_data_def le_SucI)
qed

lemma EncodeFileMeta_reliable:
  assumes "reliable os written (wf_filename f)" "wf_ok f" "length (file_meta_bytes m) \<le> kWritableFileBuffer"
  obtains f' w' where "EncodeFileMeta os m f w = Inr (f', w')" "wf_ok f'" "wf_fd f' = wf_fd f" "wf_filename f' = wf_filename f"
    "wf_pos f' = 0" "stream written f' w' = stream written f w @ file_meta_bytes m"
proof -
  have l: "length (file_meta_bytes m) < 2 ^ 64" using assms(3) by (simp add: kWritableFileBuffer_def)
  have c: "slice_ok (Slice_string (file_meta_bytes m))" "sl_size (Slice_string (file_meta_bytes m)) \<le> kWritableFileBuffer"
    using assms(3) l by simp_all
  obtain f1 w1 where A: "WritableFile_Append os (Slice_string (file_meta_bytes m)) f w = Inr (Status_OK, f1, w1)" "wf_ok f1"
    "wf_fd f1 = wf_fd f" "wf_filename f1 = wf_filename f" "stream written f1 w1 = stream written f w @ slice_content (Slice_string (file_meta_bytes m))"
    by (rule Append_reliable [OF assms(1,2) c])
  have rel: "reliable os written (wf_filename f1)" using assms(1) A(4) by simp
  obtain f2 w2 where F: "WritableFile_Flush os f1 w1 = Inr (Status_OK, f2, w2)" "wf_ok f2" "wf_fd f2 = wf_fd f1"
    "wf_filename f2 = wf_filename f1" "wf_pos f2 = 0" "stream written f2 w2 = stream written f1 w1"
    by (rule Flush_reliable [OF rel A(2)])
  have "EncodeFileMeta os m f w = Inr (f2, w2)"
    using EncodeFileMeta_bytes [OF reliable_io [OF assms(1)] assms(2,3) l, of w] A(1) F(1) by auto
  then show thesis using that A F by simp
qed

lemma DumpManifest_loop_reliable:
  "reliable os written (wf_filename f) \<Longrightarrow> wf_ok f \<Longrightarrow> wf_pos f = 0 \<Longrightarrow>
     \<forall>m\<in>set ms. PrintFileMeta m = Inr () \<and> length (file_meta_bytes m) \<le> kWritableFileBuffer \<Longrightarrow>
     \<exists>w'. DumpManifest_loop os ms f w = Inr w' \<and> written w' (wf_fd f) = written w (wf_fd f) @ concat (map file_meta_bytes ms)"
proof (induction ms arbitrary: f w)
  case (Cons m ms)
  have l: "length (file_meta_bytes m) \<le> kWritableFileBuffer" using Cons.prems(4) by simp
  obtain f' w' where "EncodeFileMeta os m f w = Inr (f', w')" "wf_ok f'" "wf_fd f' = wf_fd f" "wf_filename f' = wf_filename f"
    "wf_pos f' = 0" "stream written f' w' = stream written f w @ file_meta_bytes m"
    by (rule EncodeFileMeta_reliable [OF Cons.prems(1,2) l])
  then show ?case using Cons.IH [of f' w'] Cons.prems by (auto simp: stream_def)
qed simp

definition manifest_bytes :: "u64 \<Rightarrow> FileMeta list \<Rightarrow> bytes" where
  "manifest_bytes q metas =
     EncodeVarint32 (word_of_nat (length metas)) @ EncodeVarint64 q @ concat (map file_meta_bytes metas)"

lemma DumpManifest_bytes:
  assumes os: "disk_ok os written manifest_name fd w" and buf: "length buf = kWritableFileBuffer"
    and n: "db_file_metas db \<noteq> []" "length (db_file_metas db) < 2 ^ 32" and q: "db_last_sequence db \<noteq> 0"
    and ms: "\<forall>m\<in>set (db_file_metas db). PrintFileMeta m = Inr () \<and> length (file_meta_bytes m) \<le> kWritableFileBuffer"
  shows "\<exists>w'. DumpManifest os buf db w = Inr w' \<and> written w' fd = manifest_bytes (db_last_sequence db) (db_file_metas db)"
proof -
  let ?c = "word_of_nat (length (db_file_metas db)) :: u32"
  let ?h = "EncodeVarint32 ?c @ EncodeVarint64 (db_last_sequence db)"
  obtain w1 where op: "sys_open_write os manifest_name w = (fd, w1)" "written w1 fd = []" and rel: "reliable os written manifest_name"
    using os by (auto simp: disk_ok_def)
  let ?f = "WritableFile_make fd manifest_name buf"
  have f: "wf_ok ?f" "stream written ?f w1 = []" "wf_fd ?f = fd" "wf_filename ?f = manifest_name"
    using buf op(2) by (simp_all add: WritableFile_make_def wf_ok_def stream_def)
  have "?c \<noteq> 0" using n by (metis length_0_conv unat_0 unat_word_of_nat_32)
  then have z: "0 \<notin> set ?h" using EncodeVarint32_zero_free EncodeVarint64_zero_free [OF q] by auto
  then have c: "Slice_cstr (string_data ?h) = Inr (Slice_string ?h)"
    by (simp add: Slice_cstr_string Slice_string_def)
  have hl: "length ?h \<le> 15" using EncodeVarint32_le_5 [of ?c] EncodeVarint64_le_10 [of "db_last_sequence db"] by simp
  obtain f1 w2 where f1: "WritableFile_Append os (Slice_string ?h) ?f w1 = Inr (Status_OK, f1, w2)" "wf_ok f1" "wf_fd f1 = fd"
    "wf_filename f1 = manifest_name" "stream written f1 w2 = ?h"
    using Append_reliable [OF _ f(1), of os written "Slice_string ?h" w1] rel f hl
    by (auto simp: kWritableFileBuffer_def)
  obtain f2 w3 where f2: "WritableFile_Flush os f1 w2 = Inr (Status_OK, f2, w3)" "wf_ok f2" "wf_fd f2 = fd"
    "wf_filename f2 = manifest_name" "wf_pos f2 = 0" "stream written f2 w3 = ?h"
    using Flush_reliable [of os written f1 w2] rel f1 by auto
  obtain w' where "DumpManifest_loop os (db_file_metas db) f2 w3 = Inr w'"
    "written w' fd = ?h @ concat (map file_meta_bytes (db_file_metas db))"
    using DumpManifest_loop_reliable [of os written f2 "db_file_metas db" w3] rel f2 ms by (auto simp: stream_def)
  then show ?thesis
    using op(1) f1(1) f2(1) c by (simp add: DumpManifest_def PutVarint32_append PutVarint64_append manifest_bytes_def)
qed

lemma DecodeFileMetas_bytes:
  "length (concat (map file_meta_bytes ms)) \<le> n \<Longrightarrow> n < 2 ^ 64 \<Longrightarrow>
     \<exists>s. DecodeFileMetas (length ms) \<lparr>sl_mem = concat (map file_meta_bytes ms) @ rest, sl_size = n\<rparr> = Inr (ms, s)"
proof (induction ms arbitrary: n)
  case (Cons m ms)
  then show ?case
    using DecodeFileMeta_bytes [of m n "concat (map file_meta_bytes ms) @ rest"] Cons.IH [of "n - length (file_meta_bytes m)"] by auto
qed simp

lemma ReadManifest_loop_content:
  assumes "\<And>n off. sys_pread os fd n off w = Some (take n (drop off content))" "length content \<le> kManifestReserved"
    "length buf = kManifestReserved"
  shows "ReadManifest_loop os fd buf 0 w = Inr (content @ drop (length content) buf, length content)"
proof (cases "content = []")
  case False
  have "ReadManifest_loop os fd (content @ drop (length content) buf) (length content) w =
      Inr (content @ drop (length content) buf, length content)"
    using assms by (simp add: ReadManifest_loop.simps [of _ _ _ "length content"])
  then show ?thesis using assms False by (simp add: ReadManifest_loop.simps [of _ _ _ 0])
qed (use assms in \<open>simp add: ReadManifest_loop.simps [of _ _ _ 0]\<close>)

lemma ReadManifest_bytes:
  assumes f: "file_content os (RandomAccessFile_make os manifest_name w) (manifest_bytes q metas) w"
    and len: "length (manifest_bytes q metas) \<le> kManifestReserved" "length buf = kManifestReserved" "length metas < 2 ^ 32"
  shows "ReadManifest os buf db w =
    Inr (Status_OK, db\<lparr>db_file_metas := db_file_metas db @ metas, db_last_sequence := q,
                       db_sstable_number := word_of_nat (length metas)\<rparr>)"
proof -
  let ?fd = "sys_open_read os manifest_name w" and ?c = "manifest_bytes q metas"
  have rd: "?fd \<noteq> -1" "\<And>n off. sys_pread os ?fd n off w = Some (take n (drop off ?c))"
    using f by (simp_all add: file_content_def RandomAccessFile_make_def)
  let ?n = "word_of_nat (length metas) :: u32" and ?r = "drop (length ?c) buf" and ?m = "concat (map file_meta_bytes metas)"
  have l: "length ?c = length (EncodeVarint32 ?n) + length (EncodeVarint64 q) + length ?m" by (simp add: manifest_bytes_def)
  have k: "length ?c < 2 ^ 64" using len(1) by (simp add: kManifestReserved_def)
  have g1: "GetVarint32 (Slice_buf (?c @ ?r) (length ?c)) =
      Inr (?n, \<lparr>sl_mem = EncodeVarint64 q @ ?m @ ?r, sl_size = length ?c - length (EncodeVarint32 ?n)\<rparr>)"
    using l k by (subst GetVarint32_slice [where v = ?n and rest = "EncodeVarint64 q @ ?m @ ?r"]) (simp_all add: Slice_buf_def manifest_bytes_def)
  have g2: "GetVarint64 \<lparr>sl_mem = EncodeVarint64 q @ ?m @ ?r, sl_size = length ?c - length (EncodeVarint32 ?n)\<rparr> =
      Inr (Some (q, \<lparr>sl_mem = ?m @ ?r, sl_size = length ?m\<rparr>))"
    using l by (subst GetVarint64_slice [where v = q and rest = "?m @ ?r"]) simp_all
  obtain s where s: "DecodeFileMetas (length metas) \<lparr>sl_mem = ?m @ ?r, sl_size = length ?m\<rparr> = Inr (metas, s)"
    using DecodeFileMetas_bytes [of metas "length ?m" ?r] l k by auto
  have u: "unat ?n = length metas" "(ucast ?n :: u64) = word_of_nat (length metas)"
    using len(3) by (simp_all add: unsigned_of_nat take_bit_nat_eq_self)
  show ?thesis
    unfolding ReadManifest_def Let_def using rd(1) ReadManifest_loop_content [OF rd(2) len(1,2)] g1 g2 s u by simp
qed

lemma file_meta_bytes_ge:
  assumes "8 \<le> length (ik_rep (fm_smallest_key m))"
  shows "1 \<le> length (file_meta_bytes m)"
  using assms by (simp add: file_meta_bytes_def)

lemma length_concat_ge: "\<forall>x\<in>set xs. 1 \<le> length (f x) \<Longrightarrow> length xs \<le> length (concat (map f xs))"
  by (induction xs) auto

section \<open>Properties\<close>


lemma replicate_8: "replicate 8 x = [x, x, x, x, x, x, x, x]"
  by (simp add: eval_nat_numeral)

lemma slow_disk:
  assumes "length name + 7 < 2 ^ 32"
  shows "disk_ok slow_os (\<lambda>w fd. w) name 3 []"
  using slow_os_reliable [OF assms] by (simp add: disk_ok_def, simp add: slow_os_def file_content_def RandomAccessFile_make_def)

text \<open>C20: the manifest round trip: \<^verbatim>\<open>DumpManifest\<close> of a database with files, read back by \<^verbatim>\<open>ReadManifest\<close> in a new
  object, gives the same metadata of the files in the same order and the same sequence number; the
  number of the next table file is the number of files, whatever it was before.\<close>

theorem manifest_roundtrip:
  assumes "disk_ok os written manifest_name fd w" "length buf = kWritableFileBuffer" "length buf' = kManifestReserved"
    "db_file_metas db \<noteq> []" "db_last_sequence db \<noteq> 0"
    "\<forall>m\<in>set (db_file_metas db). 8 \<le> length (ik_rep (fm_smallest_key m)) \<and> 8 \<le> length (ik_rep (fm_largest_key m))"
    "length (manifest_bytes (db_last_sequence db) (db_file_metas db)) \<le> kManifestReserved" "db_file_metas new = []"
  shows "\<exists>w'. DumpManifest os buf db w = Inr w' \<and>
    ReadManifest os buf' new w' =
      Inr (Status_OK, new\<lparr>db_file_metas := db_file_metas db, db_last_sequence := db_last_sequence db,
                          db_sstable_number := word_of_nat (length (db_file_metas db))\<rparr>)"
proof -
  let ?ms = "db_file_metas db"
  have each: "length (file_meta_bytes m) \<le> length (concat (map file_meta_bytes ?ms))" if "m \<in> set ?ms" for m
    using that by (induction ?ms) (auto simp: length_concat member_le_sum_list)
  have sum: "length (concat (map file_meta_bytes ?ms)) \<le> kManifestReserved" using assms(7) by (simp add: manifest_bytes_def)
  have ms: "\<forall>m\<in>set ?ms. PrintFileMeta m = Inr () \<and> length (file_meta_bytes m) \<le> kWritableFileBuffer"
    using assms(6) PrintFileMeta_long each sum by (fastforce simp: kManifestReserved_def kWritableFileBuffer_def)
  have "length ?ms \<le> length (concat (map file_meta_bytes ?ms))" by (rule length_concat_ge) (use assms(6) file_meta_bytes_ge in auto)
  then have n: "length ?ms < 2 ^ 32" using sum by (simp add: kManifestReserved_def)
  obtain w' where "DumpManifest os buf db w = Inr w'" "written w' fd = manifest_bytes (db_last_sequence db) ?ms"
    using DumpManifest_bytes [OF assms(1,2,4) n assms(5) ms] by blast
  moreover have "file_content os (RandomAccessFile_make os manifest_name w') (written w' fd) w'"
    using assms(1) by (simp add: disk_ok_def)
  ultimately show ?thesis using ReadManifest_bytes [OF _ assms(7,3) n, of os w' new] assms(8) by simp
qed

text \<open>C23: opening a database where there is no manifest and closing it without a write: the constructor
  succeeds with the sequence number 1 and an empty map, and the destructor, which compacts the memtable
  also when it is empty, stops at an assertion.\<close>

theorem open_close_empty:
  assumes "\<not> sys_access os (ascii ''./manifest'') w" "\<not> db_background_compaction_schedule junk"
  shows "\<exists>db. DBimpl_make os buf junk_size junk w = Inr db \<and> db_rep db Map.empty \<and> db_last_sequence db = 1 \<and>
    db_sstable_number db = 1 \<and> db_file_metas db = [] \<and> DBimpl_destroy os buf' db w' = Inl AssertFail"
proof -
  let ?db = "junk\<lparr>db_writers := [], db_memtable := Memtable_make junk_size, db_immutable_memtable := None,
    db_file_metas := [], db_sstable_number := 1, db_last_sequence := 1\<rparr>"
  have "DBimpl_make os buf junk_size junk w = Inr ?db" using assms(1) by (simp add: DBimpl_make_def)
  moreover have "db_rep ?db Map.empty" using mem_state_make [of junk_size 1] by (auto simp: db_rep_def)
  moreover have "DBimpl_destroy os buf' ?db w' = Inl AssertFail"
    using BuildTable_empty [OF Memtable_make_rep, of junk_size os buf' "sstable_name 1" FileMeta_make w'] assms(2)
    by (auto simp: DBimpl_destroy_def CompactMemtable_def)
  ultimately show ?thesis by auto
qed

theorem open_close_empty_witness:
  "\<exists>db. DBimpl_make slow_os [] 0 fresh_db [] = Inr db \<and> DBimpl_destroy slow_os [] db [] = Inl AssertFail"
  using open_close_empty [of slow_os "[]" fresh_db "[]" 0 "[]" "[]"] by (auto simp: slow_os_def fresh_db_def)


theorem manifest_roundtrip_witness:
  "let m = \<lparr>fm_file_size = 5, fm_number = 1, fm_smallest_key = \<lparr>ik_rep = replicate 9 97\<rparr>, fm_largest_key = \<lparr>ik_rep = replicate 9 98\<rparr>\<rparr> in
   \<exists>w'. DumpManifest slow_os (replicate kWritableFileBuffer 0) (fresh_db\<lparr>db_file_metas := [m]\<rparr>) [] = Inr w' \<and>
     ReadManifest slow_os (replicate kManifestReserved 0) fresh_db w' = Inr (Status_OK, fresh_db\<lparr>db_file_metas := [m]\<rparr>)"
proof -
  define m where "m = \<lparr>fm_file_size = 5, fm_number = 1, fm_smallest_key = \<lparr>ik_rep = replicate 9 97\<rparr>, fm_largest_key = \<lparr>ik_rep = replicate 9 98\<rparr>\<rparr>"
  let ?db = "fresh_db\<lparr>db_file_metas := [m]\<rparr>"
  have "disk_ok slow_os (\<lambda>w fd. w) manifest_name 3 []" by (rule slow_disk) (simp add: manifest_name_def ascii_def)
  from manifest_roundtrip [OF this, of "replicate kWritableFileBuffer 0" "replicate kManifestReserved 0" ?db fresh_db]
  show ?thesis
    by (auto simp: fresh_db_def m_def manifest_bytes_def file_meta_bytes_def kManifestReserved_def EncodeVarint64.simps EncodeVarint32.simps)
qed

end
