(* ===== verification/DBRestart.thy ===== *)
theory DBRestart
  imports DBDisk
begin

text \<open>
  Closing a database and opening it again (\<^verbatim>\<open>~DBimpl\<close> and \<^verbatim>\<open>DBimpl\<close> in \<^verbatim>\<open>db_impl.cc\<close>): the last compaction, the manifest
  and its reading composed, over a system with two files.
\<close>

section \<open>Writing to one file leaves the others alone\<close>

text \<open>A property of the world that no write to the descriptor \<open>fd\<close> changes.\<close>

definition keeps :: "'w posix \<Rightarrow> int \<Rightarrow> ('w \<Rightarrow> bool) \<Rightarrow> bool" where
  "keeps os fd P \<longleftrightarrow> (\<forall>d w r w'. sys_write os fd d w = (r, w') \<longrightarrow> P w \<longrightarrow> P w')"

lemma keeps_write: "keeps os fd P \<Longrightarrow> sys_write os fd d w = (r, w') \<Longrightarrow> P w \<Longrightarrow> P w'"
  unfolding keeps_def by blast

lemma WriteUnbuffered_loop_keeps:
  "keeps os (wf_fd f) P \<Longrightarrow> WriteUnbuffered_loop fuel os f d w = Inr (s, w') \<Longrightarrow> P w \<Longrightarrow> P w'"
proof (induction fuel arbitrary: d w)
  case 0
  then show ?case by (simp add: WriteUnbuffered_loop.simps split: if_splits)
next
  case (Suc fuel)
  show ?case
  proof (cases "d = []")
    case True
    then show ?thesis using Suc.prems by (simp add: WriteUnbuffered_loop.simps)
  next
    case False
    obtain r w1 where r: "sys_write os (wf_fd f) d w = (r, w1)" by fastforce
    have "P w1" by (rule keeps_write [OF Suc.prems(1) r Suc.prems(3)])
    then show ?thesis
      using Suc.prems(2) False r Suc.IH [OF Suc.prems(1)]
      by (cases r) (auto simp: WriteUnbuffered_loop.simps [of "Suc fuel"] split: if_splits)
  qed
qed

lemma WriteUnbuffered_keeps:
  "keeps os (wf_fd f) P \<Longrightarrow> WriteUnbuffered os f d n w = Inr (s, w') \<Longrightarrow> P w \<Longrightarrow> P w'"
  by (auto simp: WriteUnbuffered_def intro: WriteUnbuffered_loop_keeps)

lemma File_Flush_keeps:
  "keeps os (wf_fd f) P \<Longrightarrow> WritableFile_Flush os f w = Inr (s, f', w') \<Longrightarrow> P w \<Longrightarrow> P w' \<and> wf_fd f' = wf_fd f"
  by (auto simp: WritableFile_Flush_def intro: WriteUnbuffered_keeps)

lemma Append_rest_keeps:
  assumes k: "keeps os (wf_fd f) P" "Append_rest os d n f w = Inr (s, f', w')" "P w"
  shows "P w' \<and> wf_fd f' = wf_fd f"
proof (cases "n = 0")
  case False
  then obtain s1 f1 w1 where f: "WritableFile_Flush os f w = Inr (s1, f1, w1)"
    using k(2) by (auto simp: Append_rest_def)
  note f1 = File_Flush_keeps [OF k(1) f k(3)]
  then have k1: "keeps os (wf_fd f1) P" using k(1) by simp
  show ?thesis using False k(2) f f1 WriteUnbuffered_keeps [OF k1] by (auto simp: Append_rest_def split: if_splits)
qed (use k in \<open>simp add: Append_rest_def\<close>)

lemma File_Append_keeps:
  assumes "keeps os (wf_fd f) P" "WritableFile_Append os c f w = Inr (s, f', w')" "P w"
  shows "P w' \<and> wf_fd f' = wf_fd f"
proof -
  obtain buf p d n where "Append_rest os d n (f\<lparr>wf_buf := buf, wf_pos := p\<rparr>) w = Inr (s, f', w')"
    using assms(2) by (auto simp: WritableFile_Append_def Let_def)
  from Append_rest_keeps [of os "f\<lparr>wf_buf := buf, wf_pos := p\<rparr>" P d n w s f' w', OF _ this assms(3)] assms(1)
  show ?thesis by simp
qed

lemmas file_keeps = File_Append_keeps File_Flush_keeps

text \<open>The operations of the table builder write to its file only.\<close>

abbreviation tb_fd :: "TableBuilder \<Rightarrow> int" where
  "tb_fd r \<equiv> wf_fd (tb_file r)"

lemma WriteBlock_keeps:
  assumes "keeps os (tb_fd r) P" "WriteBlock os b h r w = Inr (b', h', r', w')" "P w"
  shows "P w' \<and> tb_fd r' = tb_fd r"
  using assms(2) File_Append_keeps [OF assms(1) _ assms(3)]
  by (fastforce simp: WriteBlock_def Let_def split: if_splits prod.splits)

lemma TableBuilder_Flush_keeps:
  assumes k: "keeps os (tb_fd r) P" "TableBuilder_Flush os r w = Inr (r', w')" "P w"
  shows "P w' \<and> tb_fd r' = tb_fd r"
proof (cases "BlockBuilder_Empty (tb_data_block r)")
  case False
  then obtain b h r1 w1 where b: "WriteBlock os (tb_data_block r) (tb_block_handle r) r w = Inr (b, h, r1, w1)"
    using k(2) by (auto simp: TableBuilder_Flush_def)
  note b1 = WriteBlock_keeps [OF k(1) b k(3)]
  then have k1: "keeps os (tb_fd r1) P" using k(1) by simp
  show ?thesis
    using False k(2) b b1 File_Flush_keeps [OF k1] by (fastforce simp: TableBuilder_Flush_def Let_def split: if_splits)
qed (use k in \<open>auto simp: TableBuilder_Flush_def\<close>)

lemma AddIndexEntry_file: "AddIndexEntry cmp r = Inr r' \<Longrightarrow> tb_file r' = tb_file r"
  by (auto simp: AddIndexEntry_def)

lemma TableBuilder_Add_keeps:
  assumes k: "keeps os (tb_fd r) P" "TableBuilder_Add os cmp key v r w = Inr (r', w')" "P w"
  shows "P w' \<and> tb_fd r' = tb_fd r"
proof -
  obtain r0 fb b k n where r0: "(if tb_pending_index_block r
            then rbind (assert_that (BlockBuilder_Empty (tb_data_block r))) (\<lambda>_. AddIndexEntry cmp r) else Inr r) = Inr r0"
    and run: "(let r = r0\<lparr>tb_filter_block := fb, tb_data_block := b, tb_last_key := k, tb_num_entries := n\<rparr> in
       if BlockBuilder_EstimatedSize (tb_data_block r) \<ge> kBlockSize then TableBuilder_Flush os r w
       else Inr (r, w)) = Inr (r', w')"
    using k(2) unfolding TableBuilder_Add_def by (auto split del: if_split)
  have f: "tb_file r0 = tb_file r" using r0 AddIndexEntry_file by (auto split: if_splits)
  define r1 where "r1 = r0\<lparr>tb_filter_block := fb, tb_data_block := b, tb_last_key := k, tb_num_entries := n\<rparr>"
  then have r1: "tb_file r1 = tb_file r" "TableBuilder_Flush os r1 w = Inr (r', w') \<or> r' = r1 \<and> w' = w"
    using run f by (auto simp: Let_def split: if_splits)
  then show ?thesis using TableBuilder_Flush_keeps [of os r1 P w r' w'] k(1,3) by auto
qed

lemma WriteFooter_keeps:
  assumes k: "keeps os (tb_fd r) P" "TableBuilder_WriteFooter os ih fh r w = Inr (s, r', w')" "P w"
  shows "P w'"
proof -
  obtain c s1 f1 w1 where a: "WritableFile_Append os c (tb_file r) w = Inr (s1, f1, w1)"
    and rest: "w' = w1 \<or> (\<exists>s2 f2. WritableFile_Flush os f1 w1 = Inr (s2, f2, w'))"
    using k(2) by (fastforce simp: TableBuilder_WriteFooter_def Let_def split: if_splits)
  note f1 = File_Append_keeps [OF k(1) a k(3)]
  then show ?thesis using rest File_Flush_keeps [of os f1 P w1] k(1) by auto
qed

lemma WriteIndex_keeps:
  assumes k: "keeps os (tb_fd r) P" "TableBuilder_WriteIndex os cmp fh r w = Inr (s, r', w')" "P w"
  shows "P w'"
proof -
  obtain r1 b h r2 w1 where r1: "tb_file r1 = tb_file r" and b: "WriteBlock os (tb_index_block r1) BlockHandle_make r1 w = Inr (b, h, r2, w1)"
    and rest: "w' = w1 \<or> TableBuilder_WriteFooter os h fh (r2\<lparr>tb_index_block := b\<rparr>) w1 = Inr (s, r', w')"
    using k(2) AddIndexEntry_file by (fastforce simp: TableBuilder_WriteIndex_def Let_def split: if_splits)
  have "P w1 \<and> tb_fd r2 = tb_fd r" using WriteBlock_keeps [of os r1 P, OF _ b k(3)] k(1) r1 by simp
  then show ?thesis using rest WriteFooter_keeps [of os "r2\<lparr>tb_index_block := b\<rparr>" P h fh w1 s r' w'] k(1) by auto
qed

lemma TableBuilder_Finish_keeps:
  assumes k: "keeps os (tb_fd r) P" "TableBuilder_Finish os cmp r w = Inr (s, r', w')" "P w"
  shows "P w'"
proof -
  obtain r1 w1 where f: "TableBuilder_Flush os r w = Inr (r1, w1)" using k(2) by (auto simp: TableBuilder_Finish_def)
  note r1 = TableBuilder_Flush_keeps [OF k(1) f k(3)]
  show ?thesis
  proof (cases "Status_ok (tb_status r1)")
    case True
    then obtain c s2 f2 w2 where a: "WritableFile_Append os c (tb_file r1) w1 = Inr (s2, f2, w2)"
      and rest: "w' = w2 \<or> (\<exists>r2 fh. tb_file r2 = f2 \<and> TableBuilder_WriteIndex os cmp fh r2 w2 = Inr (s, r', w'))"
      using k(2) f by (fastforce simp: TableBuilder_Finish_def TableBuilder_ok_def Let_def split: if_splits)
    have f2: "P w2 \<and> wf_fd f2 = tb_fd r" using File_Append_keeps [of os "tb_file r1" P c w1 s2 f2 w2] k(1) a r1 by simp
    show ?thesis
    proof (cases "w' = w2")
      case False
      then obtain r2 fh where "tb_file r2 = f2" "TableBuilder_WriteIndex os cmp fh r2 w2 = Inr (s, r', w')" using rest by blast
      then show ?thesis using WriteIndex_keeps [of os r2 P cmp fh w2 s r' w'] k(1) f2 by simp
    qed (use f2 in simp)
  qed (use k(2) f r1 in \<open>auto simp: TableBuilder_Finish_def TableBuilder_ok_def\<close>)
qed

lemma BuildTable_loop_keeps:
  "keeps os (tb_fd b) P \<Longrightarrow> BuildTable_loop fuel os m it b l w = Inr (b', l', w') \<Longrightarrow> P w \<Longrightarrow> P w' \<and> tb_fd b' = tb_fd b"
proof (induction fuel arbitrary: it b l w)
  case 0
  then show ?case by (auto simp: BuildTable_loop.simps [of 0] split: if_splits)
next
  case (Suc fuel)
  show ?case
  proof (cases "MemtableIterator_Valid it")
    case True
    then obtain k v b1 w1 it1 l1 where a: "TableBuilder_Add os InternalKeyComparator_Compare k v b w = Inr (b1, w1)"
      "BuildTable_loop fuel os m it1 b1 l1 w1 = Inr (b', l', w')"
      using Suc.prems(2) by (auto simp: BuildTable_loop.simps [of "Suc fuel"])
    note b1 = TableBuilder_Add_keeps [OF Suc.prems(1) a(1) Suc.prems(3)]
    then show ?thesis using Suc.IH [OF _ a(2)] Suc.prems(1) by simp
  qed (use Suc.prems in \<open>auto simp: BuildTable_loop.simps [of "Suc fuel"]\<close>)
qed

lemma BuildTable_keeps:
  assumes run: "BuildTable os buf name meta m it w = Inr (s, meta', w')" "Status_ok s"
    and op: "sys_open_write os name w = (fd, w1)" "fd \<noteq> -1" and k: "keeps os fd P" "P w" "P w1"
  shows "P w'"
proof (cases "MemtableIterator_Valid it")
  case True
  then obtain b l w2 b2 w3 where
    "BuildTable_loop (length (sk_nodes (mt_table m))) os m it (TableBuilder_make (WritableFile_make fd name buf)) (fm_largest_key meta) w1
       = Inr (b, l, w2)"
    "TableBuilder_Finish os InternalKeyComparator_Compare b w2 = Inr (s, b2, w')"
    using run op by (auto simp: BuildTable_def Let_def Status_ok_iff split: if_splits)
  then show ?thesis
    using BuildTable_loop_keeps [of os "TableBuilder_make (WritableFile_make fd name buf)" P] TableBuilder_Finish_keeps [of os b P] k
    by (fastforce simp: TableBuilder_make_def WritableFile_make_def)
qed (use run k in \<open>auto simp: BuildTable_def\<close>)

lemma CompactMemtable_keeps:
  assumes "CompactMemtable os buf db w = Inr (Status_OK, db', w')" "db_immutable_memtable db = Some imm"
    "sys_open_write os (sstable_name (db_sstable_number db)) w = (fd, w1)" "fd \<noteq> -1" "keeps os fd P" "P w" "P w1"
  shows "P w'"
proof -
  obtain it meta where "BuildTable os buf (sstable_name (db_sstable_number db)) FileMeta_make imm it w = Inr (Status_OK, meta, w')"
    using assms(1,2) by (auto simp: CompactMemtable_def Let_def split: if_splits)
  then show ?thesis using BuildTable_keeps [OF _ _ assms(3-7)] by (simp add: Status_ok_iff)
qed

text \<open>The manifest is written to its own file, too.\<close>

lemma EncodeFileMeta_keeps:
  assumes "keeps os (wf_fd f) P" "EncodeFileMeta os m f w = Inr (f', w')" "P w"
  shows "P w' \<and> wf_fd f' = wf_fd f"
proof -
  obtain c s1 f1 w1 s2 where "WritableFile_Append os c f w = Inr (s1, f1, w1)" "WritableFile_Flush os f1 w1 = Inr (s2, f', w')"
    using assms(2) by (auto simp: EncodeFileMeta_def Let_def)
  then show ?thesis using File_Append_keeps [of os f P c w s1 f1 w1] File_Flush_keeps [of os f1 P w1 s2 f' w'] assms(1,3) by simp
qed

lemma DumpManifest_loop_keeps:
  "keeps os (wf_fd f) P \<Longrightarrow> DumpManifest_loop os ms f w = Inr w' \<Longrightarrow> P w \<Longrightarrow> P w'"
proof (induction ms arbitrary: f w)
  case (Cons m ms)
  then obtain f1 w1 where "EncodeFileMeta os m f w = Inr (f1, w1)" "DumpManifest_loop os ms f1 w1 = Inr w'" by auto
  then show ?case using Cons.IH [of f1 w1] EncodeFileMeta_keeps [of os f P m w f1 w1] Cons.prems by simp
qed simp

lemma DumpManifest_keeps:
  assumes "DumpManifest os buf db w = Inr w'" "sys_open_write os manifest_name w = (fd, w1)" "keeps os fd P" "P w1"
  shows "P w'"
proof -
  let ?f = "WritableFile_make fd manifest_name buf"
  obtain c s1 f1 w2 s2 f2 w3 where "WritableFile_Append os c ?f w1 = Inr (s1, f1, w2)" "WritableFile_Flush os f1 w2 = Inr (s2, f2, w3)"
    "DumpManifest_loop os (db_file_metas db) f2 w3 = Inr w'"
    using assms(1,2) by (auto simp: DumpManifest_def Let_def)
  then show ?thesis
    using File_Append_keeps [of os ?f P c w1 s1 f1 w2] File_Flush_keeps [of os f1 P w2 s2 f2 w3]
      DumpManifest_loop_keeps [of os f2 P "db_file_metas db" w3 w'] assms(3,4)
    by (simp add: WritableFile_make_def)
qed

section \<open>A system with a table file and a manifest\<close>

text \<open>
  The two files have descriptors of their own; opening a file changes no contents and writing changes
  those of the file written to; there is no manifest yet, and \<^verbatim>\<open>access\<close> finds one that has been written.
\<close>

definition two_files :: "'w posix \<Rightarrow> ('w \<Rightarrow> int \<Rightarrow> bytes) \<Rightarrow> bytes \<Rightarrow> int \<Rightarrow> int \<Rightarrow> 'w \<Rightarrow> bool" where
  "two_files os written name tfd mfd w \<longleftrightarrow>
     tfd \<noteq> mfd \<and> written w mfd = [] \<and> disk_ok os written name tfd w \<and>
     (\<forall>w'. written w' mfd = [] \<longrightarrow> disk_ok os written manifest_name mfd w') \<and>
     (\<forall>name w fd w'. sys_open_write os name w = (fd, w') \<longrightarrow> written w' = written w) \<and>
     (\<forall>fd d w r w' fd'. sys_write os fd d w = (r, w') \<longrightarrow> fd' \<noteq> fd \<longrightarrow> written w' fd' = written w fd') \<and>
     (\<forall>w'. sys_access os (ascii ''./manifest'') w' \<longleftrightarrow> written w' mfd \<noteq> [])"

lemma two_files_keeps:
  assumes "two_files os written name tfd mfd w"
  shows "keeps os tfd (\<lambda>w. written w mfd = c)" "keeps os mfd (\<lambda>w. written w tfd = c)"
proof -
  have "\<forall>fd d w r w' fd'. sys_write os fd d w = (r, w') \<longrightarrow> fd' \<noteq> fd \<longrightarrow> written w' fd' = written w fd'" "tfd \<noteq> mfd"
    using assms by (simp_all add: two_files_def)
  then show "keeps os tfd (\<lambda>w. written w mfd = c)" "keeps os mfd (\<lambda>w. written w tfd = c)" unfolding keeps_def by metis+
qed

lemma two_files_open:
  assumes "two_files os written name tfd mfd w" "sys_open_write os n w1 = (fd, w2)"
  shows "written w2 = written w1"
proof -
  have "\<forall>name w fd w'. sys_open_write os name w = (fd, w') \<longrightarrow> written w' = written w" using assms(1) by (simp add: two_files_def)
  then show ?thesis using assms(2) by blast
qed

text \<open>A table file only depends on what has been written to it.\<close>

lemma table_file_keeps:
  assumes "table_file os w es meta" "disk_ok os written (sstable_name (fm_number meta)) fd w0" "written w fd = written w' fd"
  shows "table_file os w' es meta"
proof -
  let ?f = "\<lambda>w. RandomAccessFile_make os (sstable_name (fm_number meta)) w"
  have rd: "file_content os (?f w) (written w fd) w" "file_content os (?f w') (written w' fd) w'"
    using assms(2) by (simp_all add: disk_ok_def)
  have "file_content os (?f w) c w \<Longrightarrow> c = written w fd" for c
  proof -
    assume "file_content os (?f w) c w"
    then have "take n (drop 0 c) = take n (drop 0 (written w fd))" for n
      using rd(1) unfolding file_content_def by (metis option.inject)
    from this [of "max (length c) (length (written w fd))"] show "c = written w fd" by simp
  qed
  then show ?thesis using assms(1,3) rd(2) unfolding table_file_def by metis
qed

section \<open>Properties\<close>

lemma file_meta_bytes_le:
  "length (file_meta_bytes m) \<le> 40 + length (ik_rep (fm_smallest_key m)) + length (ik_rep (fm_largest_key m))"
  using EncodeVarint64_le_10 [of "fm_file_size m"] EncodeVarint64_le_10 [of "fm_number m"]
    EncodeVarint64_le_10 [of "word_of_nat (length (ik_rep (fm_smallest_key m)))"]
    EncodeVarint64_le_10 [of "word_of_nat (length (ik_rep (fm_largest_key m)))"]
  by (simp add: file_meta_bytes_def)

lemma manifest_one_le:
  assumes "table_file os w es meta" "\<forall>e\<in>set es. length (fst (entry_kv e)) \<le> 2000"
  shows "length (manifest_bytes q [meta]) \<le> kManifestReserved" "length (file_meta_bytes meta) \<le> kWritableFileBuffer"
proof -
  have "length (ik_rep (fm_smallest_key meta)) \<le> 2000" "length (ik_rep (fm_largest_key meta)) \<le> 2000"
    using assms by (auto simp: table_file_def)
  then have "length (file_meta_bytes meta) \<le> 4040" using file_meta_bytes_le [of meta] by simp
  then show "length (manifest_bytes q [meta]) \<le> kManifestReserved" "length (file_meta_bytes meta) \<le> kWritableFileBuffer"
    using EncodeVarint32_le_5 [of 1] EncodeVarint64_le_10 [of q]
    by (simp_all add: manifest_bytes_def kManifestReserved_def kWritableFileBuffer_def)
qed

lemma table_file_Print:
  assumes "table_file os w es meta" "\<forall>e\<in>set es. 8 \<le> length (cut_at_zero (fst (entry_kv e)))"
  shows "PrintFileMeta meta = Inr ()"
proof (rule PrintFileMeta_long)
  have "length (cut_at_zero k) \<le> length k" for k :: bytes by (rule length_takeWhile_le)
  then have "8 \<le> length (fst (entry_kv e))" if "e \<in> set es" for e using that assms(2) le_trans by blast
  then show "8 \<le> length (ik_rep (fm_smallest_key meta))" "8 \<le> length (ik_rep (fm_largest_key meta))"
    using assms(1) by (auto simp: table_file_def)
qed

text \<open>The destructor writes the memtable to its table file and then the manifest, which leaves the table file alone.\<close>

lemma DBimpl_destroy_files:
  assumes "\<not> db_background_compaction_schedule db" "memtable_rep (db_memtable db) es"
    "entries_upto es (db_last_sequence db)" "db_last_sequence db < max_seq" "db_last_sequence db \<noteq> 0" "dumpable es"
    "\<forall>e\<in>set es. length (fst (entry_kv e)) \<le> 2000" "db_file_metas db = []"
    "two_files os written (sstable_name (db_sstable_number db)) tfd mfd w" "length buf = kWritableFileBuffer"
  obtains db1 w1 meta where "DBimpl_destroy os buf db w = Inr (Some (db1, w1))" "table_file os w1 es meta"
    "fm_number meta = db_sstable_number db" "written w1 mfd = manifest_bytes (db_last_sequence db) [meta]"
proof -
  let ?q = "db_last_sequence db" and ?n = "db_sstable_number db"
  let ?imm = "db\<lparr>db_shutting_down := True, db_immutable_memtable := Some (db_memtable db)\<rparr>"
  have disk: "disk_ok os written (sstable_name ?n) tfd w" and mdisk: "\<And>w'. written w' mfd = [] \<Longrightarrow> disk_ok os written manifest_name mfd w'"
    and m0: "written w mfd = []"
    using assms(9) by (auto simp: two_files_def)
  have disk': "disk_ok os written (sstable_name (db_sstable_number ?imm)) tfd w" using disk by simp
  obtain meta w1 where c: "CompactMemtable os buf ?imm w = Inr (Status_OK, ?imm\<lparr>db_file_metas := [meta], db_sstable_number := ?n + 1\<rparr>, w1)"
    "table_file os w1 es meta" "fm_number meta = ?n"
    using CompactMemtable_table [of ?imm, OF _ assms(2,3,4,6) disk' assms(10)] assms(8) by auto
  obtain w0 where op: "sys_open_write os (sstable_name ?n) w = (tfd, w0)" "tfd \<noteq> -1" using disk by (auto simp: disk_ok_def)
  have "written w0 mfd = []" using two_files_open [OF assms(9) op(1)] m0 by simp
  then have m1: "written w1 mfd = []"
    using CompactMemtable_keeps [OF c(1), of "db_memtable db" tfd w0 "\<lambda>w. written w mfd = []"] op m0 two_files_keeps(1) [OF assms(9)] by simp
  let ?db1 = "?imm\<lparr>db_file_metas := [meta], db_sstable_number := ?n + 1, db_immutable_memtable := None\<rparr>"
  have "PrintFileMeta meta = Inr ()" by (rule table_file_Print [OF c(2)]) (use assms(6) in \<open>simp add: dumpable_def\<close>)
  then obtain w2 where d: "DumpManifest os buf ?db1 w1 = Inr w2" "written w2 mfd = manifest_bytes ?q [meta]"
    using DumpManifest_bytes [OF mdisk [OF m1] assms(10), of ?db1] assms(5) manifest_one_le(2) [OF c(2) assms(7)] by auto
  obtain wo where wo: "sys_open_write os manifest_name w1 = (mfd, wo)" using mdisk [OF m1] by (auto simp: disk_ok_def)
  have "written w2 tfd = written w1 tfd"
    using DumpManifest_keeps [OF d(1) wo, of "\<lambda>w. written w tfd = written w1 tfd"] two_files_keeps(2) [OF assms(9)]
      two_files_open [OF assms(9) wo] by simp
  then have t: "table_file os w2 es meta" using table_file_keeps [OF c(2), of written tfd w w2] disk c(3) by simp
  have "DBimpl_destroy os buf db w = Inr (Some (?db1, w2))" using assms(1) c(1) d(1) by (simp add: DBimpl_destroy_def)
  then show thesis using that t c(3) d(2) by blast
qed

lemma DBimpl_make_manifest:
  assumes "two_files os written name tfd mfd w" "written w1 mfd = manifest_bytes q [meta]"
    "length (manifest_bytes q [meta]) \<le> kManifestReserved" "length buf = kManifestReserved"
  shows "DBimpl_make os buf junk_size junk w1 =
    Inr (junk\<lparr>db_writers := [], db_memtable := Memtable_make junk_size, db_immutable_memtable := None,
      db_file_metas := [meta], db_last_sequence := q, db_sstable_number := 1\<rparr>)"
proof -
  have m: "disk_ok os written manifest_name mfd w" and acc: "sys_access os (ascii ''./manifest'') w1 \<longleftrightarrow> written w1 mfd \<noteq> []"
    using assms(1) by (auto simp: two_files_def)
  have "manifest_bytes q [meta] \<noteq> []" by (simp add: manifest_bytes_def)
  moreover have "file_content os (RandomAccessFile_make os manifest_name w1) (manifest_bytes q [meta]) w1"
    using m assms(2) unfolding disk_ok_def by metis
  ultimately show ?thesis using ReadManifest_bytes [OF _ assms(3,4), of os w1] acc assms(2) by (simp add: DBimpl_make_def)
qed


text \<open>A system with a file for each descriptor: 4 for the manifest and 3 for any other name.\<close>

definition files_os :: "(int \<Rightarrow> bytes) posix" where
  "files_os = \<lparr>sys_write = (\<lambda>fd d w. (Wrote (length d), w(fd := w fd @ d))), sys_pread = (\<lambda>fd n off w. Some (take n (drop off (w fd)))),
     sys_open_write = (\<lambda>name w. (if name = manifest_name then 4 else 3, w)), sys_open_read = (\<lambda>name w. if name = manifest_name then 4 else 3),
     sys_access = (\<lambda>name w. w 4 \<noteq> []), sys_unlink = (\<lambda>name w. if name = manifest_name then w(4 := []) else w(3 := [])),
     sys_strerror = (\<lambda>e. []), sys_fuel = kWritableFileBuffer\<rparr>"

lemma files_os_reliable: "length name + 7 < 2 ^ 32 \<Longrightarrow> reliable files_os (\<lambda>w. w) name"
  by (auto simp: reliable_def io_ok_def files_os_def posix_write_def posix_no_interrupt_def)

lemma files_disk:
  assumes "length name + 7 < 2 ^ 32" "w fd = []" "fd = (if name = manifest_name then 4 else 3)"
  shows "disk_ok files_os (\<lambda>w. w) name fd w"
proof -
  have "fst (sys_open_write files_os name w) = fd" "sys_open_read files_os name w' = fd" for w'
    using assms(3) by (simp_all add: files_os_def)
  moreover have "snd (sys_open_write files_os name w) = w" "sys_pread files_os fd n off w' = Some (take n (drop off (w' fd)))" for n off w'
    by (simp_all add: files_os_def)
  ultimately show ?thesis
    using files_os_reliable [OF assms(1)] assms(2,3) by (simp add: disk_ok_def file_content_def RandomAccessFile_make_def prod_eq_iff)
qed

lemma files_two: "two_files files_os (\<lambda>w. w) (sstable_name 1) 3 4 (\<lambda>_. [])"
proof -
  have n: "sstable_name 1 \<noteq> manifest_name" "length (sstable_name 1) + 7 < 2 ^ 32" "length manifest_name + 7 < 2 ^ 32"
    by (simp_all add: sstable_name_def manifest_name_def ascii_def std_to_string.simps)
  have "disk_ok files_os (\<lambda>w. w) (sstable_name 1) 3 (\<lambda>_. [])" by (rule files_disk) (use n in simp_all)
  moreover have "disk_ok files_os (\<lambda>w. w) manifest_name 4 w" if "w 4 = []" for w by (rule files_disk) (use n that in simp_all)
  ultimately show ?thesis by (auto simp: two_files_def files_os_def)
qed

lemma one_dumpable: "dumpable [one_entry]"
proof -
  have "length (block_bytes (map entry_kv [one_entry])) < kBlockSize"
    using length_entry_bytes_le [of "fst (entry_kv one_entry)" "snd (entry_kv one_entry)"]
    by (simp add: kBlockSize_def one_entry_def)
  then show ?thesis using one_entry_key by (simp add: dumpable_def)
qed


end
