(* ===== verification/MemoryBounds.thy ===== *)
theory MemoryBounds
  imports DBImpls
begin

text \<open>How many bytes of keys and values the database holds in memory.\<close>

definition mem_bytes :: "entry list \<Rightarrow> nat" where
  "mem_bytes es = (\<Sum>e\<leftarrow>es. sl_size (entry_key e))"

lemma mem_bytes_insert: "mem_bytes (insert_before entry_rank e es) = sl_size (entry_key e) + mem_bytes es"
proof -
  have app: "mem_bytes (xs @ ys) = mem_bytes xs + mem_bytes ys" for xs ys by (simp add: mem_bytes_def)
  let ?P = "\<lambda>x. entry_rank x < entry_rank e"
  have "mem_bytes (takeWhile ?P es) + mem_bytes (dropWhile ?P es) = mem_bytes es" by (simp flip: app)
  then show ?thesis by (simp add: insert_before_def app mem_bytes_def)
qed

lemma mem_bytes_updates: "mem_bytes (apply_updates q us es) = mem_bytes es + (\<Sum>u\<leftarrow>us. update_size u)"
  by (induction us arbitrary: q es) (auto simp: mem_bytes_insert update_size_entry)

lemma update_size_le: "update_size u \<le> length (update_bytes u) + 17"
proof -
  have c: "length (cut_at_zero k) \<le> length k" for k :: bytes by (rule length_takeWhile_le)
  have v: "1 \<le> length (EncodeVarint32 x)" for x by (simp add: Suc_le_eq)
  show ?thesis
  proof (cases u)
    case (UPut k x)
    then show ?thesis
      using c [of k] c [of x] v [of "word_of_nat (length k)"] v [of "word_of_nat (length x)"]
        length_entry_bytes_le [of "internal_bytes (cut_at_zero k) (make_tag 0 kTypeValue)" "cut_at_zero x"]
      by (simp add: update_size_def mkey_slice_def Slice_buf_def internal_bytes_def)
  next
    case (UDelete k)
    then show ?thesis
      using c [of k] v [of "word_of_nat (length k)"] length_entry_bytes_le [of "internal_bytes (cut_at_zero k) (make_tag 0 kTypeDeletion)" "[32]"]
      by (simp add: update_size_def mkey_slice_def Slice_buf_def internal_bytes_def)
  qed
qed

lemma updates_size_le:
  assumes "batch_rep w q us"
  shows "(\<Sum>u\<leftarrow>us. update_size u) \<le> WriteBatch_Bytes w + 17 * length us"
proof -
  have "(\<Sum>u\<leftarrow>us. update_size u) \<le> (\<Sum>u\<leftarrow>us. length (update_bytes u) + 17)" by (rule sum_list_mono) (rule update_size_le)
  also have "\<dots> = length (concat (map update_bytes us)) + 17 * length us"
    by (simp add: sum_list_addf length_concat comp_def sum_list_triv)
  also have "\<dots> \<le> WriteBatch_Bytes w + 17 * length us" using assms by (simp add: WriteBatch_Bytes_def batch_rep_def batch_bytes_def)
  finally show ?thesis .
qed

text \<open>A memtable whose counter is exact and that has fewer than \<open>limit\<close> bytes.\<close>

definition mem_bounded :: "nat \<Rightarrow> Memtable \<Rightarrow> bool" where
  "mem_bounded limit m \<longleftrightarrow> (\<exists>es. memtable_rep m es \<and> Memtable_EstimatedSize m = mem_bytes es \<and> mem_bytes es < limit)"

definition db_bounded :: "nat \<Rightarrow> DBimpl \<Rightarrow> bool" where
  "db_bounded slack db \<longleftrightarrow>
     mem_bounded (kMaxMemtableSize + slack) (db_memtable db) \<and>
     (\<forall>imm. db_immutable_memtable db = Some imm \<longrightarrow> mem_bounded (kMaxMemtableSize + slack) imm)"

lemma mem_bounded_make: "0 < limit \<Longrightarrow> mem_bounded limit (Memtable_make 0)"
  by (auto simp: mem_bounded_def mem_bytes_def Memtable_EstimatedSize_make intro!: exI [of _ "[]"] Memtable_make_rep)

lemma MakeRoom_bounded:
  assumes "db_bounded slack db" "MakeRoomForWrite 0 db = (True, db', n)"
  shows "db_bounded slack db'" "mem_bounded kMaxMemtableSize (db_memtable db')"
proof -
  have "mem_bounded (kMaxMemtableSize + slack) (Memtable_make 0)" "mem_bounded kMaxMemtableSize (Memtable_make 0)"
    by (rule mem_bounded_make, simp add: kMaxMemtableSize_def)+
  then show "db_bounded slack db'" using assms by (auto simp: MakeRoom_eq db_bounded_def Let_def split: if_splits)
  show "mem_bounded kMaxMemtableSize (db_memtable db')"
    using assms \<open>mem_bounded kMaxMemtableSize (Memtable_make 0)\<close>
    by (auto simp: MakeRoom_eq db_bounded_def mem_bounded_def Let_def split: if_splits)
qed

lemma Write_group_alone:
  assumes "db_writers db = [Writer_make self w]" "batch_rep w q us" "WriteBatch_Bytes w \<le> 2 ^ 17"
    "Write_group rand self r db = Inr (r', woken, db')"
  shows "\<exists>w' m. batch_rep w' (db_last_sequence db) us \<and> WriteBatch_InsertAll rand w' r (db_memtable db) = Inr (r', m) \<and>
    db' = db\<lparr>db_last_sequence := db_last_sequence db + word_of_int (int (length us)), db_memtable := m, db_writers := []\<rparr>"
proof -
  obtain w' where w': "WriteBatch_SetSequence w (db_last_sequence db) = Inr w'" "batch_rep w' (db_last_sequence db) us"
    using batch_rep_SetSequence [OF assms(2)] by blast
  have grp: "BuildWriteBatchGroup db = Inr (w, self, db\<lparr>db_writers := [Writer_make self w]\<rparr>)"
    by (simp add: BuildWriteBatchGroup_def assms(1) Let_def, simp add: Writer_make_def)
  obtain m where m: "WriteBatch_InsertAll rand w' r (db_memtable db) = Inr (r', m)"
    "db' = db\<lparr>db_last_sequence := db_last_sequence db + word_of_int (int (length us)), db_memtable := m, db_writers := []\<rparr>"
  proof (cases "WriteBatch_InsertAll rand w' r (db_memtable db)")
    case (Inr x)
    then show thesis
      using that assms(1,4) grp w'(1) batch_Count [OF w'(2)] by (cases x) (simp add: Write_group_def Writer_make_def)
  qed (use assms(4) grp w'(1) batch_Count [OF w'(2)] in \<open>simp add: Write_group_def\<close>)
  then show ?thesis using w'(2) by blast
qed

section \<open>Properties\<close>



end
