(* ===== verification/DBShutdown.thy ===== *)
theory DBShutdown
  imports DBThreads DBRestart MemoryBounds
begin

text \<open>
  The end of a database object (\<^verbatim>\<open>DBimpl::~DBimpl\<close> in \<^verbatim>\<open>db_impl.cc\<close>) among its threads. The destructor takes \<^verbatim>\<open>rwlock_\<close>, waits while
  a compaction is marked as scheduled, without releasing the lock, and then writes the memtable and the manifest without
  the lock. The compaction threads are detached; nothing joins them.
\<close>

text \<open>The object is in use, its destructor waits for the mark, is after the wait, or has returned.\<close>

datatype dtor = Alive | Waiting | Closing | Gone

record ('r, 'w) lifetime =
  lt_sys :: "('r, 'w) system"
  lt_dtor :: dtor
  lt_fault :: "err option"

definition life_start :: "DBimpl \<Rightarrow> 'r \<Rightarrow> 'w \<Rightarrow> ('r, 'w) lifetime" where
  "life_start db r w = \<lparr>lt_sys = sys_start db r w, lt_dtor = Alive, lt_fault = None\<rparr>"

text \<open>The owner destroys the object when no client is in a call.\<close>

definition no_client :: "('r, 'w) system \<Rightarrow> bool" where
  "no_client s \<longleftrightarrow> (\<forall>th\<in>set (sy_threads s). th_pc th = Written \<or> th_pc th = WantCompact \<or> th_pc th = Compacted)"

text \<open>The part under the lock; in the wait the lock is held by a thread that is none of the others.\<close>

definition dtor_lock :: "('r, 'w) lifetime \<Rightarrow> ('r, 'w) lifetime" where
  "dtor_lock l =
     (let s = lt_sys l; s = s\<lparr>sy_db := (sy_db s)\<lparr>db_shutting_down := True\<rparr>\<rparr> in
      if db_background_compaction_schedule (sy_db s)
      then l\<lparr>lt_sys := s\<lparr>sy_rwlock := Some (length (sy_threads s))\<rparr>, lt_dtor := Waiting\<rparr>
      else l\<lparr>lt_sys := s, lt_dtor := Closing\<rparr>)"

text \<open>The wait ends when the mark is gone, and the lock is released.\<close>

definition dtor_woken :: "('r, 'w) lifetime \<Rightarrow> ('r, 'w) lifetime" where
  "dtor_woken l =
     (if db_background_compaction_schedule (sy_db (lt_sys l)) then l
      else l\<lparr>lt_sys := (lt_sys l)\<lparr>sy_rwlock := None\<rparr>, lt_dtor := Closing\<rparr>)"

text \<open>The rest, without the lock.\<close>

definition dtor_rest :: "'w posix \<Rightarrow> bytes \<Rightarrow> ('r, 'w) lifetime \<Rightarrow> ('r, 'w) lifetime res" where
  "dtor_rest os buf l =
     (let s = lt_sys l; db = (sy_db s)\<lparr>db_immutable_memtable := Some (db_memtable (sy_db s))\<rparr> in
      rbind (CompactMemtable os buf db (sy_disk s)) (\<lambda>(_, db, w).
      let db = db\<lparr>db_immutable_memtable := None\<rparr> in
      rbind (DumpManifest os buf db w) (\<lambda>w. Inr (l\<lparr>lt_sys := s\<lparr>sy_db := db, sy_disk := w\<rparr>, lt_dtor := Gone\<rparr>))))"

inductive life_step :: "('r \<Rightarrow> nat \<times> 'r) \<Rightarrow> 'w posix \<Rightarrow> ('r, 'w) lifetime \<Rightarrow> ('r, 'w) lifetime \<Rightarrow> bool" for rand os where
  run: "lt_fault l = None \<Longrightarrow> lt_dtor l = Alive \<Longrightarrow> sys_step rand os (lt_sys l) s \<Longrightarrow> life_step rand os l (l\<lparr>lt_sys := s\<rparr>)"
| lock: "lt_fault l = None \<Longrightarrow> lt_dtor l = Alive \<Longrightarrow> sy_rwlock (lt_sys l) = None \<Longrightarrow> no_client (lt_sys l) \<Longrightarrow>
    life_step rand os l (dtor_lock l)"
| woken: "lt_fault l = None \<Longrightarrow> lt_dtor l = Waiting \<Longrightarrow> life_step rand os l (dtor_woken l)"
| compact: "lt_fault l = None \<Longrightarrow> lt_dtor l = Waiting \<or> lt_dtor l = Closing \<Longrightarrow> t < length (sy_threads (lt_sys l)) \<Longrightarrow>
    th_pc (sy_threads (lt_sys l) ! t) = WantCompact \<Longrightarrow> sy_rwlock (lt_sys l) = None \<Longrightarrow> Compact_call os buf t (lt_sys l) = Inr s \<Longrightarrow>
    life_step rand os l (l\<lparr>lt_sys := s\<rparr>)"
| rest: "lt_fault l = None \<Longrightarrow> lt_dtor l = Closing \<Longrightarrow> dtor_rest os buf l = Inr l' \<Longrightarrow> life_step rand os l l'"
| late: "lt_fault l = None \<Longrightarrow> lt_dtor l = Gone \<Longrightarrow> t < length (sy_threads (lt_sys l)) \<Longrightarrow>
    th_pc (sy_threads (lt_sys l) ! t) = WantCompact \<Longrightarrow> life_step rand os l (l\<lparr>lt_fault := Some UseAfterFree\<rparr>)"

inductive_cases life_stepE: "life_step rand os l l'"

section \<open>The mark of a scheduled compaction\<close>

lemma Write_group_flag:
  "Write_group rand t r db = Inr (r', woken, db') \<Longrightarrow> db_background_compaction_schedule db' = db_background_compaction_schedule db"
  by (auto simp: Write_group_def BuildWriteBatchGroup_def Let_def split: list.split_asm)

lemma MakeRoom_flag:
  "MakeRoomForWrite junk db = (room, db', n) \<Longrightarrow> db_background_compaction_schedule db' = db_background_compaction_schedule db"
  by (auto simp: MakeRoom_eq Let_def split: if_splits)

lemma sys_step_flag:
  assumes "sys_step rand os s s'" "\<not> db_background_compaction_schedule (sy_db s)"
  shows "\<not> db_background_compaction_schedule (sy_db s')"
  using assms
proof (induction rule: sys_step.induct)
  case (room t s junk)
  obtain r db n where "MakeRoomForWrite junk (sy_db s) = (r, db, n)" by (metis prod_cases3)
  then show ?case using room MakeRoom_flag by (auto simp: Write_room_def)
next
  case (commit t s s')
  then show ?case using Write_group_flag by (fastforce simp: Write_commit_def)
qed (auto simp: Write_enter_def Write_woken_def Compact_call_def BackGroundCall_def Let_def)

lemma CompactMemtable_flag:
  "CompactMemtable os buf db w = Inr (st, db', w') \<Longrightarrow> db_background_compaction_schedule db' = db_background_compaction_schedule db"
  by (cases "db_immutable_memtable db") (auto simp: CompactMemtable_def Let_def split: if_splits)

text \<open>Nothing sets the mark, so the destructor does not wait.\<close>

definition unmarked :: "('r, 'w) lifetime \<Rightarrow> bool" where
  "unmarked l \<longleftrightarrow> lt_dtor l \<noteq> Waiting \<and> \<not> db_background_compaction_schedule (sy_db (lt_sys l))"

lemma unmarked_step:
  assumes "life_step rand os l l'" "unmarked l"
  shows "unmarked l'"
  using assms
proof (induction rule: life_step.induct)
  case (run l s)
  then show ?case using sys_step_flag by (auto simp: unmarked_def)
next
  case (rest l buf l')
  then show ?case using CompactMemtable_flag by (fastforce simp: unmarked_def dtor_rest_def Let_def)
qed (auto simp: unmarked_def dtor_lock_def dtor_woken_def Compact_call_def BackGroundCall_def Let_def)

text \<open>A destructor that finds the mark set holds the lock that the compaction needs to remove it.\<close>

definition waits_marked :: "('r, 'w) lifetime \<Rightarrow> bool" where
  "waits_marked l \<longleftrightarrow> lt_dtor l = Waiting \<and> db_background_compaction_schedule (sy_db (lt_sys l)) \<and> sy_rwlock (lt_sys l) \<noteq> None"

lemma waits_marked_step: "life_step rand os l l' \<Longrightarrow> waits_marked l \<Longrightarrow> waits_marked l'"
  by (induction rule: life_step.induct) (auto simp: waits_marked_def dtor_woken_def)

interpretation no_wait: invariant_system unmarked "life_step rand os" unmarked
  by unfold_locales (auto intro: unmarked_step)

interpretation wait_forever: invariant_system waits_marked "life_step rand os" waits_marked
  by unfold_locales (auto intro: waits_marked_step)

lemma dtor_rest_destroy:
  assumes "DBimpl_destroy os buf (sy_db (lt_sys l)) (sy_disk (lt_sys l)) = Inr (Some (db', w'))"
  shows "lt_dtor (dtor_lock l) = Closing \<and>
    dtor_rest os buf (dtor_lock l) = Inr (l\<lparr>lt_sys := (lt_sys l)\<lparr>sy_db := db', sy_disk := w'\<rparr>, lt_dtor := Gone\<rparr>)"
proof -
  have f: "\<not> db_background_compaction_schedule (sy_db (lt_sys l))" using assms by (auto simp: DBimpl_destroy_def Let_def split: if_splits)
  then have l: "dtor_lock l = l\<lparr>lt_sys := (lt_sys l)\<lparr>sy_db := (sy_db (lt_sys l))\<lparr>db_shutting_down := True\<rparr>\<rparr>, lt_dtor := Closing\<rparr>"
    by (simp add: dtor_lock_def Let_def)
  show ?thesis unfolding l using assms f by (auto simp: DBimpl_destroy_def dtor_rest_def Let_def)
qed

section \<open>Properties\<close>

text \<open>C17: the destructor and a compaction thread that has not run yet. Nothing ever marks a compaction as scheduled: in a
  database whose mark starts unset the destructor does not wait for the thread, and the thread uses
  the object after the destructor has returned. In one whose mark, which the constructor does not
  set, happens to be there, the destructor waits for ever, with the lock that the thread needs.\<close>

theorem destructor_and_compaction:
  assumes "(life_step rand os)\<^sup>*\<^sup>* (life_start db r w) l" "lt_fault l = None" "lt_dtor l = Alive" "sy_rwlock (lt_sys l) = None"
    "no_client (lt_sys l)" "t < length (sy_threads (lt_sys l))" "th_pc (sy_threads (lt_sys l) ! t) = WantCompact"
    "DBimpl_destroy os buf (sy_db (lt_sys l)) (sy_disk (lt_sys l)) = Inr x"
  shows "case x of
      None \<Rightarrow> db_background_compaction_schedule db \<and> (\<forall>l'. (life_step rand os)\<^sup>*\<^sup>* (dtor_lock l) l' \<longrightarrow> lt_dtor l' = Waiting)
    | Some (db', w') \<Rightarrow> \<exists>l'. (life_step rand os)\<^sup>*\<^sup>* l l' \<and> lt_fault l' = Some UseAfterFree \<and> lt_dtor l' = Gone \<and> sy_db (lt_sys l') = db'"
proof (cases x)
  case None
  then have m: "db_background_compaction_schedule (sy_db (lt_sys l))" using assms(8) by (auto simp: DBimpl_destroy_def Let_def split: if_splits)
  have "waits_marked (dtor_lock l)" using m by (simp add: waits_marked_def dtor_lock_def Let_def)
  then have "(life_step rand os)\<^sup>*\<^sup>* (dtor_lock l) l' \<Longrightarrow> lt_dtor l' = Waiting" for l'
    using wait_forever.inv_steps [of rand os "dtor_lock l" l'] by (simp add: waits_marked_def)
  moreover have "db_background_compaction_schedule db"
  proof (rule ccontr)
    assume "\<not> db_background_compaction_schedule db"
    then have "unmarked (life_start db r w)" by (simp add: unmarked_def life_start_def sys_start_def)
    then show False using no_wait.reachable_inv [OF _ assms(1)] m by (simp add: unmarked_def)
  qed
  ultimately show ?thesis using None by simp
next
  case (Some y)
  obtain db' w' where y: "y = (db', w')" by fastforce
  let ?gone = "l\<lparr>lt_sys := (lt_sys l)\<lparr>sy_db := db', sy_disk := w'\<rparr>, lt_dtor := Gone\<rparr>"
  have d: "lt_dtor (dtor_lock l) = Closing" "dtor_rest os buf (dtor_lock l) = Inr ?gone"
    using dtor_rest_destroy [of os buf l db' w'] assms(8) Some y by simp_all
  have "lt_fault (dtor_lock l) = None" using assms(2) by (simp add: dtor_lock_def Let_def)
  then have "life_step rand os l (dtor_lock l)" "life_step rand os (dtor_lock l) ?gone"
    using life_step.lock [OF assms(2-5), of rand os] life_step.rest [OF _ d, of rand] by simp_all
  moreover have "life_step rand os ?gone (?gone\<lparr>lt_fault := Some UseAfterFree\<rparr>)"
    by (rule life_step.late [of _ t]) (use assms(2,6,7) in simp_all)
  ultimately have "(life_step rand os)\<^sup>*\<^sup>* l (?gone\<lparr>lt_fault := Some UseAfterFree\<rparr>)"
    by (meson rtranclp.rtrancl_refl rtranclp.rtrancl_into_rtrancl)
  then show ?thesis using Some y by (auto intro!: exI [of _ "?gone\<lparr>lt_fault := Some UseAfterFree\<rparr>"])
qed

lemma life_runs:
  assumes "(sys_step rand os)\<^sup>*\<^sup>* s s'"
  shows "(life_step rand os)\<^sup>*\<^sup>* \<lparr>lt_sys = s, lt_dtor = Alive, lt_fault = None\<rparr> \<lparr>lt_sys = s', lt_dtor = Alive, lt_fault = None\<rparr>"
  using assms
proof (induction rule: rtranclp_induct)
  case (step s1 s2)
  have "life_step rand os \<lparr>lt_sys = s1, lt_dtor = Alive, lt_fault = None\<rparr> \<lparr>lt_sys = s2, lt_dtor = Alive, lt_fault = None\<rparr>"
    using life_step.run [of "\<lparr>lt_sys = s1, lt_dtor = Alive, lt_fault = None\<rparr>" rand os s2] step.hyps(2) by simp
  then show ?case using step.IH by simp
qed simp

text \<open>A client that puts one key into a database whose memtable counts as full: the memtable is set aside.\<close>

definition long_put :: update where
  "long_put = UPut (replicate 8 97) [98]"

definition long_batch :: WriteBatch where
  "long_batch = \<lparr>wb_rep = batch_bytes 0 [long_put]\<rparr>"

definition full_db :: DBimpl where
  "full_db = fresh_db\<lparr>db_memtable := Memtable_make 4096\<rparr>"

definition aside_db :: DBimpl where
  "aside_db = fresh_db\<lparr>db_writers := [Writer_make 0 long_batch], db_immutable_memtable := Some (Memtable_make 4096)\<rparr>"

definition long_entry :: entry where
  "long_entry = update_entry 2 long_put"

lemma long_batch_rep: "batch_rep long_batch 0 [long_put]" "WriteBatch_Bytes long_batch \<le> 2 ^ 17"
  by (simp_all add: long_batch_def long_put_def batch_rep_def batch_bytes_def mkey_fits_def EncodeVarint32.simps WriteBatch_Bytes_def)

lemma aside_commit:
  "\<exists>r m. Write_group (\<lambda>n. (n, n + 1)) 0 (0::nat) aside_db = Inr (r, [], aside_db\<lparr>db_last_sequence := 2, db_memtable := m, db_writers := []\<rparr>) \<and>
     memtable_rep m [long_entry]"
proof -
  have rep: "db_rep aside_db Map.empty"
    using mem_state_make [of 0 1] mem_state_make [of 4096 1] by (auto simp: db_rep_def aside_db_def fresh_db_def)
  have ws: "db_writers aside_db = [Writer_make 0 long_batch]" by (simp add: aside_db_def)
  obtain r db' where g: "Write_group (\<lambda>n. (n, n + 1)) 0 (0::nat) aside_db = Inr (r, [], db')"
    using Write_group_followers [OF rep ws, of 0 "[long_put]" "\<lambda>n. (n, n + 1)" "0::nat"] long_batch_rep
    by (auto simp: Writer_make_def aside_db_def fresh_db_def)
  obtain w' m where m: "batch_rep w' (db_last_sequence aside_db) [long_put]"
    "WriteBatch_InsertAll (\<lambda>n. (n, n + 1)) w' 0 (db_memtable aside_db) = Inr (r, m)"
    "db' = aside_db\<lparr>db_last_sequence := db_last_sequence aside_db + word_of_int (int (length [long_put])), db_memtable := m, db_writers := []\<rparr>"
    using Write_group_alone [OF ws long_batch_rep g] by blast
  have "memtable_rep (db_memtable aside_db) []" by (simp add: aside_db_def fresh_db_def Memtable_make_rep)
  from InsertAll_rep [OF m(1) this, of "\<lambda>n. (n, n + 1)" 0] m(2)
  have "memtable_rep m (apply_updates (db_last_sequence aside_db) [long_put] [])" by auto
  then have "memtable_rep m [long_entry]" by (simp add: aside_db_def fresh_db_def insert_before_def long_entry_def)
  moreover have "db' = aside_db\<lparr>db_last_sequence := 2, db_memtable := m, db_writers := []\<rparr>" using m(3) by (simp add: aside_db_def fresh_db_def)
  ultimately show ?thesis using g by auto
qed

lemma long_put_run:
  "\<exists>s m. (sys_step (\<lambda>n. (n, n + 1)) files_os)\<^sup>*\<^sup>* (sys_start full_db 0 (\<lambda>_. [])) s \<and> sy_rwlock s = None \<and> no_client s \<and>
     length (sy_threads s) = 2 \<and> th_pc (sy_threads s ! 1) = WantCompact \<and> sy_disk s = (\<lambda>_. []) \<and> memtable_rep m [long_entry] \<and>
     sy_db s = aside_db\<lparr>db_last_sequence := 2, db_memtable := m, db_writers := []\<rparr>"
proof -
  let ?step = "sys_step (\<lambda>n. (n, n + 1)) files_os :: (nat, int \<Rightarrow> bytes) system \<Rightarrow> _" and ?th = "writer_thread long_batch [long_put]"
  let ?s0 = "sys_start full_db (0::nat) (\<lambda>_::int. [] :: bytes)"
  let ?s1 = "?s0\<lparr>sy_threads := [?th]\<rparr>"
  let ?s2 = "Write_enter 0 ?s1" and ?s3 = "?s0\<lparr>sy_db := aside_db, sy_rwlock := Some 0, sy_threads := [?th\<lparr>th_pc := InGroup\<rparr>, compaction_thread]\<rparr>"
  have 1: "?step ?s0 ?s1" using sys_step.call [OF long_batch_rep, of "\<lambda>n. (n, n + 1)" files_os ?s0] by (simp add: sys_start_def)
  have 2: "?step ?s1 ?s2" by (rule sys_step.enter) (simp_all add: sys_start_def writer_thread_def)
  have "Write_room 0 0 ?s2 = ?s3"
    by (simp add: Write_room_def Write_enter_def sys_start_def full_db_def aside_db_def fresh_db_def writer_thread_def Writer_make_def set_pc_def
        MakeRoom_eq Memtable_EstimatedSize_make kMaxMemtableSize_def MaybeScheduleCompaction_def Let_def)
  moreover have "?step ?s2 (Write_room 0 0 ?s2)"
    by (rule sys_step.room) (simp_all add: sys_start_def full_db_def fresh_db_def writer_thread_def Write_enter_def Writer_make_def)
  ultimately have 3: "?step ?s2 ?s3" by simp
  obtain r m where m: "Write_group (\<lambda>n. (n, n + 1)) 0 (0::nat) aside_db = Inr (r, [], aside_db\<lparr>db_last_sequence := 2, db_memtable := m, db_writers := []\<rparr>)"
    "memtable_rep m [long_entry]"
    using aside_commit by blast
  let ?s4 = "?s3\<lparr>sy_db := aside_db\<lparr>db_last_sequence := 2, db_memtable := m, db_writers := []\<rparr>, sy_rwlock := None, sy_rand := r,
    sy_committed := [0], sy_threads := [?th\<lparr>th_pc := Written\<rparr>, compaction_thread]\<rparr>"
  have "Write_commit (\<lambda>n. (n, n + 1)) 0 ?s3 = Inr ?s4" using m(1) by (simp add: Write_commit_def sys_start_def set_pc_def)
  then have "?step ?s3 ?s4" by (intro sys_step.commit [of 0]) simp_all
  then have "?step\<^sup>*\<^sup>* ?s0 ?s4" using 1 2 3 by (meson rtranclp.rtrancl_refl rtranclp.rtrancl_into_rtrancl)
  moreover have "no_client ?s4" by (simp add: no_client_def)
  ultimately show ?thesis using m(2) by (intro exI [of _ ?s4] exI [of _ m]) (simp add: sys_start_def)
qed

lemma long_entry_tag: "long_entry = (replicate 8 97, 513, [98])"
proof -
  have "cut_at_zero (replicate 8 97) = replicate 8 97" "cut_at_zero [98] = [98]" by (simp_all add: replicate_8)
  moreover have "make_tag 2 kTypeValue = 513" by (simp add: make_tag_def)
  ultimately show ?thesis by (simp add: long_entry_def long_put_def)
qed

lemma long_dumpable: "dumpable [long_entry]" "\<forall>e\<in>set [long_entry]. length (fst (entry_kv e)) \<le> 2000"
proof -
  have "8 \<le> length (cut_at_zero (fst (entry_kv long_entry)))" "0 \<in> set (fst (entry_kv long_entry))"
    by (simp_all add: long_entry_tag replicate_8 internal_bytes_def EncodeFixed64_def)
  moreover have "length (block_bytes (map entry_kv [long_entry])) < kBlockSize"
    using length_entry_bytes_le [of "fst (entry_kv long_entry)" "snd (entry_kv long_entry)"] by (simp add: kBlockSize_def long_entry_tag)
  ultimately show "dumpable [long_entry]" by (simp add: dumpable_def)
qed (simp add: long_entry_tag)

theorem destructor_and_compaction_witness:
  "\<exists>l. (life_step (\<lambda>n. (n, n + 1)) files_os)\<^sup>*\<^sup>* (life_start full_db 0 (\<lambda>_. [])) l \<and> lt_fault l = Some UseAfterFree \<and> lt_dtor l = Gone"
proof -
  obtain s m where s: "(sys_step (\<lambda>n. (n, n + 1)) files_os)\<^sup>*\<^sup>* (sys_start full_db 0 (\<lambda>_. [])) s" "sy_rwlock s = None" "no_client s"
    "length (sy_threads s) = 2" "th_pc (sy_threads s ! 1) = WantCompact" "sy_disk s = (\<lambda>_. [])" "memtable_rep m [long_entry]"
    "sy_db s = aside_db\<lparr>db_last_sequence := 2, db_memtable := m, db_writers := []\<rparr>"
    using long_put_run by blast
  let ?l = "\<lparr>lt_sys = s, lt_dtor = Alive, lt_fault = None\<rparr>" and ?buf = "replicate kWritableFileBuffer 0"
  have reach: "(life_step (\<lambda>n. (n, n + 1)) files_os)\<^sup>*\<^sup>* (life_start full_db 0 (\<lambda>_. [])) ?l"
    using life_runs [OF s(1)] by (simp add: life_start_def)
  have u: "entries_upto [long_entry] 2" "(2::u64) < max_seq"
    by (simp_all add: entries_upto_def long_entry_tag max_seq_def mask_eq_exp_minus_1)
  have q: "\<not> db_background_compaction_schedule (sy_db s)" "memtable_rep (db_memtable (sy_db s)) [long_entry]"
    "entries_upto [long_entry] (db_last_sequence (sy_db s))" "db_last_sequence (sy_db s) < max_seq" "db_last_sequence (sy_db s) \<noteq> 0"
    "dumpable [long_entry]" "\<forall>e\<in>set [long_entry]. length (fst (entry_kv e)) \<le> 2000" "db_file_metas (sy_db s) = []"
    "two_files files_os (\<lambda>w. w) (sstable_name (db_sstable_number (sy_db s))) 3 4 (sy_disk s)" "length ?buf = kWritableFileBuffer"
    using s(6-8) u long_dumpable files_two by (simp_all add: aside_db_def fresh_db_def)
  obtain db1 w1 where d: "DBimpl_destroy files_os ?buf (sy_db s) (sy_disk s) = Inr (Some (db1, w1))"
    by (rule DBimpl_destroy_files [OF q])
  show ?thesis
    using destructor_and_compaction [OF reach, of 1 ?buf "Some (db1, w1)"] s(2-5) d reach by (auto intro: rtranclp_trans)
qed

end
