(* ===== verification/Sockets.thy ===== *)
theory Sockets
  imports Servers
begin

text \<open>
  The sockets of the server: the helpers of \<^verbatim>\<open>network/helper.cc\<close>, \<^verbatim>\<open>print_client_info\<close> of \<^verbatim>\<open>network/parser.cpp\<close>, and the part
  of \<^verbatim>\<open>main.cc\<close> that sets up the listening socket and handles the events.

  The calls of the system are functions over a state of the world; flags are 32-bit words with the values of
  the system's headers.
\<close>

definition EPOLLIN :: u32 where
  "EPOLLIN = 1"

definition EPOLLERR :: u32 where
  "EPOLLERR = 8"

definition EPOLLET :: u32 where
  "EPOLLET = push_bit 31 1"

definition O_NONBLOCK :: u32 where
  "O_NONBLOCK = 2048"

datatype epoll_op = EPOLL_CTL_ADD | EPOLL_CTL_DEL | EPOLL_CTL_MOD

record epoll_event =
  ev_events :: u32
  ev_fd :: int

text \<open>
  \<open>net_getfl\<close> and \<open>net_setfl\<close> are the two uses of \<^verbatim>\<open>fcntl\<close>; \<open>net_nameinfo\<close> gives the host and the port of the peer
  of a connection, \<open>net_port\<close> binds to a port of any address.
\<close>

record 'w net =
  net_socket :: "'w \<Rightarrow> int \<times> 'w"
  net_port :: "int \<Rightarrow> nat \<Rightarrow> 'w \<Rightarrow> 'w"
  net_listen :: "int \<Rightarrow> nat \<Rightarrow> 'w \<Rightarrow> 'w"
  net_accept :: "int \<Rightarrow> 'w \<Rightarrow> int \<times> 'w"
  net_getfl :: "int \<Rightarrow> 'w \<Rightarrow> int"
  net_setfl :: "int \<Rightarrow> u32 \<Rightarrow> 'w \<Rightarrow> 'w"
  net_epoll_create :: "nat \<Rightarrow> 'w \<Rightarrow> int \<times> 'w"
  net_epoll_ctl :: "int \<Rightarrow> epoll_op \<Rightarrow> int \<Rightarrow> epoll_event \<Rightarrow> 'w \<Rightarrow> 'w"
  net_nameinfo :: "int \<Rightarrow> 'w \<Rightarrow> bytes \<times> bytes"

section \<open>Helpers\<close>

definition set_non_block :: "'w net \<Rightarrow> int \<Rightarrow> 'w \<Rightarrow> 'w" where
  "set_non_block net fd w =
     (let flags = net_getfl net fd w in
      if flags < 0 then w else net_setfl net fd (word_of_int flags OR O_NONBLOCK) w)"

definition create_event :: "'w net \<Rightarrow> int \<Rightarrow> int \<Rightarrow> u32 \<Rightarrow> 'w \<Rightarrow> 'w" where
  "create_event net epoll_fd fd state w = net_epoll_ctl net epoll_fd EPOLL_CTL_ADD fd \<lparr>ev_events = state, ev_fd = fd\<rparr> w"

definition delete_event :: "'w net \<Rightarrow> int \<Rightarrow> int \<Rightarrow> u32 \<Rightarrow> 'w \<Rightarrow> 'w" where
  "delete_event net epoll_fd fd state w = net_epoll_ctl net epoll_fd EPOLL_CTL_DEL fd \<lparr>ev_events = state, ev_fd = fd\<rparr> w"

definition modify_event :: "'w net \<Rightarrow> int \<Rightarrow> int \<Rightarrow> u32 \<Rightarrow> 'w \<Rightarrow> 'w" where
  "modify_event net epoll_fd fd state w = net_epoll_ctl net epoll_fd EPOLL_CTL_MOD fd \<lparr>ev_events = state, ev_fd = fd\<rparr> w"

text \<open>The line that is logged for a new connection.\<close>

definition print_client_info :: "'w net \<Rightarrow> int \<Rightarrow> 'w \<Rightarrow> bytes" where
  "print_client_info net conn_fd w =
     (case net_nameinfo net conn_fd w of (host_name, host_port) \<Rightarrow>
        ascii ''Received Request from: '' @ host_name @ ascii '', port: '' @ host_port @ ascii '' '' @ [10])"

section \<open>The main thread\<close>

definition FD_SIZE :: nat where
  "FD_SIZE = 1024"

definition server_port :: nat where
  "server_port = 8096"

text \<open>The results of \<^verbatim>\<open>bind\<close> and \<^verbatim>\<open>listen\<close> are not looked at. The result has the descriptors for listening and for \<^verbatim>\<open>epoll\<close>.\<close>

definition main_setup :: "'w net \<Rightarrow> 'w \<Rightarrow> int \<times> int \<times> 'w" where
  "main_setup net w =
     (let (listen_fd, w) = net_socket net w;
          w = net_port net listen_fd server_port w;
          w = net_listen net listen_fd thread_pool_size w;
          (epoll_fd, w) = net_epoll_create net FD_SIZE w;
          w = create_event net epoll_fd listen_fd EPOLLIN w in
      (listen_fd, epoll_fd, w))"

text \<open>One event in the body of the loop: the calls of the system and the change of the server's state.\<close>

definition main_dispatch ::
  "'w net \<Rightarrow> int \<Rightarrow> int \<Rightarrow> epoll_event \<Rightarrow> 'r server \<Rightarrow> 'w \<Rightarrow> 'r server \<times> 'w" where
  "main_dispatch net listen_fd epoll_fd e s w =
     (let fd = ev_fd e; ev = ev_events e in
      if fd = listen_fd \<and> ev AND (EPOLLIN OR EPOLLERR) \<noteq> 0 then
        let (conn_fd, w) = net_accept net listen_fd w;
            s = main_event listen_fd fd (ev AND EPOLLIN \<noteq> 0) (ev AND EPOLLERR \<noteq> 0) conn_fd s in
        if conn_fd \<noteq> -1 then
          (s, create_event net epoll_fd conn_fd (EPOLLIN OR EPOLLET) (set_non_block net conn_fd w))
        else (s, w)
      else (main_event listen_fd fd (ev AND EPOLLIN \<noteq> 0) (ev AND EPOLLERR \<noteq> 0) (-1) s, w))"

fun main_round :: "'w net \<Rightarrow> int \<Rightarrow> int \<Rightarrow> epoll_event list \<Rightarrow> 'r server \<Rightarrow> 'w \<Rightarrow> 'r server \<times> 'w" where
  "main_round net listen_fd epoll_fd [] s w = (s, w)"
| "main_round net listen_fd epoll_fd (e # es) s w =
     (case main_dispatch net listen_fd epoll_fd e s w of (s, w) \<Rightarrow> main_round net listen_fd epoll_fd es s w)"

section \<open>Registered descriptors\<close>

text \<open>
  What \<^verbatim>\<open>epoll\<close> and \<^verbatim>\<open>accept\<close> document: \<open>interest w\<close> has the registered descriptors with their events. Adding a
  descriptor that is not registered registers it, adding one that is fails and changes nothing; no other call
  here changes the registrations. A connection has a descriptor that is in use by nothing else, in particular
  it is not registered; descriptors are not negative.
\<close>

definition epoll_doc :: "'w net \<Rightarrow> ('w \<Rightarrow> int \<rightharpoonup> u32) \<Rightarrow> bool" where
  "epoll_doc net interest \<longleftrightarrow>
     (\<forall>epfd fd e w. interest (net_epoll_ctl net epfd EPOLL_CTL_ADD fd e w) =
        (if interest w fd = None then (interest w)(fd \<mapsto> ev_events e) else interest w)) \<and>
     (\<forall>fd w. interest (snd (net_accept net fd w)) = interest w \<and>
        (fst (net_accept net fd w) \<noteq> -1 \<longrightarrow> interest w (fst (net_accept net fd w)) = None)) \<and>
     (\<forall>fd fl w. interest (net_setfl net fd fl w) = interest w) \<and>
     (\<forall>w. interest (snd (net_socket net w)) = interest w \<and> interest w (fst (net_socket net w)) = None) \<and>
     (\<forall>fd port w. interest (net_port net fd port w) = interest w) \<and> (\<forall>fd n w. interest (net_listen net fd n w) = interest w) \<and>
     (\<forall>n w. interest (snd (net_epoll_create net n w)) = interest w)"

text \<open>The listening socket is registered, and so is every descriptor that has a connection object, for edge-triggered input.\<close>

definition registered :: "(int \<rightharpoonup> u32) \<Rightarrow> int \<Rightarrow> 'r server \<Rightarrow> bool" where
  "registered reg listen_fd s \<longleftrightarrow>
     reg listen_fd = Some EPOLLIN \<and>
     (\<forall>fd a. sv_connection_storage s fd = Some (Some a) \<longrightarrow> reg fd = Some (EPOLLIN OR EPOLLET))"

lemma set_non_block_interest: "epoll_doc net interest \<Longrightarrow> interest (set_non_block net fd w) = interest w"
  by (simp add: epoll_doc_def set_non_block_def Let_def)

lemma create_event_interest:
  "epoll_doc net interest \<Longrightarrow>
     interest (create_event net epfd fd st w) = (if interest w fd = None then (interest w)(fd \<mapsto> st) else interest w)"
  by (simp add: epoll_doc_def create_event_def)

lemma main_event_other:
  assumes "accepted = -1 \<or> fd \<noteq> listen_fd"
  shows "sv_connection_storage (main_event listen_fd fd i e accepted s) fd' = Some (Some a) \<longleftrightarrow> sv_connection_storage s fd' = Some (Some a)"
  using assms by (auto simp: main_event_def hashmap_get_def Let_def split: option.splits if_splits)

lemma main_dispatch_registered:
  assumes net: "epoll_doc net interest" and reg: "registered (interest w) listen_fd s"
    and run: "main_dispatch net listen_fd epoll_fd e s w = (s', w')"
  shows "registered (interest w') listen_fd s'"
proof (cases "ev_fd e = listen_fd \<and> ev_events e AND (EPOLLIN OR EPOLLERR) \<noteq> 0")
  case True
  obtain conn_fd w1 where acc: "net_accept net listen_fd w = (conn_fd, w1)" by fastforce
  have w1: "interest w1 = interest w" "conn_fd \<noteq> -1 \<longrightarrow> interest w conn_fd = None"
    using net acc unfolding epoll_doc_def by (metis snd_conv, metis fst_conv)
  show ?thesis
  proof (cases "conn_fd = -1")
    case False
    have bits: "ev_events e AND EPOLLIN \<noteq> 0 \<or> ev_events e AND EPOLLERR \<noteq> 0"
      using True by (metis bit.conj_disj_distrib or.right_neutral)
    have "w' = create_event net epoll_fd conn_fd (EPOLLIN OR EPOLLET) (set_non_block net conn_fd w1)"
      "sv_connection_storage s' = (sv_connection_storage s)(conn_fd \<mapsto> Some (length (sv_heap s)))"
      using run True acc False bits by (auto simp: main_dispatch_def main_event_def hashmap_set_def hashmap_erase_eq Let_def)
    moreover have "conn_fd \<noteq> listen_fd" using w1(2) False reg by (auto simp: registered_def)
    ultimately show ?thesis
      using reg w1 False by (auto simp: registered_def create_event_interest [OF net] set_non_block_interest [OF net])
  next
    case none: True
    then have "w' = w1" "s' = main_event listen_fd listen_fd (ev_events e AND EPOLLIN \<noteq> 0) (ev_events e AND EPOLLERR \<noteq> 0) (-1) s"
      using run True acc by (simp_all add: main_dispatch_def Let_def)
    then show ?thesis using reg w1 by (simp add: registered_def main_event_other)
  qed
next
  case False
  then have "w' = w" "s' = main_event listen_fd (ev_fd e) (ev_events e AND EPOLLIN \<noteq> 0) (ev_events e AND EPOLLERR \<noteq> 0) (-1) s"
    using run by (auto simp: main_dispatch_def Let_def split: if_splits)
  then show ?thesis using reg by (simp add: registered_def main_event_other)
qed

lemma main_round_registered:
  "epoll_doc net interest \<Longrightarrow> registered (interest w) listen_fd s \<Longrightarrow> main_round net listen_fd epoll_fd es s w = (s', w') \<Longrightarrow>
     registered (interest w') listen_fd s'"
proof (induction es arbitrary: s w)
  case (Cons e es)
  obtain s1 w1 where "main_dispatch net listen_fd epoll_fd e s w = (s1, w1)" by fastforce
  then show ?case using Cons main_dispatch_registered by (metis case_prod_conv main_round.simps(2))
qed simp

section \<open>Closing a connection\<close>

text \<open>
  The two halves of the end of a task: the descriptor is closed, and then its entry is erased. In between, the
  main thread can accept a connection that gets the same descriptor.
\<close>

definition serve_close ::
  "int \<Rightarrow> nat \<Rightarrow> connection \<Rightarrow> request \<times> bytes option \<times> 'r \<times> DBimpl \<Rightarrow> 'r server \<Rightarrow> 'r server" where
  "serve_close conn_fd a conn x s =
     (let (req, answer, r, db) = x in
      s\<lparr>sv_db := db, sv_rand := r, sv_heap := (sv_heap s)[a := conn\<lparr>cn_req := Some req\<rparr>],
        sv_written := sv_written s @ (case answer of None \<Rightarrow> [] | Some d \<Rightarrow> [(conn_fd, d)]),
        sv_closed := sv_closed s @ [conn_fd]\<rparr>)"

definition serve_erase :: "int \<Rightarrow> 'z conns_scheme \<Rightarrow> 'z conns_scheme" where
  "serve_erase conn_fd s = s\<lparr>sv_connection_storage := hashmap_erase conn_fd (sv_connection_storage s)\<rparr>"

lemma serve_finish_split: "serve_finish fd a conn x s = serve_erase fd (serve_close fd a conn x s)"
  by (simp add: serve_finish_def serve_close_def serve_erase_def case_prod_beta)

lemma serve_close_frame:
  "sv_tasks (serve_close fd a conn x s) = sv_tasks s" "length (sv_heap (serve_close fd a conn x s)) = length (sv_heap s)"
  by (simp_all add: serve_close_def case_prod_beta)

text \<open>A new connection gets an object, and an event for it a task with that object.\<close>

lemma main_event_accept:
  "accepted \<noteq> -1 \<Longrightarrow> main_event listen_fd listen_fd True e accepted s =
     s\<lparr>sv_heap := sv_heap s @ [connection_make],
       sv_connection_storage := (sv_connection_storage s)(accepted \<mapsto> Some (length (sv_heap s)))\<rparr>"
  by (simp add: main_event_def hashmap_set_def hashmap_erase_eq Let_def)

lemma main_event_data:
  "fd \<noteq> listen_fd \<Longrightarrow> sv_tasks (main_event listen_fd fd True e accepted s) =
     sv_tasks s @ [(fd, case sv_connection_storage s fd of None \<Rightarrow> None | Some c \<Rightarrow> c)]"
  by (simp add: main_event_def hashmap_get_def Let_def split: option.splits)

section \<open>Properties\<close>




text \<open>A system whose state is the list of registered descriptors; a new descriptor is above all of them.\<close>

definition new_fd :: "(int \<times> u32) list \<Rightarrow> int" where
  "new_fd w = fold max (map fst w) 2 + 1"

definition list_net :: "(int \<times> u32) list net" where
  "list_net = \<lparr>net_socket = (\<lambda>w. (new_fd w, w)), net_port = (\<lambda>fd port w. w), net_listen = (\<lambda>fd n w. w),
     net_accept = (\<lambda>fd w. (new_fd w, w)), net_getfl = (\<lambda>fd w. 2), net_setfl = (\<lambda>fd fl w. w),
     net_epoll_create = (\<lambda>n w. (new_fd w, w)),
     net_epoll_ctl = (\<lambda>epfd op fd e w. case op of
        EPOLL_CTL_ADD \<Rightarrow> if map_of w fd = None then (fd, ev_events e) # w else w
      | EPOLL_CTL_DEL \<Rightarrow> filter (\<lambda>x. fst x \<noteq> fd) w
      | EPOLL_CTL_MOD \<Rightarrow> map (\<lambda>x. if fst x = fd then (fd, ev_events e) else x) w),
     net_nameinfo = (\<lambda>fd w. ([], []))\<rparr>"

lemma fold_max_ge: "x \<in> set xs \<or> x \<le> m \<Longrightarrow> x \<le> fold max xs (m::int)"
  by (induction xs arbitrary: m) (auto simp: le_max_iff_disj)

lemma new_fd_fresh: "map_of w (new_fd w) = None"
  using fold_max_ge [of "new_fd w" "map fst w" 2] by (force simp: map_of_eq_None_iff new_fd_def)

lemma list_net_doc: "epoll_doc list_net map_of"
  by (auto simp: epoll_doc_def list_net_def new_fd_fresh)


end
