(* ===== verification/Loggers.thy ===== *)
theory Loggers
  imports Statuses Keys
begin

text \<open>
  The logging macros (\<^verbatim>\<open>logger.h\<close>): the short file name, the levels, the conditional compilation of the five
  macros and the text they print. The formatted time and the formatted message are arguments.
\<close>

section \<open>Short file names\<close>

text \<open>The two pointers are suffixes of the name; its terminating zero is the end of the list.\<close>

fun PastLastSlash_from :: "bytes \<Rightarrow> bytes \<Rightarrow> bytes" where
  "PastLastSlash_from [] b = b"
| "PastLastSlash_from (c # a) b = (if string_data b ! 0 = 47 then PastLastSlash_from a a else PastLastSlash_from a b)"

definition PastLastSlash :: "bytes \<Rightarrow> bytes" where
  "PastLastSlash a = PastLastSlash_from a a"

text \<open>\<^verbatim>\<open>__SHORT_FILE__\<close> in the source \<open>path\<close>.\<close>

definition SHORT_FILE :: "bytes \<Rightarrow> bytes" where
  "SHORT_FILE path = PastLastSlash path"

section \<open>Levels\<close>

datatype log_level = LOG_LEVEL_OFF | LOG_LEVEL_ERROR | LOG_LEVEL_WARN | LOG_LEVEL_INFO | LOG_LEVEL_DEBUG | LOG_LEVEL_TRACE | LOG_LEVEL_ALL

fun level_value :: "log_level \<Rightarrow> int" where
  "level_value LOG_LEVEL_OFF = 1000"
| "level_value LOG_LEVEL_ERROR = 500"
| "level_value LOG_LEVEL_WARN = 400"
| "level_value LOG_LEVEL_INFO = 300"
| "level_value LOG_LEVEL_DEBUG = 200"
| "level_value LOG_LEVEL_TRACE = 100"
| "level_value LOG_LEVEL_ALL = 0"

text \<open>
  The level that the header chooses when the build gives none. It is a constant of the language and not a
  macro, so the preprocessor does not see it.
\<close>

definition LOG_LEVEL :: "bool \<Rightarrow> log_level" where
  "LOG_LEVEL NDEBUG = (if NDEBUG then LOG_LEVEL_INFO else LOG_LEVEL_DEBUG)"

text \<open>
  In \<^verbatim>\<open>#if\<close> an identifier that is not a macro is 0. \<open>macros\<close> are the numbers that the build defines, by name; the
  header defines none of the level names.
\<close>

definition pp_value :: "(string \<rightharpoonup> int) \<Rightarrow> string \<Rightarrow> int" where
  "pp_value macros name = (case macros name of None \<Rightarrow> 0 | Some v \<Rightarrow> v)"

definition LOG_ERROR_ENABLED :: "(string \<rightharpoonup> int) \<Rightarrow> bool" where
  "LOG_ERROR_ENABLED macros \<longleftrightarrow> pp_value macros ''LOG_LEVEL'' \<le> pp_value macros ''LOG_LEVEL_ERROR''"

definition LOG_WARN_ENABLED :: "(string \<rightharpoonup> int) \<Rightarrow> bool" where
  "LOG_WARN_ENABLED macros \<longleftrightarrow> pp_value macros ''LOG_LEVEL'' \<le> pp_value macros ''LOG_LEVEL_WARN''"

definition LOG_INFO_ENABLED :: "(string \<rightharpoonup> int) \<Rightarrow> bool" where
  "LOG_INFO_ENABLED macros \<longleftrightarrow> pp_value macros ''LOG_LEVEL'' \<le> pp_value macros ''LOG_LEVEL_INFO''"

definition LOG_DEBUG_ENABLED :: "(string \<rightharpoonup> int) \<Rightarrow> bool" where
  "LOG_DEBUG_ENABLED macros \<longleftrightarrow> pp_value macros ''LOG_LEVEL'' \<le> pp_value macros ''LOG_LEVEL_DEBUG''"

definition LOG_TRACE_ENABLED :: "(string \<rightharpoonup> int) \<Rightarrow> bool" where
  "LOG_TRACE_ENABLED macros \<longleftrightarrow> pp_value macros ''LOG_LEVEL'' \<le> pp_value macros ''LOG_LEVEL_TRACE''"

section \<open>Output\<close>

definition OutputLogHeader :: "bytes \<Rightarrow> bytes \<Rightarrow> nat \<Rightarrow> bytes \<Rightarrow> int \<Rightarrow> bytes" where
  "OutputLogHeader time_str file line func level =
     (let type =
        (if level = level_value LOG_LEVEL_ERROR then ascii ''ERROR''
         else if level = level_value LOG_LEVEL_WARN then ascii ''WARN ''
         else if level = level_value LOG_LEVEL_INFO then ascii ''INFO ''
         else if level = level_value LOG_LEVEL_DEBUG then ascii ''DEBUG''
         else if level = level_value LOG_LEVEL_TRACE then ascii ''TRACE''
         else ascii ''UNKWN'') in
      time_str @ ascii '' ['' @ file @ ascii '':'' @ std_to_string line @ ascii '':'' @ func @ ascii ''] '' @ type @ ascii '' - '')"

text \<open>What each macro prints at a place in the source \<open>path\<close>, in a build that defines \<open>macros\<close>.\<close>

definition LOG_ERROR :: "(string \<rightharpoonup> int) \<Rightarrow> bytes \<Rightarrow> bytes \<Rightarrow> nat \<Rightarrow> bytes \<Rightarrow> bytes \<Rightarrow> bytes" where
  "LOG_ERROR macros time_str path line func msg =
     (if LOG_ERROR_ENABLED macros
      then OutputLogHeader time_str (SHORT_FILE path) line func (level_value LOG_LEVEL_ERROR) @ msg @ [10] else [])"

definition LOG_WARN :: "(string \<rightharpoonup> int) \<Rightarrow> bytes \<Rightarrow> bytes \<Rightarrow> nat \<Rightarrow> bytes \<Rightarrow> bytes \<Rightarrow> bytes" where
  "LOG_WARN macros time_str path line func msg =
     (if LOG_WARN_ENABLED macros
      then OutputLogHeader time_str (SHORT_FILE path) line func (level_value LOG_LEVEL_WARN) @ msg @ [10] else [])"

definition LOG_INFO :: "(string \<rightharpoonup> int) \<Rightarrow> bytes \<Rightarrow> bytes \<Rightarrow> nat \<Rightarrow> bytes \<Rightarrow> bytes \<Rightarrow> bytes" where
  "LOG_INFO macros time_str path line func msg =
     (if LOG_INFO_ENABLED macros
      then OutputLogHeader time_str (SHORT_FILE path) line func (level_value LOG_LEVEL_INFO) @ msg @ [10] else [])"

definition LOG_DEBUG :: "(string \<rightharpoonup> int) \<Rightarrow> bytes \<Rightarrow> bytes \<Rightarrow> nat \<Rightarrow> bytes \<Rightarrow> bytes \<Rightarrow> bytes" where
  "LOG_DEBUG macros time_str path line func msg =
     (if LOG_DEBUG_ENABLED macros
      then OutputLogHeader time_str (SHORT_FILE path) line func (level_value LOG_LEVEL_DEBUG) @ msg @ [10] else [])"

definition LOG_TRACE :: "(string \<rightharpoonup> int) \<Rightarrow> bytes \<Rightarrow> bytes \<Rightarrow> nat \<Rightarrow> bytes \<Rightarrow> bytes \<Rightarrow> bytes" where
  "LOG_TRACE macros time_str path line func msg =
     (if LOG_TRACE_ENABLED macros
      then OutputLogHeader time_str (SHORT_FILE path) line func (level_value LOG_LEVEL_TRACE) @ msg @ [10] else [])"

lemma PastLastSlash_from_stays: "string_data b ! 0 \<noteq> 47 \<Longrightarrow> PastLastSlash_from a b = b"
  by (induction a) simp_all

lemma PastLastSlash_strips: "PastLastSlash path = dropWhile (\<lambda>c. c = 47) path"
proof -
  have "PastLastSlash_from a a = dropWhile (\<lambda>c. c = 47) a" for a
  proof (induction a)
    case (Cons c a)
    then show ?case using PastLastSlash_from_stays [of "c # a" a] by (auto simp: string_data_def)
  qed simp
  then show ?thesis by (simp add: PastLastSlash_def)
qed

text \<open>The level that a macro prints, in five characters.\<close>

definition level_text :: "log_level \<Rightarrow> bytes" where
  "level_text l = ascii (case l of LOG_LEVEL_ERROR \<Rightarrow> ''ERROR'' | LOG_LEVEL_WARN \<Rightarrow> ''WARN '' | LOG_LEVEL_INFO \<Rightarrow> ''INFO ''
     | LOG_LEVEL_DEBUG \<Rightarrow> ''DEBUG'' | LOG_LEVEL_TRACE \<Rightarrow> ''TRACE'' | _ \<Rightarrow> ''UNKWN'')"

text \<open>A line of the log.\<close>

definition log_text :: "log_level \<Rightarrow> bytes \<Rightarrow> bytes \<Rightarrow> nat \<Rightarrow> bytes \<Rightarrow> bytes \<Rightarrow> bytes" where
  "log_text l t file line func msg =
     t @ ascii '' ['' @ file @ ascii '':'' @ std_to_string line @ ascii '':'' @ func @ ascii ''] '' @ level_text l @ ascii '' - '' @ msg @ [10]"

section \<open>Properties\<close>


text \<open>The level does not select the macros: the build's own level is compared with names that the preprocessor
  reads as 0. Without a level, in debug and in release builds, all five are compiled in, although the
  level the header chooses excludes some of them; with a positive numeric level none is.\<close>

theorem log_level_ignored:
  assumes "\<forall>l\<in>{''LOG_LEVEL_ERROR'', ''LOG_LEVEL_WARN'', ''LOG_LEVEL_INFO'', ''LOG_LEVEL_DEBUG'', ''LOG_LEVEL_TRACE''}. macros l = None"
  shows "(macros ''LOG_LEVEL'' = None \<longrightarrow> LOG_ERROR_ENABLED macros \<and> LOG_WARN_ENABLED macros \<and> LOG_INFO_ENABLED macros \<and>
      LOG_DEBUG_ENABLED macros \<and> LOG_TRACE_ENABLED macros \<and> \<not> level_value (LOG_LEVEL NDEBUG) \<le> level_value LOG_LEVEL_TRACE) \<and>
    (\<forall>n > 0. macros ''LOG_LEVEL'' = Some n \<longrightarrow> \<not> LOG_ERROR_ENABLED macros \<and> \<not> LOG_WARN_ENABLED macros \<and>
      \<not> LOG_INFO_ENABLED macros \<and> \<not> LOG_DEBUG_ENABLED macros \<and> \<not> LOG_TRACE_ENABLED macros)"
  using assms
  by (auto simp: LOG_ERROR_ENABLED_def LOG_WARN_ENABLED_def LOG_INFO_ENABLED_def LOG_DEBUG_ENABLED_def LOG_TRACE_ENABLED_def
      LOG_LEVEL_def pp_value_def)

theorem log_level_ignored_witness:
  "LOG_TRACE_ENABLED Map.empty \<and> \<not> LOG_ERROR_ENABLED [''LOG_LEVEL'' \<mapsto> 300]"
  using log_level_ignored [of Map.empty True] log_level_ignored [of "[''LOG_LEVEL'' \<mapsto> 300]" True] by simp

end
