(* ===== verification/StatusHeaps.thy ===== *)
theory StatusHeaps
  imports Statuses
begin

text \<open>
  \<^verbatim>\<open>Status\<close> objects as owners of the arrays behind \<^verbatim>\<open>state_\<close> (\<^verbatim>\<open>common/status.h\<close>): construction, copying, moving,
  assignment and destruction over a heap of arrays. The theory of statuses has the values; here are the
  pointers. Objects have names; \<^verbatim>\<open>new[]\<close> gives addresses in increasing order, \<^verbatim>\<open>delete[]\<close> of a null pointer does
  nothing and \<^verbatim>\<open>delete[]\<close> of an array that is gone is an error.
\<close>

record status_heap =
  sh_arrays :: "nat \<rightharpoonup> bytes"
  sh_fresh :: nat
  sh_vars :: "nat \<rightharpoonup> nat option"

definition new_array :: "bytes \<Rightarrow> status_heap \<Rightarrow> nat \<times> status_heap" where
  "new_array d h = (sh_fresh h, h\<lparr>sh_arrays := (sh_arrays h)(sh_fresh h \<mapsto> d), sh_fresh := sh_fresh h + 1\<rparr>)"

definition delete_array :: "nat option \<Rightarrow> status_heap \<Rightarrow> status_heap res" where
  "delete_array p h =
     (case p of
        None \<Rightarrow> Inr h
      | Some a \<Rightarrow>
          if sh_arrays h a = None then Inl UseAfterFree else Inr (h\<lparr>sh_arrays := (sh_arrays h)(a := None)\<rparr>))"

definition read_array :: "nat \<Rightarrow> status_heap \<Rightarrow> bytes res" where
  "read_array a h = (case sh_arrays h a of None \<Rightarrow> Inl UseAfterFree | Some d \<Rightarrow> Inr d)"

text \<open>The member \<^verbatim>\<open>state_\<close> of a live object.\<close>

definition state_of :: "nat \<Rightarrow> status_heap \<Rightarrow> nat option res" where
  "state_of v h = (case sh_vars h v of None \<Rightarrow> Inl UseAfterFree | Some p \<Rightarrow> Inr p)"

definition set_state :: "nat \<Rightarrow> nat option \<Rightarrow> status_heap \<Rightarrow> status_heap" where
  "set_state v p h = h\<lparr>sh_vars := (sh_vars h)(v \<mapsto> p)\<rparr>"

definition SH_default :: "nat \<Rightarrow> status_heap \<Rightarrow> status_heap res" where
  "SH_default v h = Inr (set_state v None h)"

definition SH_make :: "nat \<Rightarrow> Code \<Rightarrow> slice \<Rightarrow> slice \<Rightarrow> status_heap \<Rightarrow> status_heap res" where
  "SH_make v code msg msg2 h =
     rbind (Status_make code msg msg2) (\<lambda>s.
     case st_state s of
       None \<Rightarrow> Inr (set_state v None h)
     | Some d \<Rightarrow> let (a, h) = new_array d h in Inr (set_state v (Some a) h))"

text \<open>\<^verbatim>\<open>CopyState\<close> of a pointer that is not null, in a new array.\<close>

definition copy_pointer :: "nat option \<Rightarrow> status_heap \<Rightarrow> (nat option \<times> status_heap) res" where
  "copy_pointer p h =
     (case p of
        None \<Rightarrow> Inr (None, h)
      | Some a \<Rightarrow>
          rbind (read_array a h) (\<lambda>st. rbind (CopyState st) (\<lambda>d.
            let (b, h) = new_array d h in Inr (Some b, h))))"

definition SH_copy :: "nat \<Rightarrow> nat \<Rightarrow> status_heap \<Rightarrow> status_heap res" where
  "SH_copy v rhs h =
     rbind (state_of rhs h) (\<lambda>p. rbind (copy_pointer p h) (\<lambda>(q, h). Inr (set_state v q h)))"

definition SH_copy_assign :: "nat \<Rightarrow> nat \<Rightarrow> status_heap \<Rightarrow> status_heap res" where
  "SH_copy_assign v rhs h =
     rbind (state_of v h) (\<lambda>p. rbind (state_of rhs h) (\<lambda>q.
       if p \<noteq> q then
         rbind (delete_array p h) (\<lambda>h. rbind (copy_pointer q h) (\<lambda>(r, h). Inr (set_state v r h)))
       else Inr h))"

definition SH_move :: "nat \<Rightarrow> nat \<Rightarrow> status_heap \<Rightarrow> status_heap res" where
  "SH_move v rhs h = rbind (state_of rhs h) (\<lambda>p. Inr (set_state rhs None (set_state v p h)))"

definition SH_move_assign :: "nat \<Rightarrow> nat \<Rightarrow> status_heap \<Rightarrow> status_heap res" where
  "SH_move_assign v rhs h =
     rbind (state_of v h) (\<lambda>p. rbind (state_of rhs h) (\<lambda>q. Inr (set_state rhs p (set_state v q h))))"

definition SH_destroy :: "nat \<Rightarrow> status_heap \<Rightarrow> status_heap res" where
  "SH_destroy v h =
     rbind (state_of v h) (\<lambda>p. rbind (delete_array p h) (\<lambda>h. Inr (h\<lparr>sh_vars := (sh_vars h)(v := None)\<rparr>)))"

text \<open>Programs over status objects.\<close>

datatype status_op =
  ODefault nat | OMake nat Code slice slice | OCopy nat nat | OCopyAssign nat nat | OMove nat nat | OMoveAssign nat nat | ODestroy nat

fun status_exec :: "status_op \<Rightarrow> status_heap \<Rightarrow> status_heap res" where
  "status_exec (ODefault v) h = SH_default v h"
| "status_exec (OMake v code msg msg2) h = SH_make v code msg msg2 h"
| "status_exec (OCopy v u) h = SH_copy v u h"
| "status_exec (OCopyAssign v u) h = SH_copy_assign v u h"
| "status_exec (OMove v u) h = SH_move v u h"
| "status_exec (OMoveAssign v u) h = SH_move_assign v u h"
| "status_exec (ODestroy v) h = SH_destroy v h"

fun status_run :: "status_op list \<Rightarrow> status_heap \<Rightarrow> status_heap res" where
  "status_run [] h = Inr h"
| "status_run (op # ops) h = rbind (status_exec op h) (status_run ops)"

section \<open>Values\<close>

text \<open>The same programs on values, with what the language asks of them: constructors make new objects, everything
  else uses live ones, and messages fit.\<close>

type_synonym status_vals = "nat \<rightharpoonup> Status"

definition error_status :: "Code \<Rightarrow> slice \<Rightarrow> slice \<Rightarrow> Status" where
  "error_status code msg msg2 =
     \<lparr>st_state = Some (EncodeFixed32 (word_of_nat (length (status_message msg msg2))) @ Code_number code # status_message msg msg2)\<rparr>"

fun op_ok :: "status_op \<Rightarrow> status_vals \<Rightarrow> bool" where
  "op_ok (ODefault v) s \<longleftrightarrow> s v = None"
| "op_ok (OMake v code msg msg2) s \<longleftrightarrow>
     s v = None \<and> slice_ok msg \<and> slice_ok msg2 \<and> sl_size msg + sl_size msg2 + 7 < 2 ^ 32 \<and> code \<noteq> kOk"
| "op_ok (OCopy v u) s \<longleftrightarrow> s v = None \<and> s u \<noteq> None"
| "op_ok (OCopyAssign v u) s \<longleftrightarrow> s v \<noteq> None \<and> s u \<noteq> None"
| "op_ok (OMove v u) s \<longleftrightarrow> s v = None \<and> s u \<noteq> None"
| "op_ok (OMoveAssign v u) s \<longleftrightarrow> s v \<noteq> None \<and> s u \<noteq> None"
| "op_ok (ODestroy v) s \<longleftrightarrow> s v \<noteq> None"

fun op_vals :: "status_op \<Rightarrow> status_vals \<Rightarrow> status_vals" where
  "op_vals (ODefault v) s = s(v \<mapsto> Status_OK)"
| "op_vals (OMake v code msg msg2) s = s(v \<mapsto> error_status code msg msg2)"
| "op_vals (OCopy v u) s = s(v := s u)"
| "op_vals (OCopyAssign v u) s = s(v := s u)"
| "op_vals (OMove v u) s = s(v := s u, u \<mapsto> Status_OK)"
| "op_vals (OMoveAssign v u) s = s(v := s u, u := s v)"
| "op_vals (ODestroy v) s = s(v := None)"

fun ops_ok :: "status_op list \<Rightarrow> status_vals \<Rightarrow> bool" where
  "ops_ok [] s \<longleftrightarrow> True"
| "ops_ok (op # ops) s \<longleftrightarrow> op_ok op s \<and> ops_ok ops (op_vals op s)"

section \<open>Ownership\<close>

text \<open>Every array belongs to exactly one object, is below the next fresh address and has the size it says.\<close>

definition owned :: "status_heap \<Rightarrow> bool" where
  "owned h \<longleftrightarrow>
     (\<forall>v a. sh_vars h v = Some (Some a) \<longrightarrow> sh_arrays h a \<noteq> None \<and> (\<forall>u. sh_vars h u = Some (Some a) \<longrightarrow> u = v)) \<and>
     (\<forall>a d. sh_arrays h a = Some d \<longrightarrow> (\<exists>v. sh_vars h v = Some (Some a)) \<and> a < sh_fresh h \<and> CopyState d = Inr d)"

definition status_vals_of :: "status_heap \<Rightarrow> status_vals" where
  "status_vals_of h =
     (\<lambda>v. case sh_vars h v of
            None \<Rightarrow> None
          | Some None \<Rightarrow> Some Status_OK
          | Some (Some a) \<Rightarrow> Some \<lparr>st_state = sh_arrays h a\<rparr>)"

lemma vals_None [simp]: "status_vals_of h v = None \<longleftrightarrow> sh_vars h v = None"
  by (simp add: status_vals_of_def split: option.splits)

lemma CopyState_error:
  assumes "slice_ok msg" "slice_ok msg2" "sl_size msg + sl_size msg2 + 7 < 2 ^ 32"
  shows "CopyState (EncodeFixed32 (word_of_nat (length (status_message msg msg2))) @ Code_number code # status_message msg msg2) =
    Inr (EncodeFixed32 (word_of_nat (length (status_message msg msg2))) @ Code_number code # status_message msg msg2)"
proof -
  have "length (status_message msg msg2) + 5 < 2 ^ 32" using assms by (simp add: status_message_def split: if_splits)
  then show ?thesis by (simp add: CopyState_def DecodeFixed32_EncodeFixed32 unat_plus_5)
qed

lemma ownedI:
  assumes "\<And>v a. sh_vars h v = Some (Some a) \<Longrightarrow> \<exists>d. sh_arrays h a = Some d"
    "\<And>u v a. sh_vars h u = Some (Some a) \<Longrightarrow> sh_vars h v = Some (Some a) \<Longrightarrow> u = v"
    "\<And>a d. sh_arrays h a = Some d \<Longrightarrow> \<exists>v. sh_vars h v = Some (Some a)"
    "\<And>a d. sh_arrays h a = Some d \<Longrightarrow> a < sh_fresh h \<and> CopyState d = Inr d"
  shows "owned h"
  using assms unfolding owned_def by (metis option.discI)

lemma ownedD:
  assumes "owned h"
  shows "sh_vars h v = Some (Some a) \<Longrightarrow> \<exists>d. sh_arrays h a = Some d"
    "sh_vars h u = Some (Some a) \<Longrightarrow> sh_vars h v = Some (Some a) \<Longrightarrow> u = v"
    "sh_arrays h a = Some d \<Longrightarrow> \<exists>v. sh_vars h v = Some (Some a)"
    "sh_arrays h a = Some d \<Longrightarrow> a < sh_fresh h" "sh_arrays h a = Some d \<Longrightarrow> CopyState d = Inr d"
  using assms unfolding owned_def by (metis not_None_eq)+

text \<open>Giving up an array, getting a new one, and exchanging them.\<close>

lemma owned_delete:
  assumes "owned h" "sh_vars h v = Some p"
  shows "\<exists>h'. delete_array p h = Inr h' \<and> sh_vars h' = sh_vars h \<and> owned (set_state v None h') \<and>
    owned (h'\<lparr>sh_vars := (sh_vars h)(v := None)\<rparr>) \<and>
    (\<forall>u q. u \<noteq> v \<longrightarrow> sh_vars h u = Some (Some q) \<longrightarrow> sh_arrays h' q = sh_arrays h q)"
proof -
  note D = ownedD [OF assms(1)]
  have a: "sh_arrays h a \<noteq> None" if "p = Some a" for a using D(1) assms(2) that by blast
  let ?h = "h\<lparr>sh_arrays := (case p of None \<Rightarrow> sh_arrays h | Some a \<Rightarrow> (sh_arrays h)(a := None))\<rparr>"
  have h: "delete_array p h = Inr ?h" using a by (auto simp: delete_array_def split: option.splits)
  have arr: "sh_arrays ?h b = Some d \<longleftrightarrow> sh_arrays h b = Some d \<and> p \<noteq> Some b" for b d by (auto split: option.splits)
  have other: "sh_arrays ?h q = sh_arrays h q \<and> p \<noteq> Some q" if "u \<noteq> v" "sh_vars h u = Some (Some q)" for u q
    using that D(2) [of u q v] assms(2) by (auto split: option.splits)
  have own: "\<exists>u. u \<noteq> v \<and> sh_vars h u = Some (Some b)" if "sh_arrays h b = Some d" "p \<noteq> Some b" for b d
    using D(3) [OF that(1)] that(2) assms(2) by (metis option.inject)
  have gen: "owned k" if k: "sh_arrays k = sh_arrays ?h" "sh_fresh k = sh_fresh h" "\<And>u. u \<noteq> v \<Longrightarrow> sh_vars k u = sh_vars h u"
    "\<And>a. sh_vars k v \<noteq> Some (Some a)" for k
  proof (rule ownedI)
    fix u a assume u: "sh_vars k u = Some (Some a)"
    then have "u \<noteq> v" using k(4) by auto
    then have hu: "u \<noteq> v" "sh_vars h u = Some (Some a)" using k(3) u by auto
    then show "\<exists>d. sh_arrays k a = Some d" using other D(1) k(1) by metis
    show "u = w" if "sh_vars k w = Some (Some a)" for w
      using hu that k(3,4) D(2) by metis
  next
    fix a d assume "sh_arrays k a = Some d"
    then have a: "sh_arrays h a = Some d" "p \<noteq> Some a" using k(1) arr by simp_all
    then show "\<exists>w. sh_vars k w = Some (Some a)" using own k(3) by metis
    show "a < sh_fresh k \<and> CopyState d = Inr d" using a(1) D(4,5) k(2) by simp
  qed
  have "owned (set_state v None ?h)" "owned (?h\<lparr>sh_vars := (sh_vars h)(v := None)\<rparr>)"
    by (rule gen; simp add: set_state_def)+
  then show ?thesis using h other by auto
qed

lemma owned_new:
  assumes "owned h" "CopyState d = Inr d" "\<And>a. sh_vars h v \<noteq> Some (Some a)"
    and h': "h' = set_state v (Some (sh_fresh h)) (h\<lparr>sh_arrays := (sh_arrays h)(sh_fresh h \<mapsto> d), sh_fresh := sh_fresh h + 1\<rparr>)"
  shows "owned h'" "status_vals_of h' = (status_vals_of h)(v \<mapsto> \<lparr>st_state = Some d\<rparr>)"
proof -
  note D = ownedD [OF assms(1)]
  have g: "sh_vars h u \<noteq> Some (Some (sh_fresh h))" for u using D(1,4) by blast
  show "owned h'"
  proof (rule ownedI)
    fix u w a assume "sh_vars h' u = Some (Some a)" "sh_vars h' w = Some (Some a)"
    then show "u = w" using g D(2) by (auto simp: h' set_state_def split: if_splits)
  next
    fix a d' assume a: "sh_arrays h' a = Some d'"
    then show "\<exists>w. sh_vars h' w = Some (Some a)"
    proof (cases "a = sh_fresh h")
      case False
      then obtain w where "sh_vars h w = Some (Some a)" using a D(3) [of a d'] by (auto simp: h' set_state_def)
      then show ?thesis using assms(3) [of a] by (intro exI [of _ w]) (auto simp: h' set_state_def)
    qed (auto simp: h' set_state_def)
    show "a < sh_fresh h' \<and> CopyState d' = Inr d'"
      using a D(4,5) [of a d'] assms(2) by (auto simp: h' set_state_def split: if_splits)
  qed (use D(1) in \<open>auto simp: h' set_state_def split: if_splits\<close>)
  show "status_vals_of h' = (status_vals_of h)(v \<mapsto> \<lparr>st_state = Some d\<rparr>)"
    using g by (auto simp: h' status_vals_of_def set_state_def fun_eq_iff split: option.splits)
qed

lemma owned_swap:
  assumes "owned h" "sh_vars h v = Some p" "sh_vars h u = Some q"
  shows "owned (set_state u p (set_state v q h))"
proof (rule ownedI)
  note D = ownedD [OF assms(1)]
  let ?h = "set_state u p (set_state v q h)"
  fix a
  show "\<exists>d. sh_arrays ?h a = Some d" if "sh_vars ?h w = Some (Some a)" for w
    using that D(1) assms(2,3) by (auto simp: set_state_def split: if_splits)
  show "x = y" if "sh_vars ?h x = Some (Some a)" "sh_vars ?h y = Some (Some a)" for x y
    using that D(2) [of _ a] assms(2,3) by (auto simp: set_state_def split: if_splits)
  show "\<exists>w. sh_vars ?h w = Some (Some a)" if arr: "sh_arrays ?h a = Some d" for d
  proof -
    obtain x where x: "sh_vars h x = Some (Some a)" using arr D(3) [of a d] by (auto simp: set_state_def)
    show ?thesis
      by (rule exI [of _ "if x = v then u else if x = u then v else x"])
         (use x assms(2,3) in \<open>auto simp: set_state_def\<close>)
  qed
  show "a < sh_fresh ?h \<and> CopyState d = Inr d" if "sh_arrays ?h a = Some d" for d
    using that D(4,5) by (simp add: set_state_def)
qed

lemma copy_pointer_owned:
  assumes "owned h" "sh_vars h u = Some p" "\<And>a. sh_vars h v \<noteq> Some (Some a)"
  shows "\<exists>q h'. copy_pointer p h = Inr (q, h') \<and> owned (set_state v q h') \<and>
    status_vals_of (set_state v q h') = (status_vals_of h)(v := status_vals_of h u)"
proof (cases p)
  case None
  note D = ownedD [OF assms(1)]
  have "owned (set_state v None h)"
    using D assms(3) by (intro ownedI; simp add: set_state_def split: if_splits; metis)
  moreover have "status_vals_of (set_state v None h) = (status_vals_of h)(v := status_vals_of h u)"
    using None assms(2) by (auto simp: status_vals_of_def set_state_def fun_eq_iff split: option.splits)
  ultimately show ?thesis using None by (auto simp: copy_pointer_def)
next
  case (Some a)
  then obtain d where d: "sh_arrays h a = Some d" using ownedD(1) [OF assms(1)] assms(2) by blast
  then have c: "CopyState d = Inr d" using ownedD(5) [OF assms(1)] by blast
  then show ?thesis
    using Some d assms(2) owned_new [OF assms(1) c assms(3) refl]
    by (auto simp: copy_pointer_def read_array_def new_array_def status_vals_of_def)
qed

lemma vals_same:
  assumes "\<And>u. sh_vars h' u = sh_vars h u" "\<And>u a. sh_vars h u = Some (Some a) \<Longrightarrow> sh_arrays h' a = sh_arrays h a"
  shows "status_vals_of h' = status_vals_of h"
  using assms by (auto simp: status_vals_of_def fun_eq_iff split: option.splits)

lemma status_exec_copy_assign:
  assumes "owned h" "sh_vars h v = Some p" "sh_vars h u = Some q"
  shows "\<exists>h'. SH_copy_assign v u h = Inr h' \<and> owned h' \<and> status_vals_of h' = (status_vals_of h)(v := status_vals_of h u)"
proof (cases "p = q")
  case True
  then have "status_vals_of h u = status_vals_of h v" using assms(2,3) by (simp add: status_vals_of_def)
  then show ?thesis using True assms by (simp add: SH_copy_assign_def state_of_def fun_upd_idem)
next
  case False
  then have uv: "u \<noteq> v" using assms by auto
  obtain h1 where h1: "delete_array p h = Inr h1" "sh_vars h1 = sh_vars h" "owned (set_state v None h1)"
    "\<forall>u q. u \<noteq> v \<longrightarrow> sh_vars h u = Some (Some q) \<longrightarrow> sh_arrays h1 q = sh_arrays h q"
    using owned_delete [OF assms(1,2)] by blast
  let ?h = "set_state v None h1"
  have "sh_vars ?h u = Some q" using uv assms(3) h1(2) by (simp add: set_state_def)
  then obtain r h2 where h2: "copy_pointer q ?h = Inr (r, h2)" "owned (set_state v r h2)"
    "status_vals_of (set_state v r h2) = (status_vals_of ?h)(v := status_vals_of ?h u)"
    using copy_pointer_owned [OF h1(3), of u q v] by (auto simp: set_state_def)
  have "\<exists>h3. copy_pointer q h1 = Inr (r, h3) \<and> set_state v r h3 = set_state v r h2"
    using h2(1) by (auto simp: copy_pointer_def read_array_def new_array_def set_state_def split: option.splits)
  moreover have "(status_vals_of ?h)(v := status_vals_of ?h u) = (status_vals_of h)(v := status_vals_of h u)"
    using h1(2,4) uv by (auto simp: fun_eq_iff status_vals_of_def set_state_def split: option.splits)
  ultimately show ?thesis using False assms h1(1) h2 by (auto simp: SH_copy_assign_def state_of_def)
qed

lemma owned_default:
  assumes "owned h" "\<And>a. sh_vars h v \<noteq> Some (Some a)"
  shows "owned (set_state v None h)"
  using ownedD [OF assms(1)] assms(2) by (intro ownedI; simp add: set_state_def split: if_splits; metis option.distinct(1))

lemma status_exec_move:
  assumes "owned h" and q: "sh_vars h u = Some q" and v: "sh_vars h v = None"
  shows "\<exists>h'. status_exec (OMove v u) h = Inr h' \<and> owned h' \<and> status_vals_of h' = (status_vals_of h)(v := status_vals_of h u, u \<mapsto> Status_OK)"
proof -
  have "owned (set_state u None (set_state v q (set_state v None h)))"
    using q v owned_default [OF assms(1)] by (intro owned_swap) (auto simp: set_state_def)
  moreover have "set_state v q (set_state v None h) = set_state v q h" by (simp add: set_state_def)
  moreover have "status_vals_of (set_state u None (set_state v q h)) = (status_vals_of h)(v := status_vals_of h u, u \<mapsto> Status_OK)"
    using q v by (auto simp: status_vals_of_def set_state_def fun_eq_iff split: option.splits)
  ultimately show ?thesis using q by (simp add: SH_move_def state_of_def)
qed

lemma status_exec_correct:
  assumes "owned h" "op_ok op (status_vals_of h)"
  shows "\<exists>h'. status_exec op h = Inr h' \<and> owned h' \<and> status_vals_of h' = op_vals op (status_vals_of h)"
proof (cases op)
  case (ODefault v)
  have "owned (set_state v None h)" using assms(2) ODefault by (intro owned_default [OF assms(1)]) simp
  moreover have "status_vals_of (set_state v None h) = (status_vals_of h)(v \<mapsto> Status_OK)"
    by (auto simp: status_vals_of_def set_state_def fun_eq_iff split: option.splits)
  ultimately show ?thesis using ODefault by (simp add: SH_default_def)
next
  case (OMake v code msg msg2)
  then have m: "slice_ok msg" "slice_ok msg2" "sl_size msg + sl_size msg2 + 7 < 2 ^ 32" "code \<noteq> kOk" and v: "\<And>a. sh_vars h v \<noteq> Some (Some a)"
    using assms(2) by simp_all
  show ?thesis
    using owned_new [OF assms(1) CopyState_error [OF m(1-3), of code] v refl]
    by (simp add: OMake SH_make_def Status_make_state [OF m] new_array_def error_status_def)
next
  case (OCopy v u)
  then obtain p where p: "sh_vars h u = Some p" and v: "\<And>a. sh_vars h v \<noteq> Some (Some a)" using assms(2) by auto
  then show ?thesis using copy_pointer_owned [OF assms(1) p v] by (auto simp: OCopy SH_copy_def state_of_def)
next
  case (OCopyAssign v u)
  then obtain p q where "sh_vars h v = Some p" "sh_vars h u = Some q" using assms(2) by auto
  then show ?thesis using status_exec_copy_assign [OF assms(1)] by (simp add: OCopyAssign)
next
  case (OMove v u)
  then obtain q where "sh_vars h u = Some q" "sh_vars h v = None" using assms(2) by auto
  then show ?thesis using status_exec_move [OF assms(1)] by (simp add: OMove)
next
  case (OMoveAssign v u)
  then obtain p q where pq: "sh_vars h v = Some p" "sh_vars h u = Some q" using assms(2) by auto
  have "status_vals_of (set_state u p (set_state v q h)) = (status_vals_of h)(v := status_vals_of h u, u := status_vals_of h v)"
    using pq by (auto simp: status_vals_of_def set_state_def fun_eq_iff split: option.splits)
  then show ?thesis using pq owned_swap [OF assms(1) pq] by (simp add: OMoveAssign SH_move_assign_def state_of_def)
next
  case (ODestroy v)
  then obtain p where p: "sh_vars h v = Some p" using assms(2) by auto
  obtain h1 where h1: "delete_array p h = Inr h1" "sh_vars h1 = sh_vars h" "owned (h1\<lparr>sh_vars := (sh_vars h)(v := None)\<rparr>)"
    "\<forall>u q. u \<noteq> v \<longrightarrow> sh_vars h u = Some (Some q) \<longrightarrow> sh_arrays h1 q = sh_arrays h q"
    using owned_delete [OF assms(1) p] by blast
  moreover have "status_vals_of (h1\<lparr>sh_vars := (sh_vars h)(v := None)\<rparr>) = (status_vals_of h)(v := None)"
    using h1(4) by (auto simp: status_vals_of_def fun_eq_iff split: option.splits)
  ultimately show ?thesis using p by (simp add: ODestroy SH_destroy_def state_of_def)
qed

section \<open>Properties\<close>

text \<open>C15: ownership of the arrays behind \<^verbatim>\<open>Status\<close> objects: a program of constructions, copies, moves, assignments (also
  of an object to itself) and destructions never uses or frees an array that is gone, every array is
  owned by exactly one object at every time, the objects have the values that copying and moving values
  gives, and when all objects are destroyed no array is left.\<close>

theorem status_ownership:
  assumes "ops_ok ops Map.empty"
  shows "\<exists>h. status_run ops \<lparr>sh_arrays = Map.empty, sh_fresh = n, sh_vars = Map.empty\<rparr> = Inr h \<and> owned h \<and>
    status_vals_of h = fold op_vals ops Map.empty \<and> (status_vals_of h = Map.empty \<longrightarrow> sh_arrays h = Map.empty)"
proof -
  have run: "\<exists>h'. status_run ops h = Inr h' \<and> owned h' \<and> status_vals_of h' = fold op_vals ops (status_vals_of h)"
    if "owned h" "ops_ok ops (status_vals_of h)" for h
    using that
  proof (induction ops arbitrary: h)
    case (Cons op ops)
    obtain h1 where "status_exec op h = Inr h1" "owned h1" "status_vals_of h1 = op_vals op (status_vals_of h)"
      using status_exec_correct [OF Cons.prems(1), of op] Cons.prems(2) by auto
    then show ?case using Cons.IH [of h1] Cons.prems(2) by auto
  qed simp
  let ?h = "\<lparr>sh_arrays = Map.empty, sh_fresh = n, sh_vars = Map.empty\<rparr>"
  have "owned ?h" "status_vals_of ?h = Map.empty" by (auto simp: owned_def status_vals_of_def)
  then obtain h where h: "status_run ops ?h = Inr h" "owned h" "status_vals_of h = fold op_vals ops Map.empty"
    using run [of ?h] assms by auto
  moreover have "sh_arrays h = Map.empty" if none: "status_vals_of h = Map.empty"
  proof (rule ext, rule ccontr)
    fix a assume "sh_arrays h a \<noteq> None"
    then obtain d where "sh_arrays h a = Some d" by blast
    then obtain v where "sh_vars h v = Some (Some a)" using ownedD(3) [OF h(2)] by blast
    then show False using none vals_None [of h v] by simp
  qed
  ultimately show ?thesis by blast
qed

theorem status_ownership_witness:
  "let ops = [OMake 0 kIOError (Slice_string [97]) (Slice_string []), OCopy 1 0, OMove 2 0, OCopyAssign 1 1, OMoveAssign 0 2,
       ODestroy 0, ODestroy 1, ODestroy 2] in
   \<exists>h. status_run ops \<lparr>sh_arrays = Map.empty, sh_fresh = 0, sh_vars = Map.empty\<rparr> = Inr h \<and> sh_arrays h = Map.empty"
proof -
  let ?ops = "[OMake 0 kIOError (Slice_string [97]) (Slice_string []), OCopy 1 0, OMove 2 0, OCopyAssign 1 1, OMoveAssign 0 2,
       ODestroy 0, ODestroy 1, ODestroy 2]"
  have ok: "ops_ok ?ops Map.empty" by simp
  have "fold op_vals ?ops Map.empty = Map.empty" by (simp add: fun_eq_iff)
  then show ?thesis using status_ownership [OF ok, of 0] by auto
qed

end
