(* ===== verification/Destructors.thy ===== *)
theory Destructors
  imports Memtables Files
begin

text \<open>
  Destructors that do more than release one object, and the rest of the skip list's iterator: \<^verbatim>\<open>~SkipList\<close> and
  \<^verbatim>\<open>Iterator\<close> (\<^verbatim>\<open>memory/skiplist.h\<close>), \<^verbatim>\<open>~Memtable\<close> (\<^verbatim>\<open>memory/memtable.h\<close>), the destructors of the files, and \<^verbatim>\<open>Option\<close>
  (\<^verbatim>\<open>common/option.cc\<close>).
\<close>

section \<open>The skip list\<close>

text \<open>
  The loop keeps the addresses that were deleted; a node that is gone must not be read or deleted. \<open>fuel\<close> is the
  number of nodes.
\<close>

fun Destroy_loop :: "nat \<Rightarrow> 'k skiplist \<Rightarrow> nat list \<Rightarrow> nat option \<Rightarrow> nat list res" where
  "Destroy_loop fuel sl deleted None = Inr deleted"
| "Destroy_loop 0 sl deleted (Some cur) = Inl Diverged"
| "Destroy_loop (Suc fuel) sl deleted (Some cur) =
     (if cur \<in> set deleted then Inl UseAfterFree
      else rbind (get_n_node sl cur 0) (\<lambda>next. Destroy_loop fuel sl (deleted @ [cur]) next))"

text \<open>The result lists the nodes in the order in which they are deleted; the comparator is deleted last.\<close>

definition SkipList_destroy :: "'k skiplist \<Rightarrow> nat list res" where
  "SkipList_destroy sl =
     rbind (get_n_node sl 0 0) (\<lambda>cur.
     rbind (Destroy_loop (length (sk_nodes sl)) sl [] cur) (\<lambda>deleted.
       if 0 \<in> set deleted then Inl UseAfterFree else Inr (deleted @ [0])))"

definition Memtable_destroy :: "Memtable \<Rightarrow> nat list res" where
  "Memtable_destroy m = SkipList_destroy (mt_table m)"

text \<open>The increments of the iterator, its dereference, and \<^verbatim>\<open>Next\<close>, which has an assertion.\<close>

definition SkipList_Iterator_preinc :: "'k skiplist \<Rightarrow> nat option \<Rightarrow> nat option res" where
  "SkipList_Iterator_preinc sl node = (case node of None \<Rightarrow> Inl NullDeref | Some p \<Rightarrow> get_n_node sl p 0)"

definition SkipList_Iterator_postinc :: "'k skiplist \<Rightarrow> nat option \<Rightarrow> (nat option \<times> nat option) res" where
  "SkipList_Iterator_postinc sl node = rbind (SkipList_Iterator_preinc sl node) (\<lambda>node'. Inr (node, node'))"

definition SkipList_Iterator_deref :: "'k skiplist \<Rightarrow> nat option \<Rightarrow> 'k res" where
  "SkipList_Iterator_deref sl node = (case node of None \<Rightarrow> Inl NullDeref | Some p \<Rightarrow> Node_Key sl p)"

definition SkipList_Iterator_checked_Next :: "'k skiplist \<Rightarrow> nat option \<Rightarrow> nat option res" where
  "SkipList_Iterator_checked_Next sl node =
     rbind (assert_that (SkipList_Iterator_Valid node)) (\<lambda>_.
       case node of None \<Rightarrow> Inl NullDeref | Some p \<Rightarrow> get_n_node sl p 0)"

section \<open>Files and options\<close>

text \<open>The descriptors that are closed. What is still in the buffer of a writable file is not written.\<close>

definition WritableFile_destroy :: "WritableFile \<Rightarrow> int list" where
  "WritableFile_destroy f = (if wf_fd f > 0 then [wf_fd f] else [])"

definition RandomAccessFile_destroy :: "RandomAccessFile \<Rightarrow> int list res" where
  "RandomAccessFile_destroy f = rbind (assert_that (rf_fd f \<noteq> -1)) (\<lambda>_. Inr [rf_fd f])"

text \<open>An option owns a comparator; the functions that compare are the two of the program.\<close>

record Option =
  op_cmp :: "(slice \<Rightarrow> slice \<Rightarrow> int res) option"

definition Option_default :: Option where
  "Option_default = \<lparr>op_cmp = Some MemtableKeyComparator_Compare\<rparr>"

definition Option_make :: "(slice \<Rightarrow> slice \<Rightarrow> int res) option \<Rightarrow> Option" where
  "Option_make cmp = \<lparr>op_cmp = cmp\<rparr>"

text \<open>Whether the destructor deletes a comparator.\<close>

definition Option_destroy :: "Option \<Rightarrow> bool" where
  "Option_destroy opt \<longleftrightarrow> op_cmp opt \<noteq> None"

section \<open>All nodes of a list are reachable\<close>

definition sk_full :: "'k skiplist \<Rightarrow> bool" where
  "sk_full sl \<longleftrightarrow> length (sk_nodes sl) = Suc (length (sk_keys sl))"

lemma set_n_node_length: "set_n_node sl p n q = Inr sl' \<Longrightarrow> length (sk_nodes sl') = length (sk_nodes sl)"
  by (auto simp: set_n_node_def Let_def split: if_splits)

lemma Insert_loop_length:
  "Insert_loop fuel cmp k new ptr l sl = Inr sl' \<Longrightarrow> length (sk_nodes sl') = length (sk_nodes sl)"
proof (induction fuel arbitrary: ptr l sl)
  case 0
  then show ?case by (cases l) auto
next
  case (Suc fuel)
  show ?case
  proof (cases l)
    case (Suc i)
    obtain nx adv where g: "get_n_node sl ptr i = Inr nx"
      "(case nx of None \<Rightarrow> Inr False
         | Some q \<Rightarrow> rbind (Node_Key sl q) (\<lambda>k'. rbind (cmp k' k) (\<lambda>c. Inr (c < 0)))) = Inr adv"
      using Suc.prems Suc by auto
    show ?thesis
    proof (cases adv)
      case True
      then show ?thesis using Suc.prems Suc g Suc.IH [of "the nx" "Suc i" sl] by simp
    next
      case False
      then obtain sl1 sl2 where "set_n_node sl ptr i (Some new) = Inr sl1" "set_n_node sl1 new i nx = Inr sl2"
        "Insert_loop fuel cmp k new ptr i sl2 = Inr sl'"
        using Suc.prems Suc g by auto
      then show ?thesis using Suc.IH [of ptr i sl2] set_n_node_length by metis
    qed
  qed (use Suc.prems in simp)
qed

lemma length_insert_before [simp]: "length (insert_before r k ks) = Suc (length ks)"
  unfolding insert_before_def by (simp, metis length_append takeWhile_dropWhile_id)

lemma Memtable_Insert_full:
  assumes "memtable_rep m es" "entry_fits e" "sk_full (mt_table m)"
  shows "\<exists>r' m'. Memtable_Insert rand (entry_key e) r m = Inr (r', m') \<and> memtable_rep m' (insert_before entry_rank e es) \<and>
    sk_full (mt_table m')"
proof -
  obtain r' m' where m: "Memtable_Insert rand (entry_key e) r m = Inr (r', m')" "memtable_rep m' (insert_before entry_rank e es)"
    using Memtable_Insert_rep [OF assms(1,2), of rand r] by blast
  obtain h where "SkipList_Insert_at MemtableKeyComparator_Compare h (entry_key e) (mt_table m) = Inr (mt_table m')"
    using m(1) by (auto simp: Memtable_Insert_def SkipList_Insert_def split: prod.splits)
  then have "length (sk_nodes (mt_table m')) = Suc (length (sk_nodes (mt_table m)))"
    using Insert_loop_length by (fastforce simp: SkipList_Insert_at_def Let_def)
  moreover have "length (sk_keys (mt_table m')) = Suc (length (sk_keys (mt_table m)))"
    using assms(1) m(2) by (simp add: memtable_rep_def)
  ultimately show ?thesis using m assms(3) by (simp add: sk_full_def)
qed

section \<open>Deleting the nodes\<close>

lemma Destroy_loop_chain:
  assumes "sk_ok valid rank sl" "sk_addrs sl = ys @ zs" "length zs \<le> fuel"
  shows "Destroy_loop fuel sl ys (iter_at zs) = Inr (sk_addrs sl)"
  using assms
proof (induction fuel arbitrary: ys zs)
  case (Suc fuel)
  show ?case
  proof (cases zs)
    case (Cons q zs')
    have "distinct (sk_addrs sl)" using Suc.prems(1) by (simp add: sk_ok_def sk_inv_def sk_shape_def)
    then have "q \<notin> set ys" using Suc.prems(2) Cons by auto
    then show ?thesis
      using iterator_step [OF Suc.prems(1), of "0 # ys" q zs'] Suc.IH [OF Suc.prems(1), of "ys @ [q]" zs'] Suc.prems Cons
      by (simp add: iter_at_def)
  qed (use Suc.prems in \<open>simp add: iter_at_def\<close>)
qed (simp add: iter_at_def)

lemma SkipList_destroy_addrs:
  assumes "sk_ok valid rank sl"
  shows "SkipList_destroy sl = Inr (sk_addrs sl @ [0])"
proof -
  have sh: "sk_shape sl (sk_addrs sl)" using assms by (simp add: sk_ok_def sk_inv_def)
  then have "set (0 # sk_addrs sl) \<subseteq> {..<length (sk_nodes sl)}" "distinct (0 # sk_addrs sl)" by (auto simp: sk_shape_def)
  then have "length (0 # sk_addrs sl) \<le> length (sk_nodes sl)" by (metis card_lessThan card_mono distinct_card finite_lessThan)
  then have "Destroy_loop (length (sk_nodes sl)) sl [] (iter_at (sk_addrs sl)) = Inr (sk_addrs sl)"
    by (intro Destroy_loop_chain [OF assms]) simp_all
  then show ?thesis
    using iterator_step [OF assms, of "[]" 0] sh by (simp add: SkipList_destroy_def sk_shape_def)
qed

section \<open>Properties\<close>

text \<open>Inserting a list of entries.\<close>

fun insert_entries :: "('r \<Rightarrow> nat \<times> 'r) \<Rightarrow> entry list \<Rightarrow> 'r \<Rightarrow> Memtable \<Rightarrow> ('r \<times> Memtable) res" where
  "insert_entries rand [] r m = Inr (r, m)"
| "insert_entries rand (e # es) r m = rbind (Memtable_Insert rand (entry_key e) r m) (\<lambda>(r, m). insert_entries rand es r m)"

lemma insert_entries_full:
  "memtable_rep m es0 \<Longrightarrow> sk_full (mt_table m) \<Longrightarrow> \<forall>e\<in>set es. entry_fits e \<Longrightarrow>
     \<exists>r' m' es'. insert_entries rand es r m = Inr (r', m') \<and> memtable_rep m' es' \<and> sk_full (mt_table m') \<and>
       length es' = length es0 + length es"
proof (induction es arbitrary: r m es0)
  case (Cons e es)
  obtain r1 m1 where "Memtable_Insert rand (entry_key e) r m = Inr (r1, m1)" "memtable_rep m1 (insert_before entry_rank e es0)"
    "sk_full (mt_table m1)"
    using Memtable_Insert_full [OF Cons.prems(1), of e rand r] Cons.prems by auto
  then show ?case using Cons.IH [of m1 "insert_before entry_rank e es0" r1] Cons.prems(3) by auto
qed auto

text \<open>C19: the destructor of a memtable returns, for any entries inserted at any heights: it deletes every node of the
  skip list, the head last, each exactly once, and reads none that is already deleted.\<close>

theorem memtable_destroy_all:
  assumes "\<forall>e\<in>set es. entry_fits e"
  shows "\<exists>r' m deleted. insert_entries rand es r (Memtable_make junk) = Inr (r', m) \<and> Memtable_destroy m = Inr deleted \<and>
    distinct deleted \<and> set deleted = {..<length (sk_nodes (mt_table m))} \<and> length deleted = Suc (length es) \<and> last deleted = 0"
proof -
  have "sk_full (mt_table (Memtable_make junk))"
    using Memtable_make_rep [of junk] by (simp add: sk_full_def memtable_rep_def) (simp add: Memtable_make_def SkipList_make_def)
  then obtain r' m es' where m: "insert_entries rand es r (Memtable_make junk) = Inr (r', m)" "memtable_rep m es'"
    "sk_full (mt_table m)" "length es' = length es"
    using insert_entries_full [OF Memtable_make_rep _ assms, of junk rand r] by auto
  then have ok: "sk_ok valid_mkey mkey_rank (mt_table m)" by (simp add: memtable_rep_def)
  let ?xs = "sk_addrs (mt_table m)"
  have d: "distinct (0 # ?xs)" "set (?xs @ [0]) \<subseteq> {..<length (sk_nodes (mt_table m))}"
    using ok by (auto simp: sk_ok_def sk_inv_def sk_shape_def)
  have n: "length ?xs = length es" "length (sk_nodes (mt_table m)) = Suc (length es)"
    using m by (simp_all add: sk_full_def memtable_rep_def) (metis length_map sk_keys_def)
  have "card (set (?xs @ [0])) = card {..<length (sk_nodes (mt_table m))}"
    using d(1) n by (simp add: distinct_card)
  then have "set (?xs @ [0]) = {..<length (sk_nodes (mt_table m))}" using d(2) by (intro card_subset_eq) simp_all
  then show ?thesis
    using m(1) SkipList_destroy_addrs [OF ok] d(1) n by (auto simp: Memtable_destroy_def)
qed

theorem memtable_destroy_all_witness:
  "\<exists>r' m deleted. insert_entries (\<lambda>n. (n, n + 1)) [([97], 257, [98]), ([98], 513, [99])] (2::nat) (Memtable_make 0) = Inr (r', m) \<and>
    Memtable_destroy m = Inr deleted \<and> distinct deleted \<and> length deleted = 3"
  using memtable_destroy_all [of "[([97], 257, [98]), ([98], 513, [99])]" "\<lambda>n. (n, n + 1)" "2::nat" 0] by (auto simp: mkey_fits_def)

end
