(* ===== verification/Spec2Isabelle.thy ===== *)
theory Spec2Isabelle
  imports ServerHangs TableMemory DBShutdown Sockets Loggers StatusHeaps Destructors
begin

text \<open>
  \<^bold>\<open>KoishiDB\<close> is a key-value store in C++ in the style of LevelDB. A client sends a request over a socket; a task of
  a thread pool parses it and calls the database; a write goes as a batch into a memtable, a skip list
  ordered by user key and descending sequence number; a full memtable is set aside and written by a
  background thread to a table file of blocks with an index and a Bloom filter; a lookup searches the
  memtables, then the table files; a manifest keeps the table files over a restart.

  \<^bold>\<open>Theories and sources\<close> (below \<^verbatim>\<open>src/src\<close>)

  \<^item> \<open>KPrelude\<close>: bytes and machine words, results with the errors a C++ program can run into, theorem collections,
    three-way comparison, and the locale of comparators, the contract of \<^verbatim>\<open>util/comparator.h\<close>.
  \<^item> \<open>Slices\<close>: \<^verbatim>\<open>type/slice.cc\<close>. \<open>Encode\<close>: \<^verbatim>\<open>util/encode.cc\<close>. \<open>Keys\<close>: \<^verbatim>\<open>type/key.cc\<close>, \<^verbatim>\<open>util/util.cc\<close>, the two comparators.
  \<^item> \<open>SkipLists\<close>: \<^verbatim>\<open>memory/skiplist.h\<close>, over an explicit heap of nodes, with the locale of ordered tables.
    \<open>Memtables\<close>: \<^verbatim>\<open>memory/memtable.cc\<close>. \<open>WriteBatches\<close>: \<^verbatim>\<open>memory/write_batch.cc\<close>.
  \<^item> \<open>BloomFilters\<close>: \<^verbatim>\<open>util/bloom_filter.cc\<close>. \<open>FilterBlocks\<close>: \<^verbatim>\<open>disk/filterblock_builder.cc\<close> and \<^verbatim>\<open>filterblock_reader.cc\<close>.
  \<^item> \<open>Statuses\<close>: \<^verbatim>\<open>common/status.cc\<close>, as values. \<open>StatusHeaps\<close>: the same class over a heap of arrays, with its copies, moves and
    destructor. \<open>Files\<close>: \<^verbatim>\<open>disk/writable_file.cc\<close> and \<^verbatim>\<open>random_access_file.cc\<close>, with the record of
    system calls.
  \<^item> \<open>Blocks\<close>: \<^verbatim>\<open>disk/block_builder.cc\<close> and \<^verbatim>\<open>block_iterator.cc\<close>. \<open>Formats\<close>: \<^verbatim>\<open>disk/format.h\<close> and the file metadata of
    \<^verbatim>\<open>sstable.cc\<close>. \<open>TableBuilders\<close>: \<^verbatim>\<open>disk/table_builder.cc\<close>. \<open>SSTables\<close>: \<^verbatim>\<open>disk/sstable.cc\<close> and \<^verbatim>\<open>sstable_iterator.cc\<close>.
    \<open>BuildTables\<close>: \<^verbatim>\<open>disk/builder.cc\<close>. \<open>TableMemory\<close>: the objects that tables, their iterators and the table builder
    allocate, over a heap, with the destructors that delete them.
  \<^item> \<open>DBImpls\<close>: \<^verbatim>\<open>db_impl.cc\<close>, every method of the database, and what it does to the map in memory. \<open>DBDisk\<close>: its table
    files and its manifest. \<open>DBRestart\<close>: closing and opening it again. \<open>MemoryBounds\<close>: the size of its memtables.
    \<open>DBThreads\<close>: its threads, as a step relation. \<open>DBShutdown\<close>: its destructor among them.
  \<^item> \<open>Destructors\<close>: the destructors of skip list, memtable and files, the operators of the skip list's iterator, and
    \<^verbatim>\<open>common/option.cc\<close>.
  \<^item> \<open>Transitions\<close>: locales of transition systems with an invariant and of terminating ones, interpreted by
    \<open>DBThreads\<close>, \<open>DBShutdown\<close>, \<open>Servers\<close>, \<open>ServerThreads\<close>, \<open>ServerHangs\<close> and \<open>ThreadPools\<close>, which is \<^verbatim>\<open>network/thread_pool.h\<close>.
  \<^item> \<open>Networks\<close>: the events and tasks of \<^verbatim>\<open>main.cc\<close>, \<^verbatim>\<open>network/parser.cpp\<close>, \<^verbatim>\<open>util/concurrent_hashmap.h\<close>, \<^verbatim>\<open>memory/hash.cc\<close>.
    \<open>Servers\<close>: \<^verbatim>\<open>main\<close> as a step relation of main thread, thread pool and database, with a task as one step.
    \<open>ServerThreads\<close>: the whole program, in which a task is the sequence of the steps that other threads can observe and
    a put or a delete is a writer among the threads of \<open>DBThreads\<close>. \<open>ServerHangs\<close>: its deadlock. \<open>Sockets\<close>:
    \<^verbatim>\<open>network/helper.cc\<close>, the set-up of \<^verbatim>\<open>main\<close> and its loop over the events of \<^verbatim>\<open>epoll\<close>. \<open>Loggers\<close>: \<^verbatim>\<open>logger.h\<close>.

  \<^bold>\<open>How the code is modelled.\<close> A class is a record with its members, a method a function that returns the changed
  object in the type \<open>res\<close>: a failed assertion, a read outside of memory, the use of a null pointer or a
  deleted object, signed overflow and a missing return are errors, not missing behaviour. A pointer into
  a buffer is the memory from there on, so every read is checked. Fixed-width integers are words;
  \<^verbatim>\<open>size_t\<close> values are natural numbers, and wrap where the code lets them. Members that the code leaves
  uninitialised are arguments. The random source of the skip list is a function argument.

  \<^bold>\<open>The system\<close> is a record of functions over a state of the world: write, read, open, access and unlink. The
  hypotheses on it are what POSIX documents: a write takes a non-empty part of the data and appends it
  to what was written (\<open>posix_write\<close>), it is not interrupted (\<open>posix_no_interrupt\<close>), and, for theorems about
  success, does not fail (\<open>reliable\<close>), and a file opened for reading has the bytes that were written
  (\<open>file_content\<close>, \<open>disk_ok\<close>); for two files, that writing to one leaves the other alone (\<open>two_files\<close>). The witnesses
  use \<open>slow_os\<close>, which writes at most three bytes at a time, and \<open>files_os\<close>, which has a file for each
  descriptor. The calls for sockets are a record \<open>net\<close>, with what \<^verbatim>\<open>epoll\<close> documents as \<open>epoll_doc\<close>.
  The write loop has fuel \<open>sys_fuel\<close>, one unit per call; a buffer of data is enough, because
  every call writes at least one byte. All other loops end by their own measures.

  \<^bold>\<open>What is proved\<close>
  \<^item> In memory: encoders and decoders are inverse; the comparators agree with one linear order; insertion
    and search of the skip list for every height; a memtable returns the newest entry; a batch changes the map
    a reader sees by its updates; \<^verbatim>\<open>Put\<close>, \<^verbatim>\<open>Delete\<close>, \<^verbatim>\<open>Write\<close> and \<^verbatim>\<open>Get\<close> of the database refine operations on a map; its
    memory stays within the limit and one batch; destroyed skip lists and \<^verbatim>\<open>Status\<close> objects free
    everything once.
  \<^item> On disk: blocks, filter blocks, footers, metadata, tables and the manifest are read back as written; a
    memtable written to a table is visited by the table's iterator, entry by entry; a database that is
    closed and opened again has its files and its sequence number.
  \<^item> Threads: mutual exclusion, refinement of a map in every interleaving, the return of a writer that finds
    room, and the deadlock of one that does not; the thread pool starts tasks in order, loses no
    wake-up, and its destructor ends with every task finished.
  \<^item> The server: requests are parsed back, a put followed by a get is answered with the value; main loop, pool and
    database together refine a map that handles one request after the other, in every interleaving;
    connections are not shared and their descriptors are registered. The whole program is linearizable: every
    answer is that of the map at a moment between reading the request and answering it, and a put is
    answered after its commit; a writer that waits for a compaction hangs it for good.
  \<^item> Memory: which objects a table and its iterators leave behind after their destructors, lookup by lookup.
  \<^item> Where the code does not do what it means to, the theorem states what it does: deleted keys are found
    with a blank, keys are cut at zero bytes, a table has one data block, point lookups in tables find
    nothing, so compacted keys are lost, an empty database cannot be closed, a group commit would drop
    batches, a restarted database reuses the number of a table file, a task can use variables that are out of
    scope or lose its connection to a reused descriptor, the destructor does not wait for compactions, a
    part of a request is taken for the whole, the log level has no effect.

  \<^bold>\<open>Not modelled\<close>: memory other than that of skip lists, statuses and tables, such as the keys that a memtable
  allocates for its entries and the tables that \<^verbatim>\<open>Get\<close> opens and does not delete; seeding the random numbers;
  abstract classes without code. \<^verbatim>\<open>cv_lock_\<close> of the database, which is unlocked without being locked, is taken to
  have no effect. In the whole program requests are shorter than 64 kilobytes, as in the theories below it.
\<close>

end
